(* ===== verification/Yarilo_Prelude.thy ===== *)
theory Yarilo_Prelude
  imports Main "HOL-Library.AList" "HOL-Library.Multiset" "HOL-Library.Word"
    "HOL-Library.Char_ord" "HOL-Library.List_Lexorder" "HOL-Library.Product_Lexorder"
begin

text \<open>
  The prelude of the development: the names of the types every component uses, the
  collections of simplification rules, and the generic lemmas on lists, association
  lists and sorting.

  \<^item> A Go \<^verbatim>\<open>string\<close> or \<^verbatim>\<open>[]byte\<close> is a list of bytes (\<open>string\<close>, a list of \<open>char\<close>).
  \<^item> A Go \<^verbatim>\<open>rune\<close> is a code point (\<open>rune\<close>).
  \<^item> A Go \<^verbatim>\<open>map\<close> is an association list with distinct keys (\<open>gomap\<close>): its order stands
    for the unspecified iteration order of the map, and the operations are the library's
    \<open>map_of\<close>, \<open>AList.update\<close> and \<open>AList.delete\<close>.
  \<^item> A Go function that returns an \<^verbatim>\<open>error\<close> returns a sum, \<open>Inl\<close> the error.
  \<^item> A Go \<^verbatim>\<open>time.Time\<close> and \<^verbatim>\<open>time.Duration\<close> are numbers of nanoseconds (\<open>instant\<close>).
\<close>

type_synonym rune = nat
type_synonym ('k, 'v) gomap = "('k \<times> 'v) list"
type_synonym instant = int

named_theorems gomap_simps \<open>lookups in an updated association list\<close>
named_theorems letter_simps \<open>evaluation of byte and rune constants\<close>

subsection \<open>Association lists\<close>

abbreviation wf_map :: "('k, 'v) gomap \<Rightarrow> bool" where
  "wf_map m \<equiv> distinct (map fst m)"

abbreviation keys :: "('k, 'v) gomap \<Rightarrow> 'k set" where
  "keys m \<equiv> fst ` set m"

lemma map_of_update [gomap_simps]: "map_of (AList.update k v m) = (map_of m)(k \<mapsto> v)"
  by (rule update_conv')

lemma map_of_delete [gomap_simps]: "map_of (AList.delete k m) = (map_of m)(k := None)"
  by (rule delete_conv')

lemma wf_map_update [simp, intro]: "wf_map m \<Longrightarrow> wf_map (AList.update k v m)"
  by (rule distinct_update)

lemma wf_map_delete [simp, intro]: "wf_map m \<Longrightarrow> wf_map (AList.delete k m)"
  by (rule distinct_delete)

lemma wf_map_filter [simp, intro]: "wf_map m \<Longrightarrow> wf_map (filter P m)"
  by (induction m) auto

lemma map_of_filter_wf:
  "wf_map m \<Longrightarrow> map_of (filter P m) k =
     (case map_of m k of None \<Rightarrow> None | Some v \<Rightarrow> if P (k, v) then Some v else None)"
proof (induction m)
  case Nil
  then show ?case by simp
next
  case (Cons e m)
  obtain k' v' where e: "e = (k', v')" by (cases e)
  from Cons.prems e have "map_of m k' = None"
    by (simp add: map_of_eq_None_iff)
  with Cons e show ?case by (auto split: option.splits)
qed

lemma map_of_Some_iff: "wf_map m \<Longrightarrow> map_of m k = Some v \<longleftrightarrow> (k, v) \<in> set m"
  by (rule map_of_eq_Some_iff)

lemma wf_map_mset_eq:
  assumes "mset m = mset m'" and "wf_map m"
  shows "wf_map m'" and "map_of m = map_of m'"
proof -
  from assms(1) have "mset (map fst m) = mset (map fst m')"
    by (metis mset_map)
  with assms(2) show w: "wf_map m'"
    by (metis mset_eq_imp_distinct_iff)
  show "map_of m = map_of m'"
    using assms w by (metis map_of_inject_set mset_eq_setD)
qed

subsection \<open>Sorting\<close>

lemma sort_key_stable_filter: "filter P (sort_key f xs) = sort_key f (filter P xs)"
  by (rule filter_sort)

lemma sorted_wrt_key: "sorted (map f (sort_key f xs))"
  by simp

lemma sorted_le_last: "sorted xs \<Longrightarrow> x \<in> set xs \<Longrightarrow> x \<le> last xs"
  by (induction xs) auto

lemma sorted_key_le_last: "sorted (map f xs) \<Longrightarrow> x \<in> set xs \<Longrightarrow> f x \<le> f (last xs)"
  by (induction xs) auto

text \<open>In a sorted list the elements with the greatest key are those with the key of the last.\<close>

lemma top_key_iff:
  assumes "sorted (map f xs)" and "x \<in> set xs"
  shows "(\<forall>y\<in>set xs. f y \<le> f x) \<longleftrightarrow> f x = f (last xs)"
proof
  assume "\<forall>y\<in>set xs. f y \<le> f x"
  moreover have "last xs \<in> set xs" using assms(2) by (cases xs) auto
  ultimately show "f x = f (last xs)"
    using sorted_key_le_last [OF assms] by (simp add: order_antisym)
qed (use assms sorted_key_le_last in auto)

subsection \<open>Errors as sums\<close>

lemma sum_case_Inr_iff:
  "(case x of Inl e \<Rightarrow> Inl e | Inr a \<Rightarrow> f a) = Inr b \<longleftrightarrow> (\<exists>a. x = Inr a \<and> f a = Inr b)"
  by (cases x) auto

end
