(* ===== verification/Go_Runtime.thy ===== *)
theory Go_Runtime
  imports Yarilo_Prelude
begin

text \<open>
  The parts of the Go language and its standard library the components use: UTF-8
  decoding as \<^verbatim>\<open>range\<close> over a string and \<^verbatim>\<open>unicode/utf8\<close> do it, the byte-wise functions of
  package \<^verbatim>\<open>strings\<close>, decimal printing and parsing, and \<^verbatim>\<open>sort.Search\<close>.
\<close>

subsection \<open>UTF-8\<close>

definition rune_error :: rune where
  "rune_error = 0xFFFD"

definition cont_byte :: "nat \<Rightarrow> bool" where
  "cont_byte b \<longleftrightarrow> 0x80 \<le> b \<and> b \<le> 0xBF"

text \<open>
  One step of \<^verbatim>\<open>utf8.DecodeRuneInString\<close>: the code point and its width, \<open>None\<close> where Go
  returns the replacement character with width 1. The second byte of a three- or
  four-byte sequence has the accept range of Go's table, which excludes overlong forms,
  surrogates and values above \<open>0x10FFFF\<close>.
\<close>

fun decode1 :: "string \<Rightarrow> (rune \<times> nat) option" where
  "decode1 [] = None"
| "decode1 (c0 # cs) =
    (let b0 = of_char c0 :: nat in
     if b0 < 0x80 then Some (b0, 1)
     else if b0 < 0xC2 \<or> 0xF4 < b0 then None
     else if b0 < 0xE0 then
       (case cs of c1 # _ \<Rightarrow>
          (if cont_byte (of_char c1)
           then Some ((b0 - 0xC0) * 0x40 + (of_char c1 - 0x80), 2) else None)
        | _ \<Rightarrow> None)
     else if b0 < 0xF0 then
       (case cs of c1 # c2 # _ \<Rightarrow>
          (if (if b0 = 0xE0 then 0xA0 else 0x80) \<le> (of_char c1 :: nat) \<and>
              (of_char c1 :: nat) \<le> (if b0 = 0xED then 0x9F else 0xBF) \<and> cont_byte (of_char c2)
           then Some ((b0 - 0xE0) * 0x1000 + (of_char c1 - 0x80) * 0x40 + (of_char c2 - 0x80), 3)
           else None)
        | _ \<Rightarrow> None)
     else
       (case cs of c1 # c2 # c3 # _ \<Rightarrow>
          (if (if b0 = 0xF0 then 0x90 else 0x80) \<le> (of_char c1 :: nat) \<and>
              (of_char c1 :: nat) \<le> (if b0 = 0xF4 then 0x8F else 0xBF) \<and>
              cont_byte (of_char c2) \<and> cont_byte (of_char c3)
           then Some ((b0 - 0xF0) * 0x40000 + (of_char c1 - 0x80) * 0x1000 +
                      (of_char c2 - 0x80) * 0x40 + (of_char c3 - 0x80), 4)
           else None)
        | _ \<Rightarrow> None))"

definition rune_at :: "string \<Rightarrow> rune \<times> nat" where
  "rune_at s = (case decode1 s of None \<Rightarrow> (rune_error, 1) | Some d \<Rightarrow> d)"

text \<open>
  The runs of bytes a \<^verbatim>\<open>range\<close> loop visits, each with the code point it reports.
\<close>

function chunks :: "string \<Rightarrow> (rune \<times> string) list" where
  "chunks [] = []"
| "chunks (c # cs) =
    (let d = rune_at (c # cs); n = snd d - 1
     in (fst d, c # take n cs) # chunks (drop n cs))"
  by pat_completeness auto
termination
  by (relation "measure length") auto

definition runes :: "string \<Rightarrow> rune list" where
  "runes s = map fst (chunks s)"

text \<open>\<^verbatim>\<open>utf8.ValidString\<close>.\<close>

function valid_utf8 :: "string \<Rightarrow> bool" where
  "valid_utf8 [] = True"
| "valid_utf8 (c # cs) =
    (case decode1 (c # cs) of None \<Rightarrow> False | Some (r, n) \<Rightarrow> valid_utf8 (drop (n - 1) cs))"
  by pat_completeness auto
termination
  by (relation "measure length") auto

definition valid_rune :: "rune \<Rightarrow> bool" where
  "valid_rune r \<longleftrightarrow> r < 0xD800 \<or> 0xE000 \<le> r \<and> r \<le> 0x10FFFF"

text \<open>\<^verbatim>\<open>strings.Builder.WriteRune\<close>: an invalid rune is written as the replacement character.\<close>

definition encode_valid :: "rune \<Rightarrow> string" where
  "encode_valid r =
    (if r < 0x80 then [char_of r]
     else if r < 0x800 then [char_of (0xC0 + r div 0x40), char_of (0x80 + r mod 0x40)]
     else if r < 0x10000 then
       [char_of (0xE0 + r div 0x1000), char_of (0x80 + r div 0x40 mod 0x40), char_of (0x80 + r mod 0x40)]
     else
       [char_of (0xF0 + r div 0x40000), char_of (0x80 + r div 0x1000 mod 0x40),
        char_of (0x80 + r div 0x40 mod 0x40), char_of (0x80 + r mod 0x40)])"

definition encode_rune :: "rune \<Rightarrow> string" where
  "encode_rune r = encode_valid (if valid_rune r then r else rune_error)"

definition write_runes :: "rune list \<Rightarrow> string" where
  "write_runes rs = concat (map encode_rune rs)"

subsection \<open>Package strings on bytes\<close>

definition has_prefix :: "string \<Rightarrow> string \<Rightarrow> bool" where
  "has_prefix s p \<longleftrightarrow> take (length p) s = p"

definition trim_left :: "string \<Rightarrow> string \<Rightarrow> string" where
  "trim_left s cs = dropWhile (\<lambda>c. c \<in> set cs) s"

definition trim_right :: "string \<Rightarrow> string \<Rightarrow> string" where
  "trim_right s cs = rev (dropWhile (\<lambda>c. c \<in> set cs) (rev s))"

definition trim :: "string \<Rightarrow> string \<Rightarrow> string" where
  "trim s cs = trim_right (trim_left s cs) cs"

definition contains_any :: "string \<Rightarrow> string \<Rightarrow> bool" where
  "contains_any s cs \<longleftrightarrow> list_ex (\<lambda>c. c \<in> set cs) s"

text \<open>\<^verbatim>\<open>unicode.IsSpace\<close> and \<^verbatim>\<open>strings.TrimSpace\<close>, on the runs of \<open>chunks\<close>.\<close>

definition is_space :: "rune \<Rightarrow> bool" where
  "is_space r \<longleftrightarrow> 0x09 \<le> r \<and> r \<le> 0x0D \<or>
     r \<in> {0x20, 0x85, 0xA0, 0x1680, 0x2028, 0x2029, 0x202F, 0x205F, 0x3000} \<or>
     0x2000 \<le> r \<and> r \<le> 0x200A"

definition trim_space :: "string \<Rightarrow> string" where
  "trim_space s =
    concat (map snd (rev (dropWhile (is_space \<circ> fst) (rev (dropWhile (is_space \<circ> fst) (chunks s))))))"

definition ascii_lower :: "char \<Rightarrow> char" where
  "ascii_lower c = (if 0x41 \<le> (of_char c :: nat) \<and> (of_char c :: nat) \<le> 0x5A
                    then char_of ((of_char c :: nat) + 0x20) else c)"

text \<open>
  \<^verbatim>\<open>strings.Split(s, sep)\<close> for a one-byte separator.
\<close>

fun split_byte :: "char \<Rightarrow> string \<Rightarrow> string list" where
  "split_byte sep [] = [[]]"
| "split_byte sep (c # cs) =
    (if c = sep then [] # split_byte sep cs
     else (case split_byte sep cs of [] \<Rightarrow> [[c]] | w # ws \<Rightarrow> (c # w) # ws))"

subsection \<open>Decimal numbers\<close>

text \<open>\<^verbatim>\<open>strconv.Itoa\<close> and \<^verbatim>\<open>%d\<close> on a non-negative number.\<close>

fun itoa :: "nat \<Rightarrow> string" where
  "itoa n = (if n < 10 then [char_of (0x30 + n)]
             else itoa (n div 10) @ [char_of (0x30 + n mod 10)])"

declare itoa.simps [simp del]

definition is_digit :: "char \<Rightarrow> bool" where
  "is_digit c \<longleftrightarrow> 0x30 \<le> (of_char c :: nat) \<and> (of_char c :: nat) \<le> 0x39"

definition digits_val :: "string \<Rightarrow> nat" where
  "digits_val s = foldl (\<lambda>n c. 10 * n + (of_char c - 0x30)) 0 s"

text \<open>\<^verbatim>\<open>strconv.Atoi\<close>: an optional sign, at least one digit, in the range of a 64-bit int.\<close>

definition atoi :: "string \<Rightarrow> int option" where
  "atoi s =
    (let neg = has_prefix s ''-'';
         d = (if neg \<or> has_prefix s ''+'' then tl s else s);
         v = int (digits_val d)
     in if d = [] \<or> \<not> list_all is_digit d then None
        else if neg then (if v \<le> 2 ^ 63 then Some (- v) else None)
        else if v < 2 ^ 63 then Some v else None)"

subsection \<open>Binary search\<close>

text \<open>
  The loop of \<^verbatim>\<open>sort.Search\<close>: \<^verbatim>\<open>for i < j { h := int(uint(i+j) >> 1); if !f(h) { i = h + 1 }
  else { j = h } }\<close>.
\<close>

function search_loop :: "(nat \<Rightarrow> bool) \<Rightarrow> nat \<Rightarrow> nat \<Rightarrow> nat" where
  "search_loop f i j =
    (if i < j then
       (let h = (i + j) div 2
        in if \<not> f h then search_loop f (h + 1) j else search_loop f i h)
     else i)"
  by pat_completeness auto
termination
  by (relation "measure (\<lambda>(f, i, j). j - i)") auto

declare search_loop.simps [simp del]

definition sort_search :: "nat \<Rightarrow> (nat \<Rightarrow> bool) \<Rightarrow> nat" where
  "sort_search n f = search_loop f 0 n"

subsection \<open>Facts about decoding\<close>

lemma decode1_width: "decode1 s = Some (r, n) \<Longrightarrow> 1 \<le> n \<and> n \<le> length s"
  by (cases s rule: decode1.cases)
     (auto simp: Let_def split: if_splits list.splits)

lemma concat_chunks: "concat (map snd (chunks s)) = s"
  by (induction s rule: chunks.induct) (simp_all add: Let_def)

lemma decode1_ascii: "(of_char c :: nat) < 128 \<Longrightarrow> decode1 (c # cs) = Some (of_char c, 1)"
  by simp

lemma chunks_ascii: "(of_char c :: nat) < 128 \<Longrightarrow> chunks (c # cs) = (of_char c, [c]) # chunks cs"
  by (simp add: rune_at_def Let_def)

lemma runes_Nil [simp]: "runes [] = []"
  by (simp add: runes_def)

lemma runes_ascii: "(of_char c :: nat) < 128 \<Longrightarrow> runes (c # cs) = of_char c # runes cs"
  by (simp add: runes_def chunks_ascii del: chunks.simps)

text \<open>On a string of ASCII bytes the code points are the bytes.\<close>

abbreviation ascii :: "string \<Rightarrow> bool" where
  "ascii s \<equiv> list_all (\<lambda>c. (of_char c :: nat) < 128) s"

lemma runes_ascii_string: "ascii s \<Longrightarrow> runes s = map of_char s"
  by (induction s) (simp_all add: runes_ascii)

lemma runes_ascii_append: "ascii s \<Longrightarrow> runes (s @ t) = map of_char s @ runes t"
  by (induction s) (simp_all add: runes_ascii)

text \<open>A byte outside ASCII never decodes to a code point below 128.\<close>

lemma decode1_ge: "128 \<le> (of_char c :: nat) \<Longrightarrow> decode1 (c # cs) = Some (r, n) \<Longrightarrow> 128 \<le> r"
  by (auto simp: Let_def cont_byte_def split: if_splits list.splits)

lemma rune_at_ge: "128 \<le> (of_char c :: nat) \<Longrightarrow> 128 \<le> fst (rune_at (c # cs))"
  by (auto simp: rune_at_def rune_error_def dest: decode1_ge simp del: decode1.simps
      split: option.splits)

lemma rune_small_in:
  assumes "r \<in> set (runes s)" and "r < 128"
  shows "char_of r \<in> set s"
  using assms
proof (induction s rule: chunks.induct)
  case 1
  then show ?case by simp
next
  case (2 c cs)
  let ?n = "snd (rune_at (c # cs)) - 1"
  have eq: "runes (c # cs) = fst (rune_at (c # cs)) # runes (drop ?n cs)"
    by (simp add: runes_def Let_def)
  show ?case
  proof (cases "r \<in> set (runes (drop ?n cs))")
    case True
    with 2 have "char_of r \<in> set (drop ?n cs)" by simp
    then show ?thesis by (auto dest: in_set_dropD)
  next
    case False
    with 2(2) eq have r: "r = fst (rune_at (c # cs))" by simp
    with 2(3) have "(of_char c :: nat) < 128"
      using rune_at_ge [of c cs] by linarith
    with r have "r = of_char c"
      by (simp add: rune_at_def)
    then show ?thesis by simp
  qed
qed

subsection \<open>Encoding and decoding\<close>

lemma of_char_of_small: "n < 256 \<Longrightarrow> of_char (char_of n :: char) = (n :: nat)"
  by simp

lemma encode_valid_ascii: "r < 128 \<Longrightarrow> encode_valid r = [char_of r]"
  by (simp add: encode_valid_def)

lemma encode_rune_ascii: "r < 128 \<Longrightarrow> encode_rune r = [char_of r]"
  by (simp add: encode_rune_def encode_valid_ascii valid_rune_def)

lemma write_runes_ascii: "list_all (\<lambda>r. r < 128) rs \<Longrightarrow> write_runes rs = map char_of rs"
  by (induction rs) (simp_all add: write_runes_def encode_rune_ascii)

subsection \<open>Bytes of a valid string, trimming\<close>

lemma decode1_cont:
  "decode1 (c # cs) = Some (r, n) \<Longrightarrow> 128 \<le> (of_char c :: nat) \<Longrightarrow>
    x \<in> set (take (n - 1) cs) \<Longrightarrow> 128 \<le> (of_char x :: nat)"
  by (auto simp: Let_def cont_byte_def split: if_splits list.splits)

lemma valid_utf8_ascii_byte:
  assumes "valid_utf8 s" and "c \<in> set s" and "(of_char c :: nat) < 128"
  shows "of_char c \<in> set (runes s)"
  using assms
proof (induction s rule: valid_utf8.induct)
  case 1
  then show ?case by simp
next
  case (2 d cs)
  from "2.prems"(1) obtain r n where d: "decode1 (d # cs) = Some (r, n)"
    and v: "valid_utf8 (drop (n - 1) cs)"
    by (auto simp del: decode1.simps split: option.splits)
  have eq: "runes (d # cs) = r # runes (drop (n - 1) cs)"
    using d by (simp add: runes_def rune_at_def Let_def del: decode1.simps)
  consider "c = d" | "c \<in> set (take (n - 1) cs)" | "c \<in> set (drop (n - 1) cs)"
    using "2.prems"(2) by (metis Un_iff append_take_drop_id set_ConsD set_append)
  then show ?case
  proof cases
    case 1
    with "2.prems"(3) d eq show ?thesis by simp
  next
    case 2
    then have "(of_char d :: nat) < 128"
      using decode1_cont [OF d _ 2] "2.prems"(3) by linarith
    with d have "n = 1" by simp
    with 2 show ?thesis by simp
  next
    case 3
    then have "of_char c \<in> set (runes (drop (n - 1) cs))"
      using "2.IH" [OF d refl v] "2.prems"(3) by simp
    with eq show ?thesis by simp
  qed
qed

lemma dropWhile_rev_head:
  "\<not> P x \<Longrightarrow> \<exists>ys. rev (dropWhile P (rev (x # xs))) = x # ys"
  by (auto simp: dropWhile_append) (metis rev_rev_ident)

lemma trim_space_head:
  assumes "(of_char c :: nat) < 128" and "\<not> is_space (of_char c)"
  shows "\<exists>t. trim_space (c # cs) = c # t"
proof -
  have ch: "chunks (c # cs) = (of_char c, [c]) # chunks cs"
    using assms(1) by (rule chunks_ascii)
  have "dropWhile (is_space \<circ> fst) (chunks (c # cs)) = (of_char c, [c]) # chunks cs"
    unfolding ch using assms(2) by simp
  moreover obtain ys where
    "rev (dropWhile (is_space \<circ> fst) (rev ((of_char c, [c]) # chunks cs))) = (of_char c, [c]) # ys"
    using dropWhile_rev_head [of "is_space \<circ> fst" "(of_char c, [c])" "chunks cs"] assms(2) by auto
  ultimately show ?thesis
    by (simp add: trim_space_def)
qed

lemma trim_right_id: "s = [] \<or> last s \<notin> set cs \<Longrightarrow> trim_right s cs = s"
  by (cases s rule: rev_cases) (auto simp: trim_right_def)

lemma trim_left_id: "s = [] \<or> hd s \<notin> set cs \<Longrightarrow> trim_left s cs = s"
  by (cases s) (auto simp: trim_left_def)

lemma trim_id: "\<not> contains_any s cs \<Longrightarrow> trim s cs = s"
  unfolding trim_def contains_any_def list_ex_iff
  by (cases "s = []") (auto simp: trim_right_id trim_left_id)

lemma valid_utf8_ascii: "ascii s \<Longrightarrow> valid_utf8 s"
  by (induction s) simp_all


subsection \<open>Fields, numbers and machine integers\<close>

text \<open>\<^verbatim>\<open>strings.Join\<close> with a one-byte separator.\<close>

fun join_byte :: "char \<Rightarrow> string list \<Rightarrow> string" where
  "join_byte sep [] = []"
| "join_byte sep [f] = f"
| "join_byte sep (f # g # fs) = f @ sep # join_byte sep (g # fs)"

text \<open>The value of a Go \<^verbatim>\<open>int64\<close> expression: arithmetic wraps around at 64 bits.\<close>

definition int64 :: "int \<Rightarrow> int" where
  "int64 x = signed_take_bit 63 x"

abbreviation in_int64 :: "int \<Rightarrow> bool" where
  "in_int64 x \<equiv> - (2 ^ 63) \<le> x \<and> x < 2 ^ 63"

text \<open>\<^verbatim>\<open>strconv.FormatInt(v, 10)\<close>; \<^verbatim>\<open>hex.EncodeToString\<close>.\<close>

definition format_int :: "int \<Rightarrow> string" where
  "format_int v = (if v < 0 then CHR ''-'' # itoa (nat (- v)) else itoa (nat v))"

definition hex_digit :: "nat \<Rightarrow> char" where
  "hex_digit n = (if n < 10 then char_of (0x30 + n) else char_of (0x57 + n))"

definition hex_encode :: "string \<Rightarrow> string" where
  "hex_encode bs = concat (map (\<lambda>b. [hex_digit (of_char b div 16), hex_digit (of_char b mod 16)]) bs)"

lemma int64_id [simp]: "in_int64 x \<Longrightarrow> int64 x = x"
  unfolding int64_def by (rule signed_take_bit_int_eq_self) auto

lemma int64_range: "in_int64 (int64 x)"
  unfolding int64_def
  using signed_take_bit_int_greater_eq_minus_exp [of 63 x] signed_take_bit_int_less_exp [of 63 x]
  by simp

lemma int64_cong: "int64 x = int64 y \<longleftrightarrow> (2 ^ 64) dvd (x - y)"
  unfolding int64_def signed_take_bit_eq_iff_take_bit_eq
  by (simp add: take_bit_eq_mod mod_eq_dvd_iff)

lemma split_byte_clean: "sep \<notin> set f \<Longrightarrow> split_byte sep f = [f]"
  by (induction f) auto

lemma split_byte_ne [simp]: "split_byte sep s \<noteq> []"
  by (induction s) (auto split: list.splits)

lemma split_byte_append:
  "sep \<notin> set f \<Longrightarrow> split_byte sep (f @ sep # s) = f # split_byte sep s"
  by (induction f) auto

lemma split_join:
  "fs \<noteq> [] \<Longrightarrow> list_all (\<lambda>f. sep \<notin> set f) fs \<Longrightarrow> split_byte sep (join_byte sep fs) = fs"
  by (induction sep fs rule: join_byte.induct) (auto simp: split_byte_clean split_byte_append)

lemma join_split: "join_byte sep (split_byte sep s) = s"
proof (induction s)
  case (Cons c s)
  obtain f fs where "split_byte sep s = f # fs" by (cases "split_byte sep s") auto
  with Cons show ?case by (cases fs) auto
qed simp

lemma split_byte_sep: "f \<in> set (split_byte sep s) \<Longrightarrow> sep \<notin> set f"
proof (induction s arbitrary: f)
  case (Cons c s)
  then show ?case by (cases "split_byte sep s") (auto split: if_splits)
qed simp

lemma split_byte_subset: "f \<in> set (split_byte sep s) \<Longrightarrow> set f \<subseteq> set s"
proof (induction s arbitrary: f)
  case (Cons c s)
  then show ?case by (cases "split_byte sep s") (fastforce split: if_splits)+
qed simp

lemma digit_of: "n < 10 \<Longrightarrow> is_digit (char_of (0x30 + n :: nat))"
  by (simp add: is_digit_def)

lemma itoa_digits: "list_all is_digit (itoa n)"
  by (induction n rule: itoa.induct) (subst itoa.simps, simp add: digit_of)

lemma itoa_ne [simp]: "itoa n \<noteq> []"
  by (subst itoa.simps) simp

lemma digits_val_itoa: "digits_val (itoa n) = n"
  by (induction n rule: itoa.induct) (subst itoa.simps, simp add: digits_val_def)

lemma itoa_set: "c \<in> set (itoa n) \<Longrightarrow> is_digit c"
  using itoa_digits by (auto simp: list_all_iff)

lemma itoa_no_sign: "\<not> has_prefix (itoa n) ''-''" "\<not> has_prefix (itoa n) ''+''"
  using itoa_digits [of n] by (cases "itoa n"; auto simp: has_prefix_def is_digit_def)+

lemma atoi_format_int: "in_int64 v \<Longrightarrow> atoi (format_int v) = Some v"
  using itoa_digits itoa_no_sign
  by (auto simp: atoi_def format_int_def digits_val_itoa Let_def has_prefix_def)

lemma atoi_range: "atoi s = Some v \<Longrightarrow> in_int64 v"
  by (auto simp: atoi_def Let_def split: if_splits)

lemma format_int_set: "c \<in> set (format_int v) \<Longrightarrow> is_digit c \<or> c = CHR ''-''"
  by (auto simp: format_int_def dest: itoa_set split: if_splits)

lemma hex_digit_range: "n < 16 \<Longrightarrow> of_char (hex_digit n) \<in> {0x30..0x39} \<union> {0x61..0x66 :: nat}"
  by (auto simp: hex_digit_def)

lemma hex_encode_set: "c \<in> set (hex_encode bs) \<Longrightarrow> of_char c \<in> {0x30..0x39} \<union> {0x61..0x66 :: nat}"
proof -
  assume "c \<in> set (hex_encode bs)"
  then obtain b :: char where "c = hex_digit (of_char b div 16) \<or> c = hex_digit (of_char b mod 16)"
    by (auto simp: hex_encode_def)
  moreover have "(of_char b :: nat) div 16 < 16"
    by (simp add: less_mult_imp_div_less)
  ultimately show ?thesis
    using hex_digit_range by (metis mod_less_divisor zero_less_numeral)
qed


subsection \<open>Case folding\<close>

text \<open>
  \<^verbatim>\<open>strings.ToLower\<close>: byte by byte on an ASCII string, otherwise code point by code point,
  an invalid byte becoming U+FFFD. The Unicode case table above ASCII is data of the
  standard library and an argument here.
\<close>

definition lower_rune :: "(rune \<Rightarrow> rune) \<Rightarrow> rune \<Rightarrow> rune" where
  "lower_rune tbl r = (if r < 128 then (if 0x41 \<le> r \<and> r \<le> 0x5A then r + 0x20 else r) else tbl r)"

definition to_lower :: "(rune \<Rightarrow> rune) \<Rightarrow> string \<Rightarrow> string" where
  "to_lower tbl s =
    (if ascii s then map ascii_lower s else write_runes (map (lower_rune tbl) (runes s)))"

lemma ascii_lower_lower: "ascii_lower (ascii_lower c) = ascii_lower c"
  by (auto simp: ascii_lower_def)

lemma ascii_lower_ascii: "(of_char (ascii_lower c) :: nat) < 128 \<longleftrightarrow> (of_char c :: nat) < 128"
  by (auto simp: ascii_lower_def)

lemma to_lower_idem_ascii: "ascii s \<Longrightarrow> to_lower tbl (to_lower tbl s) = to_lower tbl s"
  by (simp add: to_lower_def list_all_iff ascii_lower_ascii ascii_lower_lower)

subsection \<open>Correctness of binary search\<close>

definition up_closed :: "(nat \<Rightarrow> bool) \<Rightarrow> nat \<Rightarrow> bool" where
  "up_closed f n \<longleftrightarrow> (\<forall>k l. f k \<longrightarrow> k \<le> l \<longrightarrow> l < n \<longrightarrow> f l)"

definition splits_at :: "(nat \<Rightarrow> bool) \<Rightarrow> nat \<Rightarrow> nat \<Rightarrow> bool" where
  "splits_at f n r \<longleftrightarrow> r \<le> n \<and> (\<forall>k < r. \<not> f k) \<and> (\<forall>k. r \<le> k \<and> k < n \<longrightarrow> f k)"

lemma search_loop_spec:
  assumes "up_closed f n" and "i \<le> j" and "j \<le> n" and "\<forall>k < i. \<not> f k" and "\<forall>k. j \<le> k \<and> k < n \<longrightarrow> f k"
  shows "splits_at f n (search_loop f i j)"
  using assms
proof (induction f i j rule: search_loop.induct)
  case (1 f i j)
  let ?h = "(i + j) div 2"
  show ?case
  proof (cases "i < j")
    case False
    with "1.prems" show ?thesis by (subst search_loop.simps) (simp add: splits_at_def)
  next
    case lt: True
    then have h: "i \<le> ?h" "?h < j" by auto
    show ?thesis
    proof (cases "f ?h")
      case True
      then have "\<forall>k. ?h \<le> k \<and> k < n \<longrightarrow> f k" using "1.prems"(1) by (auto simp: up_closed_def)
      then have "splits_at f n (search_loop f i ?h)"
        using "1.IH"(2) [OF lt refl] "1.prems" True h by simp
      then show ?thesis using lt True by (subst search_loop.simps) (simp add: Let_def)
    next
      case False
      then have "\<forall>k < ?h + 1. \<not> f k"
        using "1.prems"(1,3) h by (auto simp: up_closed_def less_Suc_eq_le)
      then have "splits_at f n (search_loop f (?h + 1) j)"
        using "1.IH"(1) [OF lt refl] "1.prems" False h by simp
      then show ?thesis using lt False by (subst search_loop.simps) (simp add: Let_def)
    qed
  qed
qed

lemma sort_search_spec: "up_closed f n \<Longrightarrow> splits_at f n (sort_search n f)"
  unfolding sort_search_def by (rule search_loop_spec) auto

end
