(* ===== verification/Mailbox_ACL.thy ===== *)
theory Mailbox_ACL
  imports Go_Runtime
begin

text \<open>
  Access control lists: \<^verbatim>\<open>pkg/mailbox/acl.go\<close> and \<^verbatim>\<open>pkg/mailbox/aclmodify.go\<close>. The theory
  follows the file: the right letters and the normalised set of rights, identifiers, one
  entry of a \<^verbatim>\<open>yarilo-acl\<close> file, the file itself, the collapse of duplicate entries, the
  evaluation of a user's effective rights, and the change of one entry (SETACL).
\<close>

subsection \<open>Rights\<close>

definition RightLookup :: rune where "RightLookup = of_char CHR ''l''"
definition RightRead :: rune where "RightRead = of_char CHR ''r''"
definition RightWriteSeen :: rune where "RightWriteSeen = of_char CHR ''s''"
definition RightWrite :: rune where "RightWrite = of_char CHR ''w''"
definition RightInsert :: rune where "RightInsert = of_char CHR ''i''"
definition RightPost :: rune where "RightPost = of_char CHR ''p''"
definition RightCreate :: rune where "RightCreate = of_char CHR ''k''"
definition RightDeleteMailbox :: rune where "RightDeleteMailbox = of_char CHR ''x''"
definition RightDeleteMessage :: rune where "RightDeleteMessage = of_char CHR ''t''"
definition RightExpunge :: rune where "RightExpunge = of_char CHR ''e''"
definition RightAdminister :: rune where "RightAdminister = of_char CHR ''a''"

lemmas right_letters [letter_simps] =
  RightLookup_def RightRead_def RightWriteSeen_def RightWrite_def RightInsert_def RightPost_def
  RightCreate_def RightDeleteMailbox_def RightDeleteMessage_def RightExpunge_def RightAdminister_def

definition allRights :: "rune list" where
  "allRights = [RightLookup, RightRead, RightWriteSeen, RightWrite, RightInsert, RightPost,
     RightCreate, RightDeleteMailbox, RightDeleteMessage, RightExpunge, RightAdminister]"

definition IsValidRight :: "rune \<Rightarrow> bool" where
  "IsValidRight r \<longleftrightarrow> r \<in> set allRights"

type_synonym Rights = string

definition FullRights :: Rights where
  "FullRights = ''lrswipkxtea''"

datatype acl_error =
    InvalidRight
  | IdentifierTooLong
  | IdentifierNotUTF8
  | IdentifierControlChar
  | EmptyIdentifier string
  | UnknownIdentifier string
  | UnterminatedEscape
  | GarbageAfterQuoted
  | UnterminatedQuoted
  | EmptyEntry
  | TooManyFields string
  | AtLine nat acl_error
  | ReadError

text \<open>The array \<^verbatim>\<open>have\<close> is a predicate on runes, set to true at the letters seen.\<close>

fun parse_rights_loop :: "rune list \<Rightarrow> (rune \<Rightarrow> bool) \<Rightarrow> acl_error + (rune \<Rightarrow> bool)" where
  "parse_rights_loop [] have = Inr have"
| "parse_rights_loop (r # rs) have =
    (if r = of_char CHR ''c'' then parse_rights_loop rs (have(RightCreate := True))
     else if r = of_char CHR ''d'' then
       parse_rights_loop rs (have(RightDeleteMessage := True, RightExpunge := True))
     else if IsValidRight r then parse_rights_loop rs (have(r := True))
     else Inl InvalidRight)"

definition ParseRights :: "string \<Rightarrow> acl_error + Rights" where
  "ParseRights s =
    (case parse_rights_loop (runes s) (\<lambda>_. False) of
       Inl e \<Rightarrow> Inl e
     | Inr have \<Rightarrow> Inr (write_runes (filter have allRights)))"

definition rights_Has :: "Rights \<Rightarrow> rune \<Rightarrow> bool" where
  "rights_Has rs r \<longleftrightarrow> r \<in> set (runes rs)"

definition rights_HasAll :: "Rights \<Rightarrow> Rights \<Rightarrow> bool" where
  "rights_HasAll rs other \<longleftrightarrow> list_all (rights_Has rs) (runes other)"

text \<open>The error of \<^verbatim>\<open>ParseRights\<close> is discarded by \<^verbatim>\<open>Add\<close>, whose result is then empty.\<close>

definition rights_Add :: "Rights \<Rightarrow> Rights \<Rightarrow> Rights" where
  "rights_Add rs other = (case ParseRights (rs @ other) of Inl _ \<Rightarrow> '''' | Inr out \<Rightarrow> out)"

definition rights_Remove :: "Rights \<Rightarrow> Rights \<Rightarrow> Rights" where
  "rights_Remove rs other = write_runes (filter (\<lambda>r. \<not> rights_Has other r) (runes rs))"

definition rights_String :: "Rights \<Rightarrow> string" where
  "rights_String rs = rs"

subsection \<open>Identifiers\<close>

datatype IdentifierType =
  IDInvalid | IDAnyone | IDAuthenticated | IDOwner | IDUser | IDGroup | IDGroupOverride

record Identifier =
  id_Type :: IdentifierType
  id_Name :: string

definition maxIdentifierLen :: nat where
  "maxIdentifierLen = 1024"

definition ValidIdentifier :: "string \<Rightarrow> acl_error + unit" where
  "ValidIdentifier s =
    (if maxIdentifierLen < length s then Inl IdentifierTooLong
     else if \<not> valid_utf8 s then Inl IdentifierNotUTF8
     else if list_ex (\<lambda>r. r < 0x20 \<or> r = 0x7F) (runes s) then Inl IdentifierControlChar
     else Inr ())"

fun parse_prefixes :: "(string \<times> IdentifierType) list \<Rightarrow> string \<Rightarrow> acl_error + Identifier" where
  "parse_prefixes [] s = Inl (UnknownIdentifier s)"
| "parse_prefixes ((p, t) # ps) s =
    (if has_prefix s p then
       (let name = drop (length p) s
        in if name = [] then Inl (EmptyIdentifier (butlast p))
           else Inr \<lparr>id_Type = t, id_Name = name\<rparr>)
     else parse_prefixes ps s)"

definition ParseIdentifier :: "string \<Rightarrow> acl_error + Identifier" where
  "ParseIdentifier s =
    (case ValidIdentifier s of
       Inl e \<Rightarrow> Inl e
     | Inr _ \<Rightarrow>
        (if s = ''anyone'' \<or> s = ''anonymous'' then Inr \<lparr>id_Type = IDAnyone, id_Name = []\<rparr>
         else if s = ''authenticated'' then Inr \<lparr>id_Type = IDAuthenticated, id_Name = []\<rparr>
         else if s = ''owner'' then Inr \<lparr>id_Type = IDOwner, id_Name = []\<rparr>
         else parse_prefixes
           [(''user='', IDUser), (''group-override='', IDGroupOverride), (''group='', IDGroup)] s))"

definition identifier_String :: "Identifier \<Rightarrow> string" where
  "identifier_String i =
    (case id_Type i of
       IDAnyone \<Rightarrow> ''anyone''
     | IDAuthenticated \<Rightarrow> ''authenticated''
     | IDOwner \<Rightarrow> ''owner''
     | IDUser \<Rightarrow> ''user='' @ id_Name i
     | IDGroup \<Rightarrow> ''group='' @ id_Name i
     | IDGroupOverride \<Rightarrow> ''group-override='' @ id_Name i
     | IDInvalid \<Rightarrow> '''')"

subsection \<open>Entries\<close>

record Entry =
  en_Identifier :: Identifier
  en_Rights :: Rights
  en_Negative :: bool

text \<open>
  \<^verbatim>\<open>unquoteACL\<close> from the byte after the opening quote, with the content read so far.
\<close>

fun unquote_loop :: "string \<Rightarrow> string \<Rightarrow> acl_error + string \<times> string" where
  "unquote_loop [] b = Inl UnterminatedQuoted"
| "unquote_loop (c # cs) b =
    (if c = CHR 0x5C then
       (case cs of [] \<Rightarrow> Inl UnterminatedEscape | d # ds \<Rightarrow> unquote_loop ds (b @ [d]))
     else if c = CHR 0x22 then
       (case cs of
          [] \<Rightarrow> Inr (b, [])
        | d # ds \<Rightarrow> if d \<noteq> CHR '' '' \<and> d \<noteq> CHR 0x09 then Inl GarbageAfterQuoted else Inr (b, ds))
     else unquote_loop cs (b @ [c]))"

definition unquoteACL :: "string \<Rightarrow> acl_error + string \<times> string" where
  "unquoteACL s = unquote_loop (drop 1 s) []"

definition blanks :: string where
  "blanks = [CHR '' '', CHR 0x09]"

text \<open>
  The line without leading blanks, split into the identifier with its sign and the rest: a
  quoted identifier, or the bytes up to the first blank.
\<close>

definition split_fields :: "string \<Rightarrow> acl_error + string \<times> string" where
  "split_fields s =
    (if has_prefix s [CHR 0x22] then unquoteACL s
     else Inr (takeWhile (\<lambda>c. c \<notin> set blanks) s, drop 1 (dropWhile (\<lambda>c. c \<notin> set blanks) s)))"

definition build_entry :: "string \<Rightarrow> string \<Rightarrow> string \<Rightarrow> acl_error + Entry option" where
  "build_entry line idStr0 rest =
    (let negative = has_prefix idStr0 ''-'';
         idStr = (if negative then drop 1 idStr0 else idStr0);
         rightsStr = trim rest blanks
     in if idStr = [] then Inl EmptyEntry
        else if contains_any rightsStr blanks then Inl (TooManyFields line)
        else case ParseIdentifier idStr of
               Inl e \<Rightarrow> Inl e
             | Inr i \<Rightarrow>
                (case ParseRights rightsStr of
                   Inl e \<Rightarrow> Inl e
                 | Inr rights \<Rightarrow>
                     Inr (Some \<lparr>en_Identifier = i, en_Rights = rights, en_Negative = negative\<rparr>)))"

text \<open>\<open>Inr None\<close> is a line to skip.\<close>

definition ParseEntry :: "string \<Rightarrow> acl_error + Entry option" where
  "ParseEntry line =
    (let t = trim_space line in
     if t = [] \<or> has_prefix t ''#'' then Inr None
     else case split_fields (trim_right (trim_left line blanks) [CHR 0x0D]) of
            Inl e \<Rightarrow> Inl e
          | Inr (idStr0, rest) \<Rightarrow> build_entry line idStr0 rest)"

text \<open>The replacer of \<^verbatim>\<open>Entry.String\<close> puts a backslash before a backslash and a quote.\<close>

definition escape_byte :: "char \<Rightarrow> string" where
  "escape_byte c = (if c = CHR 0x5C \<or> c = CHR 0x22 then [CHR 0x5C, c] else [c])"

definition entry_String :: "Entry \<Rightarrow> string" where
  "entry_String e =
    (let i = (if en_Negative e then ''-'' else '''') @ identifier_String (en_Identifier e);
         q = (if contains_any i (blanks @ [CHR 0x22, CHR 0x5C])
              then [CHR 0x22] @ concat (map escape_byte i) @ [CHR 0x22] else i)
     in q @ '' '' @ rights_String (en_Rights e))"

subsection \<open>Files\<close>

type_synonym ACL = "Entry list"

text \<open>
  \<^verbatim>\<open>bufio.Scanner\<close> with the line split function and a buffer of at most 1 MiB: the lines
  without their terminator and without one trailing carriage return; the flag is set where
  a line does not fit in the buffer, which ends the scan with an error.
\<close>

definition maxScanToken :: nat where
  "maxScanToken = 1024 * 1024"

definition drop_cr :: "string \<Rightarrow> string" where
  "drop_cr l = (if l \<noteq> [] \<and> last l = CHR 0x0D then butlast l else l)"

function scan_lines :: "string \<Rightarrow> string list \<times> bool" where
  "scan_lines [] = ([], False)"
| "scan_lines (c # cs) =
    (let l = takeWhile (\<lambda>c. c \<noteq> CHR 0x0A) (c # cs);
         r = drop 1 (dropWhile (\<lambda>c. c \<noteq> CHR 0x0A) (c # cs))
     in if maxScanToken \<le> length l then ([], True)
        else (drop_cr l # fst (scan_lines r), snd (scan_lines r)))"
  by pat_completeness auto
termination
  by (relation "measure length")
     (auto simp: le_imp_less_Suc length_dropWhile_le diff_le_self le_trans[OF diff_le_self])

text \<open>The map \<^verbatim>\<open>at\<close> sends an identifier with its sign to its index in \<^verbatim>\<open>out\<close>.\<close>

type_synonym entry_key = "Identifier \<times> bool"

definition entry_key :: "Entry \<Rightarrow> entry_key" where
  "entry_key e = (en_Identifier e, en_Negative e)"

fun collapse_loop :: "(entry_key \<Rightarrow> nat option) \<Rightarrow> ACL \<Rightarrow> ACL \<Rightarrow> ACL" where
  "collapse_loop at out [] = out"
| "collapse_loop at out (e # es) =
    (case at (entry_key e) of
       Some i \<Rightarrow> collapse_loop at (out[i := (out ! i)\<lparr>en_Rights := en_Rights e\<rparr>]) es
     | None \<Rightarrow> collapse_loop (at(entry_key e \<mapsto> length out)) (out @ [e]) es)"

definition Collapse :: "ACL \<Rightarrow> ACL" where
  "Collapse acl = (if length acl < 2 then acl else collapse_loop (\<lambda>_. None) [] acl)"

fun parse_lines :: "nat \<Rightarrow> string list \<Rightarrow> acl_error + ACL" where
  "parse_lines n [] = Inr []"
| "parse_lines n (l # ls) =
    (case ParseEntry l of
       Inl e \<Rightarrow> Inl (AtLine n e)
     | Inr None \<Rightarrow> parse_lines (n + 1) ls
     | Inr (Some e) \<Rightarrow>
        (case parse_lines (n + 1) ls of Inl err \<Rightarrow> Inl err | Inr es \<Rightarrow> Inr (e # es)))"

text \<open>
  \<^verbatim>\<open>ParseACL\<close> on what its reader delivers: the bytes, and whether the reader then failed.
\<close>

definition ParseACL :: "string \<Rightarrow> bool \<Rightarrow> acl_error + ACL" where
  "ParseACL body read_failed =
    (case parse_lines 1 (fst (scan_lines body)) of
       Inl e \<Rightarrow> Inl e
     | Inr out \<Rightarrow>
        if snd (scan_lines body) \<or> read_failed then Inl ReadError else Inr (Collapse out))"

definition ParseACLString :: "string \<Rightarrow> acl_error + ACL" where
  "ParseACLString s = ParseACL s False"

definition acl_String :: "ACL \<Rightarrow> string" where
  "acl_String acl = concat (map (\<lambda>e. entry_String e @ [CHR 0x0A]) acl)"

subsection \<open>Evaluation\<close>

definition IdentifierNamesOwner :: "Identifier \<Rightarrow> string \<Rightarrow> bool" where
  "IdentifierNamesOwner i owner \<longleftrightarrow>
     (if id_Type i = IDOwner then True
      else owner \<noteq> [] \<and> id_Type i = IDUser \<and> id_Name i = owner)"

definition OwnerImmutableReason :: "Identifier \<Rightarrow> string" where
  "OwnerImmutableReason i =
    (if id_Type i = IDOwner then
       ''the owner keyword cannot be set: it matches no identity (the mailbox owner always holds full rights)''
     else ''the owner'' @ [CHR 0x27] @
       ''s rights cannot be changed through ACL; freeze a mailbox by another mechanism'')"

text \<open>\<^verbatim>\<open>makeGroupSet\<close> is the set of the listed groups.\<close>

definition makeGroupSet :: "string list \<Rightarrow> string \<Rightarrow> bool" where
  "makeGroupSet groups g \<longleftrightarrow> g \<in> set groups"

fun aclTier :: "IdentifierType \<Rightarrow> nat" where
  "aclTier IDAuthenticated = 1"
| "aclTier IDGroup = 2"
| "aclTier IDOwner = 3"
| "aclTier IDUser = 4"
| "aclTier IDGroupOverride = 5"
| "aclTier _ = 0"

definition entry_matches :: "string \<Rightarrow> string list \<Rightarrow> Entry \<Rightarrow> bool" where
  "entry_matches user groups e =
    (case id_Type (en_Identifier e) of
       IDAnyone \<Rightarrow> True
     | IDAuthenticated \<Rightarrow> True
     | IDOwner \<Rightarrow> False
     | IDUser \<Rightarrow> id_Name (en_Identifier e) = user
     | IDGroup \<Rightarrow> makeGroupSet groups (id_Name (en_Identifier e))
     | IDGroupOverride \<Rightarrow> makeGroupSet groups (id_Name (en_Identifier e))
     | IDInvalid \<Rightarrow> False)"

record acl_match =
  m_tier :: nat
  m_rights :: Rights
  m_negative :: bool

definition to_match :: "Entry \<Rightarrow> acl_match" where
  "to_match e = \<lparr>m_tier = aclTier (id_Type (en_Identifier e)), m_rights = en_Rights e,
                 m_negative = en_Negative e\<rparr>"

text \<open>The previous tier of each sign is \<open>None\<close> where the code has \<^verbatim>\<open>-1\<close>.\<close>

record masks =
  myPos :: Rights
  myNeg :: Rights
  prevPosTier :: "nat option"
  prevNegTier :: "nat option"

definition masks_step :: "masks \<Rightarrow> acl_match \<Rightarrow> masks" where
  "masks_step s m =
    (if m_negative m then
       s\<lparr>myNeg := rights_Add (if prevNegTier s \<noteq> Some (m_tier m) then '''' else myNeg s) (m_rights m),
         prevNegTier := Some (m_tier m)\<rparr>
     else
       s\<lparr>myPos := rights_Add (if prevPosTier s \<noteq> Some (m_tier m) then '''' else myPos s) (m_rights m),
         prevPosTier := Some (m_tier m)\<rparr>)"

definition masks_init :: masks where
  "masks_init = \<lparr>myPos = '''', myNeg = '''', prevPosTier = None, prevNegTier = None\<rparr>"

definition effectiveMasksSigned :: "ACL \<Rightarrow> string \<Rightarrow> string list \<Rightarrow> Rights \<times> Rights \<times> bool \<times> bool" where
  "effectiveMasksSigned acl user groups =
    (let matches = map to_match (filter (entry_matches user groups) acl) in
     if matches = [] then ('''', '''', False, False)
     else let s = foldl masks_step masks_init (sort_key m_tier matches)
          in (myPos s, myNeg s, True, prevPosTier s \<noteq> None))"

definition effectiveMasks :: "ACL \<Rightarrow> string \<Rightarrow> string list \<Rightarrow> Rights \<times> Rights \<times> bool" where
  "effectiveMasks acl user groups =
    (case effectiveMasksSigned acl user groups of (pos, neg, matched, _) \<Rightarrow> (pos, neg, matched))"

definition Effective :: "ACL \<Rightarrow> string \<Rightarrow> string list \<Rightarrow> bool \<Rightarrow> Rights" where
  "Effective acl user groups isOwner =
    (if isOwner then FullRights
     else case effectiveMasks acl user groups of (pos, neg, _) \<Rightarrow> rights_Remove pos neg)"

definition EffectiveWithGlobal :: "ACL \<Rightarrow> ACL \<Rightarrow> string \<Rightarrow> string list \<Rightarrow> bool \<Rightarrow> Rights" where
  "EffectiveWithGlobal local global user groups isOwner =
    (if isOwner then FullRights
     else case effectiveMasks local user groups of (lpos, lneg, _) \<Rightarrow>
       (case effectiveMasksSigned global user groups of (gpos, gneg, gmatched, gposMatched) \<Rightarrow>
          if \<not> gmatched then rights_Remove lpos lneg
          else rights_Remove (if gposMatched then gpos else lpos) gneg))"

fun type_num :: "IdentifierType \<Rightarrow> nat" where
  "type_num IDInvalid = 0"
| "type_num IDAnyone = 1"
| "type_num IDAuthenticated = 2"
| "type_num IDOwner = 3"
| "type_num IDUser = 4"
| "type_num IDGroup = 5"
| "type_num IDGroupOverride = 6"

definition sort_rank :: "Entry \<Rightarrow> nat \<times> string \<times> bool" where
  "sort_rank e = (type_num (id_Type (en_Identifier e)), id_Name (en_Identifier e), en_Negative e)"

definition acl_Sorted :: "ACL \<Rightarrow> ACL" where
  "acl_Sorted acl = sort_key sort_rank acl"

subsection \<open>Changing one entry\<close>

datatype ACLModify = ACLReplace | ACLAdd | ACLRemove

text \<open>The loop over the entries that finds the first one with the identifier and the sign.\<close>

fun find_entry :: "Identifier \<Rightarrow> bool \<Rightarrow> ACL \<Rightarrow> nat option" where
  "find_entry i neg [] = None"
| "find_entry i neg (e # es) =
    (if en_Negative e = neg \<and> en_Identifier e = i then Some 0
     else map_option Suc (find_entry i neg es))"

definition set_rights :: "ACL \<Rightarrow> nat \<Rightarrow> Rights \<Rightarrow> ACL" where
  "set_rights acl idx r = acl[idx := (acl ! idx)\<lparr>en_Rights := r\<rparr>]"

definition ApplyEntry :: "ACL \<Rightarrow> Identifier \<Rightarrow> bool \<Rightarrow> ACLModify \<Rightarrow> Rights \<Rightarrow> ACL" where
  "ApplyEntry acl i negative mode rights =
    (let new = \<lparr>en_Identifier = i, en_Rights = rights, en_Negative = negative\<rparr>;
         idx = find_entry i negative acl in
     case mode of
       ACLReplace \<Rightarrow>
        (if rights = '''' then
           (case idx of
              Some k \<Rightarrow> Collapse (take k acl @ drop (k + 1) acl)
            | None \<Rightarrow> Collapse acl)
         else
           (case idx of
              Some k \<Rightarrow> Collapse (set_rights acl k rights)
            | None \<Rightarrow> Collapse (acl @ [new])))
     | ACLAdd \<Rightarrow>
        (case idx of
           Some k \<Rightarrow> Collapse (set_rights acl k (rights_Add (en_Rights (acl ! k)) rights))
         | None \<Rightarrow> Collapse (acl @ [new]))
     | ACLRemove \<Rightarrow>
        (case idx of
           Some k \<Rightarrow>
            (let acl' = set_rights acl k (rights_Remove (en_Rights (acl ! k)) rights)
             in if en_Rights (acl' ! k) = '''' then Collapse (take k acl' @ drop (k + 1) acl')
                else Collapse acl')
         | None \<Rightarrow> Collapse acl))"

subsection \<open>The algebra of rights\<close>

text \<open>
  A right string denotes a set of letters; the canonical string of a set lists its letters
  in the order of \<^const>\<open>allRights\<close>.
\<close>

definition rset :: "Rights \<Rightarrow> rune set" where
  "rset rs = set (runes rs)"

definition canon :: "rune set \<Rightarrow> Rights" where
  "canon S = map char_of (filter (\<lambda>r. r \<in> S) allRights)"

definition wf_rights :: "Rights \<Rightarrow> bool" where
  "wf_rights rs \<longleftrightarrow> rs = canon (rset rs)"

text \<open>What a letter of the input stands for, the obsolete codes included.\<close>

definition expand :: "rune \<Rightarrow> rune set" where
  "expand r =
    (if r = of_char CHR ''c'' then {RightCreate}
     else if r = of_char CHR ''d'' then {RightDeleteMessage, RightExpunge}
     else {r})"

definition legal :: "rune \<Rightarrow> bool" where
  "legal r \<longleftrightarrow> r = of_char CHR ''c'' \<or> r = of_char CHR ''d'' \<or> IsValidRight r"

lemma allRights_small: "r \<in> set allRights \<Longrightarrow> r < 128"
  by (auto simp: allRights_def letter_simps)

lemma distinct_allRights: "distinct allRights"
  by (simp add: allRights_def letter_simps)

lemma expand_valid: "legal r \<Longrightarrow> expand r \<subseteq> set allRights"
  by (auto simp: legal_def expand_def IsValidRight_def) (auto simp: allRights_def)

lemma IsValidRight_expand: "IsValidRight r \<Longrightarrow> expand r = {r} \<and> legal r"
  by (auto simp: legal_def expand_def IsValidRight_def allRights_def letter_simps)

lemma runes_map_char_of:
  assumes "list_all (\<lambda>r. r < 128) rs"
  shows "runes (map char_of rs) = rs"
proof -
  have "ascii (map char_of rs)"
    using assms by (auto simp: list_all_iff)
  then have "runes (map char_of rs) = map of_char (map char_of rs :: string)"
    by (rule runes_ascii_string)
  also have "\<dots> = rs"
    using assms by (auto simp: list_all_iff intro!: map_idI)
  finally show ?thesis .
qed

lemma runes_canon: "runes (canon S) = filter (\<lambda>r. r \<in> S) allRights"
  unfolding canon_def
  by (rule runes_map_char_of) (auto simp: list_all_iff dest: allRights_small)

lemma rset_canon [simp]: "rset (canon S) = S \<inter> set allRights"
  by (auto simp: rset_def runes_canon)

lemma canon_cong: "S \<inter> set allRights = T \<inter> set allRights \<Longrightarrow> canon S = canon T"
  unfolding canon_def by (rule arg_cong [where f = "map char_of"], rule filter_cong) auto

lemma wf_canon [simp, intro]: "wf_rights (canon S)"
  unfolding wf_rights_def by (rule canon_cong) auto

lemma wf_rights_subset: "wf_rights rs \<Longrightarrow> rset rs \<subseteq> set allRights"
  by (metis Int_lower2 rset_canon wf_rights_def)

lemma wf_rights_inject: "wf_rights a \<Longrightarrow> wf_rights b \<Longrightarrow> rset a = rset b \<longleftrightarrow> a = b"
  by (metis wf_rights_def)

lemma ascii_canon: "ascii (canon S)"
  by (auto simp: canon_def list_all_iff dest!: allRights_small)

lemma wf_rights_Nil [simp]: "wf_rights []"
  by (simp add: wf_rights_def canon_def rset_def)

lemma rset_Nil [simp]: "rset [] = {}"
  by (simp add: rset_def)

lemma rset_append_wf: "wf_rights a \<Longrightarrow> rset (a @ b) = rset a \<union> rset b"
  by (metis (no_types, lifting) ascii_canon list.set_map rset_def runes_ascii_append
      runes_ascii_string set_append wf_rights_def)

lemma FullRights_canon: "FullRights = canon UNIV"
  by (simp only: FullRights_def canon_def allRights_def letter_simps char_of_char
      list.map filter.simps UNIV_I if_True)

lemma parse_rights_loop_spec:
  "parse_rights_loop rs have =
    (if list_all legal rs then Inr (\<lambda>r. have r \<or> (\<exists>x\<in>set rs. r \<in> expand x)) else Inl InvalidRight)"
proof (induction rs arbitrary: "have")
  case Nil
  then show ?case by simp
next
  case (Cons x xs)
  show ?case
  proof (cases "legal x")
    case True
    then have step: "parse_rights_loop (x # xs) have =
        parse_rights_loop xs (\<lambda>r. have r \<or> r \<in> expand x)"
      by (auto simp: legal_def expand_def fun_eq_iff
          intro!: arg_cong [where f = "parse_rights_loop xs"])
    show ?thesis
      unfolding step Cons.IH using True by (auto simp: fun_eq_iff)
  next
    case False
    then show ?thesis by (simp add: legal_def)
  qed
qed

lemma ParseRights_spec:
  "ParseRights s =
    (if list_all legal (runes s) then Inr (canon (\<Union> (expand ` rset s))) else Inl InvalidRight)"
proof -
  have "write_runes (filter P allRights) = map char_of (filter P allRights)" for P
    by (rule write_runes_ascii) (auto simp: list_all_iff dest: allRights_small)
  then show ?thesis
    by (simp add: ParseRights_def parse_rights_loop_spec canon_def rset_def)
qed

lemma wf_rights_legal: "wf_rights rs \<Longrightarrow> list_all legal (runes rs)"
  using wf_rights_subset [of rs] IsValidRight_expand
  by (auto simp: list_all_iff rset_def IsValidRight_def)

lemma wf_rights_expand: "wf_rights rs \<Longrightarrow> \<Union> (expand ` rset rs) = rset rs"
  using wf_rights_subset [of rs] IsValidRight_expand by (force simp: IsValidRight_def)

lemma ParseRights_wf: "wf_rights rs \<Longrightarrow> ParseRights rs = Inr rs"
  by (metis ParseRights_spec wf_rights_def wf_rights_expand wf_rights_legal)

lemma wf_ParseRights: "ParseRights s = Inr rs \<Longrightarrow> wf_rights rs"
  by (auto simp: ParseRights_spec split: if_splits)

lemma wf_rights_append:
  assumes "wf_rights a" and "wf_rights b"
  shows "ParseRights (a @ b) = Inr (canon (rset a \<union> rset b))"
proof -
  have "list_all legal (runes (a @ b))"
    using assms wf_rights_legal [of a] wf_rights_legal [of b] rset_append_wf [of a b]
    by (auto simp: list_all_iff rset_def)
  then show ?thesis
    using assms by (simp add: ParseRights_spec rset_append_wf wf_rights_expand)
qed

lemma wf_rights_Add [simp, intro]: "wf_rights (rights_Add a b)"
  by (auto simp: rights_Add_def dest: wf_ParseRights split: sum.splits)

lemma rset_Add [simp]:
  "wf_rights a \<Longrightarrow> wf_rights b \<Longrightarrow> rset (rights_Add a b) = rset a \<union> rset b"
  using wf_rights_subset [of a] wf_rights_subset [of b]
  by (auto simp: rights_Add_def wf_rights_append)

lemma rights_Remove_canon:
  assumes "wf_rights a"
  shows "rights_Remove a b = canon (rset a - rset b)"
proof -
  have "runes a = filter (\<lambda>r. r \<in> rset a) allRights"
    using assms runes_canon by (metis wf_rights_def)
  then have "filter (\<lambda>r. \<not> rights_Has b r) (runes a) =
      filter (\<lambda>r. \<not> rights_Has b r) (filter (\<lambda>r. r \<in> rset a) allRights)"
    by simp
  also have "\<dots> = filter (\<lambda>r. r \<in> rset a - rset b) allRights"
    by (auto simp: rights_Has_def rset_def intro: filter_cong)
  finally have "filter (\<lambda>r. \<not> rights_Has b r) (runes a) = filter (\<lambda>r. r \<in> rset a - rset b) allRights" .
  moreover have "write_runes (filter P allRights) = map char_of (filter P allRights)" for P
    by (rule write_runes_ascii) (auto simp: list_all_iff dest: allRights_small)
  ultimately show ?thesis
    by (simp add: rights_Remove_def canon_def)
qed

lemma wf_rights_Remove [simp, intro]: "wf_rights a \<Longrightarrow> wf_rights (rights_Remove a b)"
  by (simp add: rights_Remove_canon)

lemma rset_Remove [simp]: "wf_rights a \<Longrightarrow> rset (rights_Remove a b) = rset a - rset b"
  using wf_rights_subset [of a] by (auto simp: rights_Remove_canon)

subsection \<open>Masks by tier\<close>

text \<open>
  What the evaluator needs of the set operations is the interface \<open>rights_algebra\<close>: a
  well-formed string denotes a set, \<open>add\<close> is union, \<open>remove\<close> is difference, and a set has
  one well-formed string. The loop over one sign is \<open>tier_fold\<close>: the mask starts again at
  a new tier and grows within a tier.
\<close>

definition tier_step :: "('r \<Rightarrow> 'r \<Rightarrow> 'r) \<Rightarrow> 'r \<Rightarrow> 'r \<times> nat option \<Rightarrow> nat \<times> 'r \<Rightarrow> 'r \<times> nat option" where
  "tier_step add nil s m =
    (add (if snd s \<noteq> Some (fst m) then nil else fst s) (snd m), Some (fst m))"

definition tier_fold :: "('r \<Rightarrow> 'r \<Rightarrow> 'r) \<Rightarrow> 'r \<Rightarrow> (nat \<times> 'r) list \<Rightarrow> 'r \<times> nat option" where
  "tier_fold add nil ms = foldl (tier_step add nil) (nil, None) ms"

locale rights_algebra =
  fixes wf :: "'r \<Rightarrow> bool" and den :: "'r \<Rightarrow> 'a set"
    and nil :: 'r and add :: "'r \<Rightarrow> 'r \<Rightarrow> 'r" and remove :: "'r \<Rightarrow> 'r \<Rightarrow> 'r"
  assumes wf_empty: "wf nil"
    and den_empty: "den nil = {}"
    and wf_add: "wf (add a b)"
    and den_add: "wf a \<Longrightarrow> wf b \<Longrightarrow> den (add a b) = den a \<union> den b"
    and wf_remove: "wf a \<Longrightarrow> wf (remove a b)"
    and den_remove: "wf a \<Longrightarrow> den (remove a b) = den a - den b"
    and den_inject: "wf a \<Longrightarrow> wf b \<Longrightarrow> den a = den b \<Longrightarrow> a = b"
begin

lemma tier_fold_props:
  assumes "sorted (map fst ms)" and "\<forall>m\<in>set ms. wf (snd m)"
  shows "wf (fst (tier_fold add nil ms)) \<and>
    den (fst (tier_fold add nil ms)) = {r. \<exists>m\<in>set ms. r \<in> den (snd m) \<and> fst m = fst (last ms)} \<and>
    snd (tier_fold add nil ms) = (if ms = [] then None else Some (fst (last ms)))"
  using assms
proof (induction ms rule: rev_induct)
  case Nil
  then show ?case by (simp add: tier_fold_def wf_empty den_empty)
next
  case (snoc m ms)
  let ?s = "tier_fold add nil ms"
  from snoc.prems have srt: "sorted (map fst ms)" and le: "\<forall>x\<in>set ms. fst x \<le> fst m"
    and w: "\<forall>m\<in>set ms. wf (snd m)" and wm: "wf (snd m)"
    by (auto simp: sorted_append)
  note IH = snoc.IH [OF srt w]
  have step: "tier_fold add nil (ms @ [m]) = tier_step add nil ?s m"
    by (simp add: tier_fold_def)
  show ?case
  proof (cases "snd ?s = Some (fst m)")
    case True
    with IH have "fst (last ms) = fst m" by (simp split: if_splits)
    with True step IH wm show ?thesis
      by (auto simp: tier_step_def den_add wf_add)
  next
    case False
    have "fst x \<noteq> fst m" if "x \<in> set ms" for x
    proof -
      from that False IH have "fst (last ms) \<noteq> fst m" by (auto split: if_splits)
      moreover from that have "last ms \<in> set ms" by (cases ms) auto
      ultimately show ?thesis
        using sorted_key_le_last [OF srt that] le by force
    qed
    with False step wm wf_empty show ?thesis
      by (auto simp: tier_step_def den_add den_empty wf_add)
  qed
qed

lemma tier_fold_spec:
  assumes "sorted (map fst ms)" and "\<forall>m\<in>set ms. wf (snd m)"
  shows "wf (fst (tier_fold add nil ms))"
    and "den (fst (tier_fold add nil ms)) =
           {r. \<exists>m\<in>set ms. r \<in> den (snd m) \<and> (\<forall>m'\<in>set ms. fst m' \<le> fst m)}"
    and "snd (tier_fold add nil ms) = None \<longleftrightarrow> ms = []"
  using tier_fold_props [OF assms] top_key_iff [OF assms(1)] by auto

lemma remove_le: "wf a \<Longrightarrow> den (remove a b) \<subseteq> den a"
  by (auto simp: den_remove)

lemma remove_remove: "wf a \<Longrightarrow> wf b \<Longrightarrow> wf c \<Longrightarrow> remove (remove a b) c = remove a (add b c)"
  by (rule den_inject) (auto simp: wf_remove den_remove den_add)

end

interpretation rights: rights_algebra wf_rights rset "[]" rights_Add rights_Remove
  by unfold_locales (auto simp: wf_rights_inject)

subsection \<open>Effective rights\<close>

definition wf_acl :: "ACL \<Rightarrow> bool" where
  "wf_acl acl \<longleftrightarrow> (\<forall>e\<in>set acl. wf_rights (en_Rights e))"

abbreviation entry_tier :: "Entry \<Rightarrow> nat" where
  "entry_tier e \<equiv> aclTier (id_Type (en_Identifier e))"

abbreviation applies :: "string \<Rightarrow> string list \<Rightarrow> bool \<Rightarrow> Entry \<Rightarrow> bool" where
  "applies user groups neg e \<equiv> entry_matches user groups e \<and> en_Negative e = neg"

text \<open>
  The specification of a mask, as a set and without any order: the letters of the entries
  of one sign that match the user, at the most specific tier at which one matches.
\<close>

definition mask_spec :: "bool \<Rightarrow> ACL \<Rightarrow> string \<Rightarrow> string list \<Rightarrow> rune set" where
  "mask_spec neg acl user groups =
    {r. \<exists>e\<in>set acl. applies user groups neg e \<and> r \<in> rset (en_Rights e) \<and>
          (\<forall>e'\<in>set acl. applies user groups neg e' \<longrightarrow> entry_tier e' \<le> entry_tier e)}"

abbreviation tiered :: "bool \<Rightarrow> acl_match list \<Rightarrow> (nat \<times> Rights) list" where
  "tiered neg ms \<equiv> map (\<lambda>m. (m_tier m, m_rights m)) (filter (\<lambda>m. m_negative m = neg) ms)"

lemma masks_fold:
  "(myPos (foldl masks_step masks_init ms), prevPosTier (foldl masks_step masks_init ms)) =
     tier_fold rights_Add [] (tiered False ms)"
  "(myNeg (foldl masks_step masks_init ms), prevNegTier (foldl masks_step masks_init ms)) =
     tier_fold rights_Add [] (tiered True ms)"
  by (induction ms rule: rev_induct)
     (auto simp: masks_init_def masks_step_def tier_fold_def tier_step_def prod_eq_iff)

lemma tiered_matches:
  fixes user :: string and groups :: "string list"
  assumes "wf_acl acl"
  defines "ms \<equiv> sort_key m_tier (map to_match (filter (entry_matches user groups) acl))"
  shows "wf_rights (fst (tier_fold rights_Add [] (tiered neg ms)))"
    and "rset (fst (tier_fold rights_Add [] (tiered neg ms))) = mask_spec neg acl user groups"
    and "snd (tier_fold rights_Add [] (tiered neg ms)) = None \<longleftrightarrow>
           (\<forall>e\<in>set acl. \<not> applies user groups neg e)"
proof -
  have set_ms: "set (tiered neg ms) =
      (\<lambda>e. (entry_tier e, en_Rights e)) ` {e \<in> set acl. applies user groups neg e}"
  proof -
    have "set (filter (\<lambda>m. m_negative m = neg) ms) =
        to_match ` {e \<in> set acl. applies user groups neg e}"
      by (auto simp: ms_def to_match_def)
    then show ?thesis
      by (simp add: image_image to_match_def)
  qed
  have "map fst (tiered neg ms) = map m_tier (filter (\<lambda>m. m_negative m = neg) ms)"
    by (simp add: comp_def)
  then have srt: "sorted (map fst (tiered neg ms))"
    by (simp only:) (simp add: ms_def filter_sort)
  have w: "\<forall>m\<in>set (tiered neg ms). wf_rights (snd m)"
    using assms(1) unfolding set_ms wf_acl_def by auto
  note spec = rights.tier_fold_spec [OF srt w]
  show "wf_rights (fst (tier_fold rights_Add [] (tiered neg ms)))" by (rule spec(1))
  show "rset (fst (tier_fold rights_Add [] (tiered neg ms))) = mask_spec neg acl user groups"
    unfolding spec(2) unfolding set_ms mask_spec_def by auto
  have "tiered neg ms = [] \<longleftrightarrow> set (tiered neg ms) = {}" by (rule set_empty [symmetric])
  then show "snd (tier_fold rights_Add [] (tiered neg ms)) = None \<longleftrightarrow>
      (\<forall>e\<in>set acl. \<not> applies user groups neg e)"
    unfolding spec(3) unfolding set_ms by auto
qed

lemma mask_spec_none: "\<forall>e\<in>set acl. \<not> entry_matches user groups e \<Longrightarrow> mask_spec neg acl user groups = {}"
  by (auto simp: mask_spec_def)

lemma mask_spec_valid: "wf_acl acl \<Longrightarrow> mask_spec neg acl user groups \<subseteq> set allRights"
  by (auto simp: mask_spec_def wf_acl_def dest: wf_rights_subset)

lemma canon_rset: "wf_rights a \<Longrightarrow> rset a = S \<Longrightarrow> a = canon S"
  by (simp add: wf_rights_def)

lemma masksSigned_spec:
  assumes "wf_acl acl"
  shows "effectiveMasksSigned acl user groups =
    (canon (mask_spec False acl user groups), canon (mask_spec True acl user groups),
     \<exists>e\<in>set acl. entry_matches user groups e,
     \<exists>e\<in>set acl. applies user groups False e)"
proof (cases "\<forall>e\<in>set acl. \<not> entry_matches user groups e")
  case True
  then show ?thesis
    by (auto simp: effectiveMasksSigned_def filter_empty_conv mask_spec_none canon_def)
next
  case False
  note t = tiered_matches [OF assms, where user = user and groups = groups]
  let ?s = "foldl masks_step masks_init
    (sort_key m_tier (map to_match (filter (entry_matches user groups) acl)))"
  have "myPos ?s = canon (mask_spec False acl user groups)"
    using t(1,2) [where neg = False] by (metis canon_rset fst_conv masks_fold(1))
  moreover have "myNeg ?s = canon (mask_spec True acl user groups)"
    using t(1,2) [where neg = True] by (metis canon_rset fst_conv masks_fold(2))
  moreover have "prevPosTier ?s \<noteq> None \<longleftrightarrow> (\<exists>e\<in>set acl. applies user groups False e)"
    using t(3) [where neg = False] by (metis masks_fold(1) snd_conv)
  ultimately show ?thesis
    using False by (auto simp: effectiveMasksSigned_def Let_def filter_empty_conv)
qed

lemma masks_spec:
  "wf_acl acl \<Longrightarrow> effectiveMasks acl user groups =
    (canon (mask_spec False acl user groups), canon (mask_spec True acl user groups),
     \<exists>e\<in>set acl. entry_matches user groups e)"
  by (simp add: effectiveMasks_def masksSigned_spec)

lemma Effective_eq:
  assumes "wf_acl acl"
  shows "Effective acl user groups False =
    canon (mask_spec False acl user groups - mask_spec True acl user groups)"
  using assms mask_spec_valid [OF assms]
  by (auto simp: Effective_def masks_spec rights_Remove_canon intro!: canon_cong)

subsection \<open>Collapse\<close>

text \<open>
  The specification of \<^const>\<open>Collapse\<close>: one entry per identifier and sign, at the place of
  its first line, with the rights of its last.
\<close>

definition first_keys :: "ACL \<Rightarrow> entry_key list" where
  "first_keys acl = rev (remdups (rev (map entry_key acl)))"

definition last_rights :: "ACL \<Rightarrow> entry_key \<Rightarrow> Rights" where
  "last_rights acl k = en_Rights (last (filter (\<lambda>e. entry_key e = k) acl))"

definition mk_entry :: "entry_key \<Rightarrow> Rights \<Rightarrow> Entry" where
  "mk_entry k r = \<lparr>en_Identifier = fst k, en_Rights = r, en_Negative = snd k\<rparr>"

definition collapse_spec :: "ACL \<Rightarrow> ACL" where
  "collapse_spec acl = map (\<lambda>k. mk_entry k (last_rights acl k)) (first_keys acl)"

lemma entry_key_mk [simp]: "entry_key (mk_entry k r) = k"
  by (simp add: entry_key_def mk_entry_def)

lemma mk_entry_key [simp]: "mk_entry (entry_key e) (en_Rights e) = e"
  by (simp add: entry_key_def mk_entry_def)

lemma mk_entry_update [simp]: "(mk_entry k r)\<lparr>en_Rights := r'\<rparr> = mk_entry k r'"
  by (simp add: mk_entry_def)

lemma keys_collapse_spec [simp]: "map entry_key (collapse_spec acl) = first_keys acl"
  by (simp add: collapse_spec_def comp_def)

lemma distinct_first_keys [simp]: "distinct (first_keys acl)"
  by (simp add: first_keys_def)

lemma set_first_keys [simp]: "set (first_keys acl) = entry_key ` set acl"
  by (simp add: first_keys_def)

lemma first_keys_snoc:
  "first_keys (acl @ [e]) =
    (if entry_key e \<in> entry_key ` set acl then first_keys acl else first_keys acl @ [entry_key e])"
  by (simp add: first_keys_def)

lemma last_rights_snoc:
  "last_rights (acl @ [e]) = (last_rights acl)(entry_key e := en_Rights e)"
  by (auto simp: last_rights_def fun_eq_iff)

lemma map_upd_nth:
  "distinct ks \<Longrightarrow> i < length ks \<Longrightarrow> map (\<lambda>k. g k ((f(ks ! i := v)) k)) ks = (map (\<lambda>k. g k (f k)) ks)[i := g (ks ! i) v]"
  by (rule nth_equalityI) (auto simp: nth_list_update nth_eq_iff_index_eq)

lemma collapse_spec_new:
  assumes "entry_key e \<notin> entry_key ` set acl"
  shows "collapse_spec (acl @ [e]) = collapse_spec acl @ [e]"
proof -
  have "map (\<lambda>k. mk_entry k (((last_rights acl)(entry_key e := en_Rights e)) k)) (first_keys acl) =
      collapse_spec acl"
    unfolding collapse_spec_def using assms by (intro map_cong) auto
  with assms show ?thesis
    by (simp add: collapse_spec_def [of "acl @ [e]"] first_keys_snoc last_rights_snoc)
qed

lemma collapse_spec_old:
  assumes "i < length (collapse_spec acl)" and "entry_key (collapse_spec acl ! i) = entry_key e"
  shows "collapse_spec (acl @ [e]) =
    (collapse_spec acl)[i := (collapse_spec acl ! i)\<lparr>en_Rights := en_Rights e\<rparr>]"
proof -
  have i: "i < length (first_keys acl)" and k: "first_keys acl ! i = entry_key e"
    using assms by (simp_all add: collapse_spec_def)
  then have "entry_key e \<in> set (first_keys acl)" by (metis nth_mem)
  with i k show ?thesis
    using map_upd_nth [of "first_keys acl" i mk_entry "last_rights acl" "en_Rights e"]
    by (simp add: collapse_spec_def first_keys_snoc last_rights_snoc)
qed

lemma collapse_loop_spec:
  assumes "\<And>k i. at k = Some i \<longleftrightarrow> i < length (collapse_spec pre) \<and> entry_key (collapse_spec pre ! i) = k"
  shows "collapse_loop at (collapse_spec pre) es = collapse_spec (pre @ es)"
  using assms
proof (induction es arbitrary: at pre)
  case Nil
  then show ?case by simp
next
  case (Cons e es)
  show ?case
  proof (cases "at (entry_key e)")
    case None
    then have "entry_key e \<notin> set (map entry_key (collapse_spec pre))"
      using Cons.prems [of "entry_key e"]
      by (auto simp: in_set_conv_nth simp del: keys_collapse_spec) blast
    then have new: "collapse_spec (pre @ [e]) = collapse_spec pre @ [e]"
      by (intro collapse_spec_new) simp
    have "(at(entry_key e \<mapsto> length (collapse_spec pre))) k = Some i \<longleftrightarrow>
        i < length (collapse_spec (pre @ [e])) \<and> entry_key (collapse_spec (pre @ [e]) ! i) = k" for k i
      using Cons.prems [of k i] None Cons.prems [of "entry_key e" i]
      unfolding new by (auto simp: nth_append less_Suc_eq)
    then have "collapse_loop (at(entry_key e \<mapsto> length (collapse_spec pre))) (collapse_spec (pre @ [e])) es =
        collapse_spec ((pre @ [e]) @ es)"
      by (rule Cons.IH)
    with None new show ?thesis by simp
  next
    case (Some i)
    then have i: "i < length (collapse_spec pre)" "entry_key (collapse_spec pre ! i) = entry_key e"
      using Cons.prems by auto
    note old = collapse_spec_old [OF i]
    have "at k = Some j \<longleftrightarrow>
        j < length (collapse_spec (pre @ [e])) \<and> entry_key (collapse_spec (pre @ [e]) ! j) = k" for k j
      using Cons.prems [of k j] unfolding old
      by (cases "j = i") (auto simp: nth_list_update entry_key_def)
    from Cons.IH [OF this] Some old show ?thesis by simp
  qed
qed

lemma Collapse_eq_spec: "Collapse acl = collapse_spec acl"
proof (cases "length acl < 2")
  case True
  then consider "acl = []" | e where "acl = [e]"
    by (cases acl; cases "tl acl") auto
  then show ?thesis
    by cases (auto simp: Collapse_def collapse_spec_def first_keys_def last_rights_def)
next
  case False
  moreover have "collapse_spec [] = []"
    by (simp add: collapse_spec_def first_keys_def)
  ultimately show ?thesis
    using collapse_loop_spec [of "\<lambda>_. None" "[]" acl] by (simp add: Collapse_def)
qed

text \<open>An ACL without duplicates is its own collapse.\<close>

abbreviation collapsed :: "ACL \<Rightarrow> bool" where
  "collapsed acl \<equiv> distinct (map entry_key acl)"

lemma collapsed_Collapse [simp]: "collapsed (Collapse acl)"
  by (simp add: Collapse_eq_spec)

lemma last_rights_distinct:
  assumes "collapsed acl" and "e \<in> set acl"
  shows "last_rights acl (entry_key e) = en_Rights e"
proof -
  have "filter (\<lambda>x. entry_key x = entry_key e) acl = [e]"
    using assms by (induction acl) (auto simp: filter_empty_conv image_iff)
  then show ?thesis by (simp add: last_rights_def)
qed

lemma Collapse_id:
  assumes "collapsed acl"
  shows "Collapse acl = acl"
proof -
  have "first_keys acl = map entry_key acl"
    using assms by (simp add: first_keys_def distinct_remdups_id)
  then have "Collapse acl = map (\<lambda>e. mk_entry (entry_key e) (last_rights acl (entry_key e))) acl"
    by (simp add: Collapse_eq_spec collapse_spec_def)
  also have "\<dots> = acl"
    using assms by (intro map_idI) (simp add: last_rights_distinct)
  finally show ?thesis .
qed

subsection \<open>The change of one entry\<close>

text \<open>An ACL as a map from identifier and sign to rights; \<open>modify\<close> is what a mode means on it.\<close>

definition rights_of :: "ACL \<Rightarrow> entry_key \<Rightarrow> Rights option" where
  "rights_of acl = map_of (map (\<lambda>e. (entry_key e, en_Rights e)) acl)"

fun modify :: "ACLModify \<Rightarrow> Rights \<Rightarrow> Rights option \<Rightarrow> Rights option" where
  "modify ACLReplace r old = (if r = [] then None else Some r)"
| "modify ACLAdd r old = Some (case old of None \<Rightarrow> r | Some o' \<Rightarrow> rights_Add o' r)"
| "modify ACLRemove r old =
    (case old of None \<Rightarrow> None
     | Some o' \<Rightarrow> if rights_Remove o' r = [] then None else Some (rights_Remove o' r))"

lemma find_entry_None: "find_entry i neg acl = None \<longleftrightarrow> (i, neg) \<notin> entry_key ` set acl"
  by (induction acl) (auto simp: entry_key_def)

lemma find_entry_Some:
  "find_entry i neg acl = Some k \<Longrightarrow>
    \<exists>xs e ys. acl = xs @ e # ys \<and> k = length xs \<and> entry_key e = (i, neg)"
proof (induction acl arbitrary: k)
  case Nil
  then show ?case by simp
next
  case (Cons a acl)
  show ?case
  proof (cases "en_Negative a = neg \<and> en_Identifier a = i")
    case True
    with Cons.prems show ?thesis
      by (intro exI [of _ "[]"]) (auto simp: entry_key_def)
  next
    case False
    with Cons.prems obtain k' where k: "find_entry i neg acl = Some k'" "k = Suc k'" by auto
    from Cons.IH [OF k(1)] obtain xs e ys
      where "acl = xs @ e # ys \<and> k' = length xs \<and> entry_key e = (i, neg)" by blast
    with k(2) show ?thesis by (intro exI [of _ "a # xs"]) auto
  qed
qed

lemma entry_key_upd [simp]: "entry_key (e\<lparr>en_Rights := r\<rparr>) = entry_key e"
  by (simp add: entry_key_def)

lemma set_rights_at [simp]: "set_rights (xs @ e # ys) (length xs) r = xs @ e\<lparr>en_Rights := r\<rparr> # ys"
  by (simp add: set_rights_def)

lemma rights_of_middle:
  assumes "collapsed (xs @ e # ys)"
  shows "rights_of (xs @ e # ys) = (rights_of (xs @ ys))(entry_key e \<mapsto> en_Rights e)"
    and "rights_of (xs @ ys) (entry_key e) = None"
proof -
  show none: "rights_of (xs @ ys) (entry_key e) = None"
    using assms by (auto simp: rights_of_def map_of_eq_None_iff)
  show "rights_of (xs @ e # ys) = (rights_of (xs @ ys))(entry_key e \<mapsto> en_Rights e)"
  proof
    fix k
    show "rights_of (xs @ e # ys) k = ((rights_of (xs @ ys))(entry_key e \<mapsto> en_Rights e)) k"
      using none by (auto simp: rights_of_def map_add_def split: option.splits)
  qed
qed

lemma ApplyEntry_refines:
  assumes "collapsed acl"
  shows "collapsed (ApplyEntry acl i neg mode r)"
    and "rights_of (ApplyEntry acl i neg mode r) =
           (rights_of acl)((i, neg) := modify mode r (rights_of acl (i, neg)))"
proof -
  let ?k = "(i, neg)"
  have "collapsed (ApplyEntry acl i neg mode r) \<and>
    rights_of (ApplyEntry acl i neg mode r) = (rights_of acl)(?k := modify mode r (rights_of acl ?k))"
  proof (cases "find_entry i neg acl")
    case None
    let ?new = "\<lparr>en_Identifier = i, en_Rights = r, en_Negative = neg\<rparr>"
    have key: "entry_key ?new = ?k" by (simp add: entry_key_def)
    from None have notin: "?k \<notin> entry_key ` set acl" by (simp add: find_entry_None)
    then have c: "collapsed (acl @ [?new])" using assms by (auto simp: entry_key_def)
    have none: "rights_of acl ?k = None"
      using notin by (auto simp: rights_of_def map_of_eq_None_iff)
    have "rights_of (acl @ [?new]) = (rights_of acl)(?k \<mapsto> r)"
      using rights_of_middle(1) [of acl ?new "[]"] c key by simp
    with None none c show ?thesis
      using assms by (cases mode) (auto simp: ApplyEntry_def Collapse_id)
  next
    case (Some n)
    then obtain xs e ys where acl: "acl = xs @ e # ys" and n: "n = length xs" and key: "entry_key e = ?k"
      by (blast dest: find_entry_Some)
    have c: "collapsed (xs @ e\<lparr>en_Rights := q\<rparr> # ys)" "collapsed (xs @ ys)" for q
      using assms acl by auto
    have upd: "rights_of (xs @ e\<lparr>en_Rights := q\<rparr> # ys) = (rights_of (xs @ ys))(?k \<mapsto> q)" for q
      using rights_of_middle(1) [OF c(1) [of q]] key by simp
    have old: "rights_of acl = (rights_of (xs @ ys))(?k \<mapsto> en_Rights e)"
      and none: "rights_of (xs @ ys) ?k = None"
      using rights_of_middle [of xs e ys] assms acl key by simp_all
    have del: "(rights_of acl)(?k := None) = rights_of (xs @ ys)"
      using old none by auto
    have res: "ApplyEntry acl i neg mode r =
        (case modify mode r (Some (en_Rights e)) of
           None \<Rightarrow> xs @ ys | Some q \<Rightarrow> xs @ e\<lparr>en_Rights := q\<rparr> # ys)"
      using Some n acl c by (cases mode) (auto simp: ApplyEntry_def Collapse_id)
    show ?thesis
      unfolding res using c upd del old
      by (cases "modify mode r (Some (en_Rights e))") simp_all
  qed
  then show "collapsed (ApplyEntry acl i neg mode r)"
    and "rights_of (ApplyEntry acl i neg mode r) =
           (rights_of acl)((i, neg) := modify mode r (rights_of acl (i, neg)))"
    by blast+
qed

subsection \<open>Printing and parsing\<close>

text \<open>
  The identifiers and entries a file can hold. An identifier that is a keyword has no
  name, the others have one, and its spelling passes the check for the line format.
\<close>

definition wf_ident :: "Identifier \<Rightarrow> bool" where
  "wf_ident i \<longleftrightarrow>
    (case id_Type i of
       IDInvalid \<Rightarrow> False
     | IDAnyone \<Rightarrow> id_Name i = []
     | IDAuthenticated \<Rightarrow> id_Name i = []
     | IDOwner \<Rightarrow> id_Name i = []
     | _ \<Rightarrow> id_Name i \<noteq> []) \<and>
    ValidIdentifier (identifier_String i) = Inr ()"

definition wf_entry :: "Entry \<Rightarrow> bool" where
  "wf_entry e \<longleftrightarrow> wf_ident (en_Identifier e) \<and> wf_rights (en_Rights e)"

lemma ParseIdentifier_String: "wf_ident i \<Longrightarrow> ParseIdentifier (identifier_String i) = Inr i"
  by (cases i) (auto simp: wf_ident_def ParseIdentifier_def identifier_String_def has_prefix_def Let_def
      split: IdentifierType.splits)

lemma ValidIdentifier_printable:
  "length s \<le> 1024 \<Longrightarrow> list_all (\<lambda>c. 0x20 \<le> (of_char c :: nat) \<and> (of_char c :: nat) < 0x7F) s \<Longrightarrow>
    ValidIdentifier s = Inr ()"
proof -
  assume len: "length s \<le> 1024"
    and pr: "list_all (\<lambda>c. 0x20 \<le> (of_char c :: nat) \<and> (of_char c :: nat) < 0x7F) s"
  then have a: "ascii s" by (auto simp: list_all_iff)
  have "\<not> list_ex (\<lambda>r. r < 0x20 \<or> r = 0x7F) (runes s)"
    unfolding runes_ascii_string [OF a] using pr by (auto simp: list_all_iff list_ex_iff)
  with len a show ?thesis
    by (simp add: ValidIdentifier_def maxIdentifierLen_def valid_utf8_ascii)
qed

abbreviation ident_prefixes :: "(string \<times> IdentifierType) list" where
  "ident_prefixes \<equiv> [(''user='', IDUser), (''group-override='', IDGroupOverride), (''group='', IDGroup)]"

lemma parse_prefixes_String:
  "parse_prefixes ps s = Inr i \<Longrightarrow> \<exists>p. (p, id_Type i) \<in> set ps \<and> s = p @ id_Name i \<and> id_Name i \<noteq> []"
  by (induction ps s rule: parse_prefixes.induct)
     (auto simp: has_prefix_def Let_def split: if_splits, metis append_take_drop_id)

text \<open>Every identifier the parser returns is well formed.\<close>

lemma ParseIdentifier_wf:
  assumes "ParseIdentifier s = Inr i"
  shows "wf_ident i"
proof -
  from assms have v: "ValidIdentifier s = Inr ()"
    by (simp add: ParseIdentifier_def split: sum.splits)
  from assms v consider (kw) "id_Name i = []" "id_Type i \<in> {IDAnyone, IDAuthenticated, IDOwner}"
    | (pre) "parse_prefixes ident_prefixes s = Inr i"
    by (auto simp: ParseIdentifier_def simp del: parse_prefixes.simps split: if_splits)
  then show ?thesis
  proof cases
    case kw
    then show ?thesis
      by (auto simp: wf_ident_def identifier_String_def ValidIdentifier_printable)
  next
    case pre
    from parse_prefixes_String [OF this] v show ?thesis
      by (auto simp: wf_ident_def identifier_String_def)
  qed
qed

lemma identifier_String_head:
  "wf_ident i \<Longrightarrow> \<exists>t. identifier_String i = CHR ''a'' # t \<or> identifier_String i = CHR ''o'' # t \<or>
     identifier_String i = CHR ''u'' # t \<or> identifier_String i = CHR ''g'' # t"
  by (auto simp: wf_ident_def identifier_String_def split: IdentifierType.splits)

lemma wf_rights_letters:
  assumes "wf_rights r" and "c \<in> set r"
  shows "of_char c \<in> set allRights"
proof -
  from assms have "c \<in> set (map char_of (filter (\<lambda>x. x \<in> rset r) allRights))"
    by (simp add: wf_rights_def canon_def)
  then obtain x where "c = char_of x" "x \<in> set allRights" by auto
  then show ?thesis using allRights_small [of x] by simp
qed

lemma allRights_bytes: "of_char c \<in> set allRights \<Longrightarrow> 0x61 \<le> (of_char c :: nat) \<and> (of_char c :: nat) < 0x7F"
  by (auto simp: allRights_def letter_simps)

lemma wf_rights_clean:
  assumes "wf_rights r" and "\<forall>x\<in>set cs. (of_char x :: nat) < 0x61"
  shows "\<not> contains_any r cs"
  using assms allRights_bytes wf_rights_letters [OF assms(1)]
  by (fastforce simp: contains_any_def list_ex_iff)

lemma unquote_escaped:
  "unquote_loop (concat (map escape_byte i) @ CHR 0x22 # CHR '' '' # rest) b = Inr (b @ i, rest)"
  by (induction i arbitrary: b) (auto simp: escape_byte_def)

lemma blanks_small: "\<forall>x\<in>set blanks. (of_char x :: nat) < 0x61"
  by (simp add: blanks_def)

text \<open>A line that starts with a byte that is neither blank nor a comment sign is read as it is.\<close>

lemma ParseEntry_line:
  assumes "(of_char c :: nat) < 128" and "\<not> is_space (of_char c)" and "c \<noteq> CHR ''#''" and "c \<notin> set blanks"
    and "last (c # cs) \<noteq> CHR 0x0D"
  shows "ParseEntry (c # cs) =
    (case split_fields (c # cs) of
       Inl e \<Rightarrow> Inl e | Inr (idStr0, rest) \<Rightarrow> build_entry (c # cs) idStr0 rest)"
proof -
  obtain t where "trim_space (c # cs) = c # t"
    using trim_space_head assms(1,2) by blast
  moreover have "trim_left (c # cs) blanks = c # cs"
    by (rule trim_left_id) (use assms(4) in simp)
  moreover have "trim_right (c # cs) [CHR 0x0D] = c # cs"
    by (rule trim_right_id) (use assms(5) in simp)
  ultimately show ?thesis
    using assms(3) unfolding ParseEntry_def by (simp add: has_prefix_def)
qed

lemma split_fields_String:
  assumes "c \<noteq> CHR 0x22" and "\<not> contains_any (c # i) (blanks @ [CHR 0x22, CHR 0x5C])"
  shows "split_fields ((c # i) @ '' '' @ r) = Inr (c # i, r)"
proof -
  have "\<forall>x\<in>set (c # i). x \<notin> set blanks"
    using assms(2) by (auto simp: contains_any_def list_ex_iff)
  then have "takeWhile (\<lambda>c. c \<notin> set blanks) ((c # i) @ '' '' @ r) = c # i"
    and "dropWhile (\<lambda>c. c \<notin> set blanks) ((c # i) @ '' '' @ r) = '' '' @ r"
    by (simp_all add: takeWhile_append dropWhile_append blanks_def)
  then show ?thesis
    using assms(1) by (simp add: split_fields_def has_prefix_def)
qed

lemma split_fields_quoted:
  "split_fields ([CHR 0x22] @ concat (map escape_byte i) @ [CHR 0x22] @ '' '' @ r) = Inr (i, r)"
  using unquote_escaped [of i r "[]"] by (simp add: split_fields_def has_prefix_def unquoteACL_def)

lemma build_entry_String:
  assumes "wf_entry e"
  shows "build_entry line ((if en_Negative e then ''-'' else []) @ identifier_String (en_Identifier e)) (en_Rights e) = Inr (Some e)"
proof -
  obtain t where "identifier_String (en_Identifier e) = CHR ''a'' # t \<or> identifier_String (en_Identifier e) = CHR ''o'' # t \<or>
     identifier_String (en_Identifier e) = CHR ''u'' # t \<or> identifier_String (en_Identifier e) = CHR ''g'' # t"
    using assms identifier_String_head by (auto simp: wf_entry_def)
  then have p: "\<not> has_prefix (identifier_String (en_Identifier e)) ''-''"
    and ne: "identifier_String (en_Identifier e) \<noteq> []"
    by (auto simp: has_prefix_def)
  have r: "\<not> contains_any (en_Rights e) blanks"
    using assms wf_rights_clean [OF _ blanks_small] by (simp add: wf_entry_def)
  have "has_prefix (''-'' @ x) ''-''" for x by (simp add: has_prefix_def)
  with p ne r assms show ?thesis
    by (simp add: build_entry_def trim_id wf_entry_def ParseIdentifier_String ParseRights_wf Let_def)
qed

lemma entry_String_last:
  assumes "wf_entry e"
  shows "entry_String e \<noteq> []" and "last (entry_String e) \<noteq> CHR 0x0D"
proof -
  show "entry_String e \<noteq> []" by (simp add: entry_String_def Let_def)
  show "last (entry_String e) \<noteq> CHR 0x0D"
  proof (cases "en_Rights e = []")
    case True
    then show ?thesis by (simp add: entry_String_def Let_def rights_String_def)
  next
    case False
    then have l: "last (entry_String e) = last (en_Rights e)"
      by (simp add: entry_String_def Let_def rights_String_def)
    have "of_char (last (en_Rights e)) \<in> set allRights"
      using assms False by (intro wf_rights_letters) (auto simp: wf_entry_def)
    from allRights_bytes [OF this] show ?thesis unfolding l by auto
  qed
qed

lemma entry_ident_head:
  assumes "wf_entry e"
  obtains c t where "(if en_Negative e then ''-'' else []) @ identifier_String (en_Identifier e) = c # t"
    and "c \<in> set ''-aoug''"
  using identifier_String_head [of "en_Identifier e"] assms
  by (cases "en_Negative e") (auto simp: wf_entry_def)

lemma ParseEntry_String:
  assumes "wf_entry e"
  shows "ParseEntry (entry_String e) = Inr (Some e)"
proof -
  let ?i = "(if en_Negative e then ''-'' else []) @ identifier_String (en_Identifier e)"
  obtain c t where i: "?i = c # t" and c: "c \<in> set ''-aoug''"
    using entry_ident_head [OF assms] by blast
  note last = entry_String_last(2) [OF assms]
  note built = build_entry_String [OF assms, of "entry_String e"]
  have split: "split_fields (entry_String e) = Inr (?i, en_Rights e)"
  proof (cases "contains_any ?i (blanks @ [CHR 0x22, CHR 0x5C])")
    case True
    then have "entry_String e = [CHR 0x22] @ concat (map escape_byte ?i) @ [CHR 0x22] @ '' '' @ en_Rights e"
      by (simp add: entry_String_def Let_def rights_String_def)
    then show ?thesis by (simp only: split_fields_quoted)
  next
    case False
    then have eq: "entry_String e = ?i @ '' '' @ en_Rights e"
      by (simp add: entry_String_def Let_def rights_String_def)
    show ?thesis
      unfolding eq unfolding i by (rule split_fields_String) (use c False i in auto)
  qed
  have "hd (entry_String e) \<in> set (CHR 0x22 # ''-aoug'')"
    using i c by (cases "contains_any ?i (blanks @ [CHR 0x22, CHR 0x5C])") (simp_all add: entry_String_def Let_def)
  then obtain d u where d: "entry_String e = d # u" "d \<in> set (CHR 0x22 # ''-aoug'')"
    using entry_String_last(1) [OF assms] by (metis list.collapse)
  then have "ParseEntry (d # u) =
      (case split_fields (d # u) of
         Inl e \<Rightarrow> Inl e | Inr (idStr0, rest) \<Rightarrow> build_entry (d # u) idStr0 rest)"
    using last by (intro ParseEntry_line) (auto simp: is_space_def blanks_def)
  with d split built show ?thesis by simp
qed

text \<open>The lines of a printed file.\<close>

lemma escape_length: "length (concat (map escape_byte i)) \<le> 2 * length i"
  by (induction i) (auto simp: escape_byte_def)

lemma escape_set: "set (concat (map escape_byte i)) \<subseteq> set i \<union> {CHR 0x5C}"
  by (auto simp: escape_byte_def split: if_splits)

lemma wf_ident_string:
  assumes "wf_ident i"
  shows "length (identifier_String i) \<le> 1024" and "CHR 0x0A \<notin> set (identifier_String i)"
proof -
  let ?s = "identifier_String i"
  from assms have v: "ValidIdentifier ?s = Inr ()" by (simp add: wf_ident_def)
  then show "length ?s \<le> 1024"
    by (simp add: ValidIdentifier_def maxIdentifierLen_def split: if_splits)
  from v have u: "valid_utf8 ?s" and c: "\<not> list_ex (\<lambda>r. r < 0x20 \<or> r = 0x7F) (runes ?s)"
    by (auto simp: ValidIdentifier_def split: if_splits)
  show "CHR 0x0A \<notin> set ?s"
  proof
    assume "CHR 0x0A \<in> set ?s"
    with u have "of_char (CHR 0x0A) \<in> set (runes ?s)"
      by (rule valid_utf8_ascii_byte) simp
    with c show False by (auto simp: list_ex_iff)
  qed
qed

lemma wf_rights_length: "wf_rights r \<Longrightarrow> length r \<le> 11"
proof -
  assume "wf_rights r"
  then have "length r = length (filter (\<lambda>x. x \<in> rset r) allRights)"
    by (metis canon_def length_map wf_rights_def)
  also have "\<dots> \<le> length allRights" by (rule length_filter_le)
  finally show ?thesis by (simp add: allRights_def)
qed

lemma wf_entry_line:
  assumes "wf_entry e"
  shows "CHR 0x0A \<notin> set (entry_String e)" and "length (entry_String e) < maxScanToken"
proof -
  let ?i = "(if en_Negative e then ''-'' else []) @ identifier_String (en_Identifier e)"
  have wi: "wf_ident (en_Identifier e)" and wr: "wf_rights (en_Rights e)"
    using assms by (simp_all add: wf_entry_def)
  have "CHR 0x0A \<notin> set ?i" using wf_ident_string(2) [OF wi] by auto
  moreover have "CHR 0x0A \<notin> set (en_Rights e)"
    using wf_rights_letters [OF wr, of "CHR 0x0A"] allRights_bytes [of "CHR 0x0A"] by auto
  ultimately show "CHR 0x0A \<notin> set (entry_String e)"
    using escape_set [of ?i] by (auto simp: entry_String_def Let_def rights_String_def)
  have "length ?i \<le> 1025" using wf_ident_string(1) [OF wi] by simp
  with escape_length [of ?i] wf_rights_length [OF wr] show "length (entry_String e) < maxScanToken"
    by (auto simp: entry_String_def Let_def rights_String_def maxScanToken_def)
qed

lemma scan_line:
  assumes "CHR 0x0A \<notin> set l" and "length l < maxScanToken" and "l \<noteq> []" and "last l \<noteq> CHR 0x0D"
  shows "scan_lines (l @ CHR 0x0A # rest) = (l # fst (scan_lines rest), snd (scan_lines rest))"
proof -
  obtain c cs where l: "l = c # cs" using assms(3) by (cases l) auto
  have "takeWhile (\<lambda>c. c \<noteq> CHR 0x0A) (l @ CHR 0x0A # rest) = l"
    and "dropWhile (\<lambda>c. c \<noteq> CHR 0x0A) (l @ CHR 0x0A # rest) = CHR 0x0A # rest"
    using assms(1) by (auto simp: takeWhile_append dropWhile_append)
  then show ?thesis
    using assms by (simp add: l drop_cr_def)
qed

lemma scan_acl_String:
  "\<forall>e\<in>set acl. wf_entry e \<Longrightarrow> scan_lines (acl_String acl) = (map entry_String acl, False)"
  by (induction acl)
     (simp_all add: acl_String_def scan_line wf_entry_line entry_String_last)

lemma parse_lines_String:
  "\<forall>e\<in>set acl. wf_entry e \<Longrightarrow> parse_lines n (map entry_String acl) = Inr acl"
  by (induction acl arbitrary: n) (simp_all add: ParseEntry_String)

lemma ParseACL_String:
  "\<forall>e\<in>set acl. wf_entry e \<Longrightarrow> ParseACLString (acl_String acl) = Inr (Collapse acl)"
  by (simp add: ParseACLString_def ParseACL_def scan_acl_String parse_lines_String)

text \<open>Everything a parse returns is well formed.\<close>

lemma ParseEntry_wf: "ParseEntry l = Inr (Some e) \<Longrightarrow> wf_entry e"
  by (auto simp: ParseEntry_def build_entry_def Let_def wf_entry_def
      dest: ParseIdentifier_wf wf_ParseRights split: if_splits sum.splits prod.splits)

lemma parse_lines_wf: "parse_lines n ls = Inr acl \<Longrightarrow> \<forall>e\<in>set acl. wf_entry e"
  by (induction ls arbitrary: n acl)
     (auto dest: ParseEntry_wf split: sum.splits option.splits)

lemma wf_entry_Collapse:
  assumes "\<forall>e\<in>set acl. wf_entry e" and "e \<in> set (Collapse acl)"
  shows "wf_entry e"
proof -
  obtain k where k: "k \<in> entry_key ` set acl" and e: "e = mk_entry k (last_rights acl k)"
    using assms(2) by (auto simp: Collapse_eq_spec collapse_spec_def)
  then obtain x where x: "x \<in> set acl" "entry_key x = k" by auto
  then have "last (filter (\<lambda>e. entry_key e = k) acl) \<in> set (filter (\<lambda>e. entry_key e = k) acl)"
    by (intro last_in_set) (auto simp: filter_empty_conv)
  then show ?thesis
    using assms(1) x e by (auto simp: last_rights_def mk_entry_def wf_entry_def entry_key_def)
qed

lemma ParseACL_wf: "ParseACL body rf = Inr acl \<Longrightarrow> (\<forall>e\<in>set acl. wf_entry e) \<and> collapsed acl"
  by (auto simp: ParseACL_def dest!: parse_lines_wf intro: wf_entry_Collapse split: sum.splits if_splits)


subsection \<open>Properties of the access control lists\<close>

lemmas char_eval [letter_simps] = char_of_def bit_iff_odd

lemmas acl_eval = ParseRights_def runes_ascii_string allRights_def IsValidRight_def write_runes_ascii
  rset_def canon_def legal_def expand_def

lemmas effective_eval = Effective_def EffectiveWithGlobal_def effectiveMasks_def effectiveMasksSigned_def
  entry_matches_def to_match_def masks_step_def masks_init_def rights_Add_def rights_Remove_def
  rights_Has_def acl_eval

abbreviation ent :: "IdentifierType \<Rightarrow> string \<Rightarrow> Rights \<Rightarrow> bool \<Rightarrow> Entry" where
  "ent t n r neg \<equiv> \<lparr>en_Identifier = \<lparr>id_Type = t, id_Name = n\<rparr>, en_Rights = r, en_Negative = neg\<rparr>"

abbreviation sample_acl :: ACL where
  "sample_acl \<equiv> [ent IDAnyone [] ''lr'' False, ent IDUser ''bob'' ''lrs'' False, ent IDUser ''bob'' ''s'' True]"

lemma wf_sample_acl: "wf_acl sample_acl"
  by (simp add: wf_acl_def wf_rights_def acl_eval letter_simps)

text \<open>
  C1. A user's effective rights are the letters the most specific matching positive entries
  grant, less those the most specific matching negative entries name, in canonical order:
  the sort by tier and the loop over the matches compute the order-free specification.
\<close>

theorem Effective_meets_spec:
  assumes "wf_acl acl"
  shows "Effective acl user groups False =
    canon (mask_spec False acl user groups - mask_spec True acl user groups)"
  by (rule Effective_eq [OF assms])

theorem Effective_meets_spec_witness:
  "wf_acl sample_acl \<and> Effective sample_acl ''bob'' [] False = ''lr'' \<and>
   ''lr'' = canon (mask_spec False sample_acl ''bob'' [] - mask_spec True sample_acl ''bob'' [])"
proof -
  have "Effective sample_acl ''bob'' [] False = ''lr''"
    by (simp add: effective_eval letter_simps)
  with Effective_meets_spec [OF wf_sample_acl, of "''bob''" "[]"] wf_sample_acl show ?thesis by simp
qed

text \<open>
  C2. The order of the entries and repetitions of an entry do not matter: two files with the
  same set of entries, such as a file and its sorted copy, give every user the same rights.
\<close>

theorem Effective_order_insensitive:
  assumes "wf_acl acl" and "set acl' = set acl"
  shows "Effective acl' user groups isOwner = Effective acl user groups isOwner \<and>
    Effective (acl_Sorted acl) user groups isOwner = Effective acl user groups isOwner"
proof -
  have "Effective x user groups isOwner = Effective acl user groups isOwner" if "set x = set acl" for x
  proof (cases isOwner)
    case False
    have "wf_acl x" using assms(1) that by (simp add: wf_acl_def)
    with assms(1) False that show ?thesis by (simp add: Effective_eq mask_spec_def)
  qed (simp add: Effective_def)
  from this [OF assms(2)] this [of "acl_Sorted acl"] show ?thesis
    by (simp add: acl_Sorted_def)
qed

theorem Effective_order_insensitive_witness:
  "set (rev sample_acl) = set sample_acl \<and>
   Effective (rev sample_acl) ''bob'' [] False = Effective sample_acl ''bob'' [] False"
proof -
  have s: "set (rev sample_acl) = set sample_acl" by (rule set_rev)
  from Effective_order_insensitive [OF wf_sample_acl s, of "''bob''" "[]" False] s show ?thesis by blast
qed

text \<open>
  C3. A global ACL is a layer above the local one, by the sign it speaks about. The owner of
  the mailbox has every right, whatever either list says. For anyone else: where no
  global entry matches the local rights stand; where a global entry grants, the local ACL
  has no influence at all; where global entries only revoke, the local grants stand and
  lose what the global entries revoke.
\<close>

theorem EffectiveWithGlobal_layers:
  assumes "wf_acl local" and "wf_acl global"
  shows "EffectiveWithGlobal local global user groups isOwner =
    (if isOwner then FullRights
     else if \<forall>e\<in>set global. \<not> entry_matches user groups e then Effective local user groups False
     else if \<exists>e\<in>set global. applies user groups False e then Effective global user groups False
     else canon (mask_spec False local user groups - mask_spec True global user groups))"
proof -
  have "canon (mask_spec False acl user groups \<inter> set allRights - S) =
      canon (mask_spec False acl user groups - S)" for acl S
    by (rule canon_cong) auto
  then show ?thesis
    using assms mask_spec_valid [OF assms(2), of True user groups]
    by (auto simp: EffectiveWithGlobal_def masks_spec masksSigned_spec Effective_def
        rights_Remove_canon Int_absorb2)
qed

theorem EffectiveWithGlobal_layers_witness:
  "wf_acl sample_acl \<and> wf_acl [ent IDAnyone [] ''i'' False] \<and>
   EffectiveWithGlobal sample_acl [ent IDAnyone [] ''i'' False] ''bob'' [] False =
     Effective [ent IDAnyone [] ''i'' False] ''bob'' [] False \<and>
   EffectiveWithGlobal sample_acl [ent IDAnyone [] ''i'' False] ''bob'' [] True = FullRights"
proof -
  have w: "wf_acl [ent IDAnyone [] ''i'' False]"
    by (simp add: wf_acl_def wf_rights_def acl_eval letter_simps)
  show ?thesis
    using EffectiveWithGlobal_layers [OF wf_sample_acl w, of "''bob''" "[]" False]
      EffectiveWithGlobal_layers [OF wf_sample_acl w, of "''bob''" "[]" True] wf_sample_acl w
    by (simp add: entry_matches_def)
qed

text \<open>
  C4. A global ACL that only revokes can widen a user's rights: the first global match drops
  the local negative entries, also where no global entry grants anything. Here a global line
  \<^verbatim>\<open>-anyone x\<close> gives \<^verbatim>\<open>alice\<close> back the administer right that the local ACL denies.
\<close>

theorem global_revocation_widens:
  "\<exists>local global. wf_acl local \<and> wf_acl global \<and> list_all en_Negative global \<and>
     RightAdminister \<notin> rset (Effective local ''alice'' [] False) \<and>
     RightAdminister \<in> rset (EffectiveWithGlobal local global ''alice'' [] False)"
proof (intro exI conjI)
  let ?l = "[ent IDAnyone [] ''la'' False, ent IDUser ''alice'' ''a'' True]"
  let ?g = "[ent IDAnyone [] ''x'' True]"
  show "wf_acl ?l" and "wf_acl ?g"
    by (simp_all add: wf_acl_def wf_rights_def acl_eval letter_simps)
  show "list_all en_Negative ?g" by simp
  show "RightAdminister \<notin> rset (Effective ?l ''alice'' [] False)"
    and "RightAdminister \<in> rset (EffectiveWithGlobal ?l ?g ''alice'' [] False)"
    by (simp_all add: effective_eval letter_simps)
qed

text \<open>
  C5. Parsing a string of right letters succeeds exactly when every letter is one of the
  eleven rights or an obsolete code, and gives the canonical string of the rights they stand
  for; printing and parsing that string again changes nothing.
\<close>

theorem ParseRights_canonical:
  "ParseRights s = Inr rs \<longleftrightarrow>
     list_all legal (runes s) \<and> rs = canon (\<Union> (expand ` rset s)) \<and> ParseRights (rights_String rs) = Inr rs"
  using ParseRights_wf [OF wf_canon]
  by (auto simp: ParseRights_spec [of s] rights_String_def split: if_splits)

text \<open>
  C6. Writing an ACL and reading it back: a file that parses gives well-formed entries, and
  its sorted copy prints to a file that parses to exactly that sorted copy, quoted and
  negative identifiers included, which grants every user the same rights.
\<close>

theorem ACL_file_roundtrip:
  assumes "ParseACL body read_failed = Inr acl"
  shows "ParseACLString (acl_String (acl_Sorted acl)) = Inr (acl_Sorted acl) \<and>
    ParseACLString (acl_String acl) = Inr acl \<and>
    Effective (acl_Sorted acl) user groups isOwner = Effective acl user groups isOwner"
proof -
  from ParseACL_wf [OF assms] have w: "\<forall>e\<in>set acl. wf_entry e" and c: "collapsed acl" by auto
  have ms: "mset (acl_Sorted acl) = mset acl" by (simp add: acl_Sorted_def)
  then have "collapsed (acl_Sorted acl)"
    using c by (metis mset_eq_imp_distinct_iff mset_map)
  then have "Collapse (acl_Sorted acl) = acl_Sorted acl" "Collapse acl = acl"
    using c by (simp_all add: Collapse_id)
  moreover have "\<forall>e\<in>set (acl_Sorted acl). wf_entry e"
    using w by (simp add: acl_Sorted_def)
  moreover have "wf_acl acl" "wf_acl (acl_Sorted acl)"
    using w by (auto simp: wf_acl_def wf_entry_def acl_Sorted_def)
  ultimately show ?thesis
    using w by (cases isOwner)
      (simp_all add: ParseACL_String Effective_eq mask_spec_def acl_Sorted_def, simp_all add: Effective_def)
qed

lemma sample_file:
  "ParseACL ''-user=bob s
anyone lr
'' False = Inr [ent IDUser ''bob'' ''s'' True, ent IDAnyone [] ''lr'' False]"
  by (simp add: ParseACL_def drop_cr_def ParseEntry_def trim_space_def rune_at_def has_prefix_def
      split_fields_def build_entry_def trim_def trim_left_def trim_right_def contains_any_def blanks_def
      ParseIdentifier_def ValidIdentifier_printable is_space_def Collapse_def entry_key_def
      maxScanToken_def acl_eval letter_simps)

theorem ACL_file_roundtrip_witness:
  "ParseACLString (acl_String (acl_Sorted [ent IDUser ''bob'' ''s'' True, ent IDAnyone [] ''lr'' False])) =
     Inr (acl_Sorted [ent IDUser ''bob'' ''s'' True, ent IDAnyone [] ''lr'' False])"
  using ACL_file_roundtrip [OF sample_file] by blast

text \<open>
  C7. Collapsing keeps one entry per identifier and sign, where its first line stood and with
  the rights of its last line, and changes nothing when applied again.
\<close>

theorem Collapse_last_wins:
  "Collapse acl = map (\<lambda>k. mk_entry k (last_rights acl k)) (first_keys acl) \<and>
   collapsed (Collapse acl) \<and> Collapse (Collapse acl) = Collapse acl"
  by (simp add: Collapse_id) (simp add: Collapse_eq_spec collapse_spec_def)

text \<open>
  C8. Changing an entry (SETACL) changes exactly the entry of that identifier and sign, as
  its mode says, on an ACL without duplicates, and the result has no duplicates.
\<close>

theorem ApplyEntry_correct:
  assumes "collapsed acl"
  shows "collapsed (ApplyEntry acl i neg mode r) \<and>
    rights_of (ApplyEntry acl i neg mode r) =
      (rights_of acl)((i, neg) := modify mode r (rights_of acl (i, neg)))"
  using ApplyEntry_refines [OF assms] by blast

theorem ApplyEntry_correct_witness:
  "collapsed sample_acl \<and>
   rights_of (ApplyEntry sample_acl \<lparr>id_Type = IDUser, id_Name = ''bob''\<rparr> True ACLRemove ''s'')
     (\<lparr>id_Type = IDUser, id_Name = ''bob''\<rparr>, True) = None"
proof -
  have c: "collapsed sample_acl" by (simp add: entry_key_def)
  have "modify ACLRemove ''s'' (rights_of sample_acl (\<lparr>id_Type = IDUser, id_Name = ''bob''\<rparr>, True)) = None"
    by (simp add: rights_of_def entry_key_def rights_Remove_def rights_Has_def acl_eval letter_simps)
  with ApplyEntry_correct [OF c] c show ?thesis by simp
qed

end
