(* ===== verification/Lock_Service.thy ===== *)
theory Lock_Service
  imports Go_Runtime
begin

text \<open>
  The lock service (\<^verbatim>\<open>pkg/locks\<close>): the in-memory backend of \<^verbatim>\<open>memory.go\<close>, the lock keys of
  \<^verbatim>\<open>resources.go\<close>, the owner strings of \<^verbatim>\<open>owner.go\<close>, the wire protocol of \<^verbatim>\<open>proto.go\<close> and
  the command handlers of \<^verbatim>\<open>server.go\<close>.

  Every operation of the backend holds \<^verbatim>\<open>b.mu\<close> from its first access to its last, so an
  operation is one function on the backend's state. What an operation reads from outside
  is an argument: the reading of the clock in \<^verbatim>\<open>expireLocked\<close>, the later reading that
  sets \<^verbatim>\<open>ExpiresAt\<close>, the random bytes, and which element a \<^verbatim>\<open>range\<close> over a set yields first.
\<close>

subsection \<open>State\<close>

record memLock =
  ml_ID :: string
  ml_Resource :: string
  ml_Owner :: string
  ml_Site :: string
  ml_ExpiresAt :: instant
  ml_Shared :: bool

record Holder =
  h_Owner :: string
  h_Site :: string

record Event =
  ev_Resource :: string
  ev_Type :: string
  ev_Payload :: string

text \<open>
  A channel is an identity with a buffer and a closed flag; \<^verbatim>\<open>subs\<close> holds identities. The
  fields \<^verbatim>\<open>sweepInt\<close>, \<^verbatim>\<open>now\<close>, \<^verbatim>\<open>stopOnce\<close> and \<^verbatim>\<open>stop\<close> drive the sweeper goroutine and hold
  no lock state.
\<close>

record chan =
  ch_buf :: "Event list"
  ch_closed :: bool

record MemoryBackend =
  mb_locks :: "(string, memLock) gomap"
  mb_byRes :: "(string, string) gomap"
  mb_sharedRes :: "(string, string list) gomap"
  mb_subs :: "(string, nat list) gomap"
  mb_chans :: "(nat, chan) gomap"
  mb_counters :: "(string, int) gomap"

record lock_env =
  le_now :: instant
  le_now2 :: instant
  le_rand :: "string option"
  le_pick :: nat

datatype lock_error =
    EmptyArgument | EmptyKey | ErrBusy Holder | ErrNotFound | ErrExpired | RandFailed | NilDereference | SendOnClosed | CloseOfClosed

definition NewMemoryBackend :: MemoryBackend where
  "NewMemoryBackend = \<lparr> mb_locks = [], mb_byRes = [], mb_sharedRes = [], mb_subs = [],
     mb_chans = [], mb_counters = [] \<rparr>"

subsection \<open>Operations on locks\<close>

text \<open>\<^verbatim>\<open>b.sharedRes[resource]\<close>: the nil map, with no element, when the key is absent.\<close>

fun elements :: "'a list option \<Rightarrow> 'a list" where
  "elements None = []"
| "elements (Some ids) = ids"

definition shared_of :: "MemoryBackend \<Rightarrow> string \<Rightarrow> string list" where
  "shared_of b r = elements (map_of (mb_sharedRes b) r)"

definition randID :: "lock_env \<Rightarrow> string option" where
  "randID e = map_option hex_encode (le_rand e)"

definition releaseFromIndexLocked :: "memLock \<Rightarrow> MemoryBackend \<Rightarrow> MemoryBackend" where
  "releaseFromIndexLocked l b =
    (if ml_Shared l then
       (case map_of (mb_sharedRes b) (ml_Resource l) of
          None \<Rightarrow> b
        | Some ids \<Rightarrow>
            (let ids' = removeAll (ml_ID l) ids
             in if ids' = [] then b\<lparr> mb_sharedRes := AList.delete (ml_Resource l) (mb_sharedRes b) \<rparr>
                else b\<lparr> mb_sharedRes := AList.update (ml_Resource l) ids' (mb_sharedRes b) \<rparr>))
     else b\<lparr> mb_byRes := AList.delete (ml_Resource l) (mb_byRes b) \<rparr>)"

definition drop_lock :: "string \<Rightarrow> memLock \<Rightarrow> MemoryBackend \<Rightarrow> MemoryBackend" where
  "drop_lock i l b = releaseFromIndexLocked l (b\<lparr> mb_locks := AList.delete i (mb_locks b) \<rparr>)"

definition expire_step :: "instant \<Rightarrow> string \<times> memLock \<Rightarrow> MemoryBackend \<Rightarrow> MemoryBackend" where
  "expire_step now e b = (if \<not> now < ml_ExpiresAt (snd e) then drop_lock (fst e) (snd e) b else b)"

definition expireLocked :: "instant \<Rightarrow> MemoryBackend \<Rightarrow> MemoryBackend" where
  "expireLocked now b = fold (expire_step now) (mb_locks b) b"

definition busy_exclusive :: "string \<Rightarrow> MemoryBackend \<Rightarrow> lock_error" where
  "busy_exclusive existing b =
    (case map_of (mb_locks b) existing of
       None \<Rightarrow> NilDereference
     | Some l \<Rightarrow> ErrBusy \<lparr> h_Owner = ml_Owner l, h_Site = ml_Site l \<rparr>)"

definition busy_shared :: "nat \<Rightarrow> string list \<Rightarrow> MemoryBackend \<Rightarrow> lock_error" where
  "busy_shared pick shared b =
    (case map_of (mb_locks b) (shared ! (pick mod length shared)) of
       None \<Rightarrow> NilDereference
     | Some l \<Rightarrow>
         (let n = length shared - 1;
              who = (if n > 0 then ml_Owner l @ '' +'' @ itoa n else ml_Owner l)
          in ErrBusy \<lparr> h_Owner = who, h_Site = ml_Site l \<rparr>))"

definition Acquire ::
  "lock_env \<Rightarrow> string \<Rightarrow> string \<Rightarrow> string \<Rightarrow> instant \<Rightarrow> MemoryBackend \<Rightarrow> (lock_error + string) \<times> MemoryBackend"
where
  "Acquire e resource owner site ttl b0 =
    (if resource = [] \<or> owner = [] then (Inl EmptyArgument, b0)
     else
       let b = expireLocked (le_now e) b0
       in case map_of (mb_byRes b) resource of
            Some existing \<Rightarrow> (Inl (busy_exclusive existing b), b)
          | None \<Rightarrow>
              if length (shared_of b resource) > 0
              then (Inl (busy_shared (le_pick e) (shared_of b resource) b), b)
              else (case randID e of
                      None \<Rightarrow> (Inl RandFailed, b)
                    | Some i \<Rightarrow>
                        (Inr i,
                         b\<lparr> mb_locks := AList.update i
                               \<lparr> ml_ID = i, ml_Resource = resource, ml_Owner = owner, ml_Site = site,
                                 ml_ExpiresAt = le_now2 e + ttl, ml_Shared = False \<rparr> (mb_locks b),
                            mb_byRes := AList.update resource i (mb_byRes b) \<rparr>)))"

definition AcquireShared ::
  "lock_env \<Rightarrow> string \<Rightarrow> string \<Rightarrow> string \<Rightarrow> instant \<Rightarrow> MemoryBackend \<Rightarrow> (lock_error + string) \<times> MemoryBackend"
where
  "AcquireShared e resource owner site ttl b0 =
    (if resource = [] \<or> owner = [] then (Inl EmptyArgument, b0)
     else
       let b = expireLocked (le_now e) b0
       in case map_of (mb_byRes b) resource of
            Some existing \<Rightarrow> (Inl (busy_exclusive existing b), b)
          | None \<Rightarrow>
              (case randID e of
                 None \<Rightarrow> (Inl RandFailed, b)
               | Some i \<Rightarrow>
                   (Inr i,
                    b\<lparr> mb_locks := AList.update i
                          \<lparr> ml_ID = i, ml_Resource = resource, ml_Owner = owner, ml_Site = site,
                            ml_ExpiresAt = le_now2 e + ttl, ml_Shared = True \<rparr> (mb_locks b),
                       mb_sharedRes := AList.update resource (List.insert i (shared_of b resource))
                                         (mb_sharedRes b) \<rparr>)))"

definition Release :: "lock_env \<Rightarrow> string \<Rightarrow> MemoryBackend \<Rightarrow> (lock_error + unit) \<times> MemoryBackend" where
  "Release e lockID b0 =
    (let b = expireLocked (le_now e) b0
     in case map_of (mb_locks b) lockID of
          None \<Rightarrow> (Inl ErrNotFound, b)
        | Some l \<Rightarrow> (Inr (), drop_lock lockID l b))"

definition Renew :: "lock_env \<Rightarrow> string \<Rightarrow> instant \<Rightarrow> MemoryBackend \<Rightarrow> (lock_error + unit) \<times> MemoryBackend" where
  "Renew e lockID ttl b0 =
    (let b = expireLocked (le_now e) b0
     in case map_of (mb_locks b) lockID of
          None \<Rightarrow> (Inl ErrExpired, b)
        | Some l \<Rightarrow>
            (Inr (), b\<lparr> mb_locks := AList.update lockID (l\<lparr> ml_ExpiresAt := le_now2 e + ttl \<rparr>) (mb_locks b) \<rparr>))"

definition IncrementCounter :: "string \<Rightarrow> int \<Rightarrow> MemoryBackend \<Rightarrow> (lock_error + int) \<times> MemoryBackend" where
  "IncrementCounter key delta b =
    (if key = [] then (Inl EmptyKey, b)
     else
       let v = int64 ((case map_of (mb_counters b) key of None \<Rightarrow> 0 | Some c \<Rightarrow> c) + delta)
       in (Inr v, b\<lparr> mb_counters := AList.update key v (mb_counters b) \<rparr>))"


subsection \<open>Events\<close>

text \<open>
  A channel made by \<^verbatim>\<open>make(chan Event, 32)\<close> keeps its identity for ever: identities are
  handed out in order. A \<^verbatim>\<open>select\<close> with a \<^verbatim>\<open>default\<close> branch sends when there is room,
  skips a full or nil channel, and panics on a closed one.
\<close>

definition chan_cap :: nat where
  "chan_cap = 32"

definition send_event :: "nat \<Rightarrow> Event \<Rightarrow> MemoryBackend \<Rightarrow> MemoryBackend option" where
  "send_event c evt b =
    (case map_of (mb_chans b) c of
       None \<Rightarrow> Some b
     | Some ch \<Rightarrow>
         if ch_closed ch then None
         else if length (ch_buf ch) < chan_cap
         then Some (b\<lparr> mb_chans := AList.update c (ch\<lparr> ch_buf := ch_buf ch @ [evt] \<rparr>) (mb_chans b) \<rparr>)
         else Some b)"

fun send_all :: "nat list \<Rightarrow> Event \<Rightarrow> MemoryBackend \<Rightarrow> MemoryBackend option" where
  "send_all [] evt b = Some b"
| "send_all (c # cs) evt b = (case send_event c evt b of None \<Rightarrow> None | Some b' \<Rightarrow> send_all cs evt b')"

definition publish_snapshot :: "string \<Rightarrow> MemoryBackend \<Rightarrow> nat list" where
  "publish_snapshot resource b = elements (map_of (mb_subs b) resource)"

definition Publish :: "string \<Rightarrow> string \<Rightarrow> string \<Rightarrow> MemoryBackend \<Rightarrow> (lock_error + unit) \<times> MemoryBackend" where
  "Publish resource t payload b =
    (case send_all (publish_snapshot resource b)
            \<lparr> ev_Resource = resource, ev_Type = t, ev_Payload = payload \<rparr> b of
       None \<Rightarrow> (Inl SendOnClosed, b)
     | Some b' \<Rightarrow> (Inr (), b'))"

definition Subscribe :: "string \<Rightarrow> MemoryBackend \<Rightarrow> (lock_error + nat) \<times> MemoryBackend" where
  "Subscribe resource b =
    (let c = length (mb_chans b)
     in (Inr c, b\<lparr> mb_chans := AList.update c \<lparr> ch_buf = [], ch_closed = False \<rparr> (mb_chans b),
                   mb_subs := AList.update resource (elements (map_of (mb_subs b) resource) @ [c]) (mb_subs b) \<rparr>))"

text \<open>The two halves of the function \<^verbatim>\<open>Subscribe\<close> returns: under the mutex, and after it.\<close>

definition cancel_locked :: "string \<Rightarrow> nat \<Rightarrow> MemoryBackend \<Rightarrow> MemoryBackend" where
  "cancel_locked resource c b =
    (case map_of (mb_subs b) resource of
       None \<Rightarrow> b
     | Some cs \<Rightarrow>
         (let cs' = removeAll c cs
          in if cs' = [] then b\<lparr> mb_subs := AList.delete resource (mb_subs b) \<rparr>
             else b\<lparr> mb_subs := AList.update resource cs' (mb_subs b) \<rparr>))"

definition cancel_close :: "nat \<Rightarrow> MemoryBackend \<Rightarrow> MemoryBackend option" where
  "cancel_close c b =
    (case map_of (mb_chans b) c of
       None \<Rightarrow> None
     | Some ch \<Rightarrow> if ch_closed ch then None
                  else Some (b\<lparr> mb_chans := AList.update c (ch\<lparr> ch_closed := True \<rparr>) (mb_chans b) \<rparr>))"

text \<open>The whole function, with nothing in between; closing a closed channel panics.\<close>

definition cancel :: "string \<Rightarrow> nat \<Rightarrow> MemoryBackend \<Rightarrow> (lock_error + unit) \<times> MemoryBackend" where
  "cancel resource c b =
    (case cancel_close c (cancel_locked resource c b) of
       None \<Rightarrow> (Inl CloseOfClosed, cancel_locked resource c b)
     | Some b' \<Rightarrow> (Inr (), b'))"

text \<open>The receive \<^verbatim>\<open><-ch\<close> of a subscriber: the oldest event of the buffer, none when it is empty.\<close>

definition receive :: "nat \<Rightarrow> MemoryBackend \<Rightarrow> Event option \<times> MemoryBackend" where
  "receive c b =
    (case map_of (mb_chans b) c of
       None \<Rightarrow> (None, b)
     | Some ch \<Rightarrow>
         (case ch_buf ch of
            [] \<Rightarrow> (None, b)
          | evt # evts \<Rightarrow> (Some evt, b\<lparr> mb_chans := AList.update c (ch\<lparr> ch_buf := evts \<rparr>) (mb_chans b) \<rparr>)))"

subsection \<open>The lock table and the consistency of its indexes\<close>

text \<open>
  The lock table is the map \<^verbatim>\<open>locks\<close>; \<^verbatim>\<open>byRes\<close> and \<^verbatim>\<open>sharedRes\<close> are indexes into it. The
  invariant says that the indexes are exactly what the table implies and that a resource
  with an exclusive lock has no other lock.
\<close>

abbreviation table :: "MemoryBackend \<Rightarrow> string \<Rightarrow> memLock option" where
  "table b \<equiv> map_of (mb_locks b)"

definition locks_on :: "(string \<Rightarrow> memLock option) \<Rightarrow> bool \<Rightarrow> string \<Rightarrow> string set" where
  "locks_on T sh r = {i. \<exists>l. T i = Some l \<and> ml_Shared l = sh \<and> ml_Resource l = r}"

definition exclusion :: "(string \<Rightarrow> memLock option) \<Rightarrow> bool" where
  "exclusion T \<longleftrightarrow>
     (\<forall>i l j k. T i = Some l \<longrightarrow> \<not> ml_Shared l \<longrightarrow> T j = Some k \<longrightarrow> ml_Resource k = ml_Resource l \<longrightarrow> j = i)"

definition consistent ::
  "(string \<Rightarrow> memLock option) \<Rightarrow> (string \<Rightarrow> string option) \<Rightarrow> (string \<Rightarrow> string list option) \<Rightarrow> bool"
where
  "consistent T B M \<longleftrightarrow>
     (\<forall>i l. T i = Some l \<longrightarrow> ml_ID l = i) \<and>
     (\<forall>r i. B r = Some i \<longleftrightarrow> i \<in> locks_on T False r) \<and>
     (\<forall>r. set (elements (M r)) = locks_on T True r \<and> distinct (elements (M r)) \<and> M r \<noteq> Some []) \<and>
     exclusion T"

definition wf_backend :: "MemoryBackend \<Rightarrow> bool" where
  "wf_backend b \<longleftrightarrow> wf_map (mb_locks b) \<and> wf_map (mb_byRes b) \<and> wf_map (mb_sharedRes b) \<and>
     consistent (table b) (map_of (mb_byRes b)) (map_of (mb_sharedRes b))"

declare map_of_eq_Some_iff [simp del] Some_eq_map_of_iff [simp del]

lemma wf_new: "wf_backend NewMemoryBackend"
  by (simp add: wf_backend_def NewMemoryBackend_def consistent_def locks_on_def exclusion_def)

lemma table_release [simp]: "mb_locks (releaseFromIndexLocked l b) = mb_locks b"
  by (simp add: releaseFromIndexLocked_def Let_def split: option.splits)

lemma drop_lock_table: "table (drop_lock i l b) = (table b)(i := None)"
  by (simp add: drop_lock_def gomap_simps)

lemma exclusion_sub: "exclusion T \<Longrightarrow> (\<And>i l. T' i = Some l \<Longrightarrow> T i = Some l) \<Longrightarrow> exclusion T'"
  unfolding exclusion_def by metis

lemma exclusion_drop: "exclusion T \<Longrightarrow> exclusion (T(i := None))"
  by (erule exclusion_sub) (simp split: if_splits)

lemma locks_on_drop: "locks_on (T(i := None)) sh r = locks_on T sh r - {i}"
  by (auto simp: locks_on_def)

lemma consistent_drop_exclusive:
  assumes "consistent T B M" and "T i = Some l" and "\<not> ml_Shared l"
  shows "consistent (T(i := None)) (B(ml_Resource l := None)) M"
proof -
  have bi: "B r = Some j \<longleftrightarrow> j \<in> locks_on T False r" for r j
    using assms(1) by (simp add: consistent_def)
  then have "B (ml_Resource l) = Some i"
    using assms(2,3) by (simp add: locks_on_def)
  then have one: "j \<in> locks_on T False (ml_Resource l) \<longleftrightarrow> j = i" for j
    using bi [of "ml_Resource l" j] by auto
  have other: "i \<notin> locks_on T False r" if "r \<noteq> ml_Resource l" for r
    using that assms(2) by (simp add: locks_on_def)
  have "i \<notin> locks_on T True r" for r
    using assms(2,3) by (simp add: locks_on_def)
  then show ?thesis
    using assms(1) bi one other exclusion_drop
    by (auto simp: consistent_def locks_on_drop split: if_splits)
qed

lemma consistent_drop_shared:
  assumes "consistent T B M" and "T i = Some l" and "ml_Shared l" and "M (ml_Resource l) = Some ids"
  shows "consistent (T(i := None)) B
    (M(ml_Resource l := (if removeAll i ids = [] then None else Some (removeAll i ids))))"
    (is "consistent _ _ ?M")
proof -
  have "elements (?M r) = removeAll i (elements (M r))" for r
  proof (cases "r = ml_Resource l")
    case False
    then have "i \<notin> set (elements (M r))"
      using assms(1,2) by (auto simp: consistent_def locks_on_def)
    with False show ?thesis by simp
  qed (simp add: assms(4))
  moreover have "i \<notin> locks_on T False r" for r
    using assms(2,3) by (simp add: locks_on_def)
  ultimately show ?thesis
    using assms(1) exclusion_drop
    by (auto simp: consistent_def locks_on_drop distinct_removeAll simp del: fun_upd_apply split: if_splits)
       (auto split: if_splits)
qed

lemma drop_lock_wf:
  assumes "wf_backend b" and "table b i = Some l"
  shows "wf_backend (drop_lock i l b)"
proof (cases "ml_Shared l")
  case False
  with assms consistent_drop_exclusive show ?thesis
    by (simp add: wf_backend_def drop_lock_def releaseFromIndexLocked_def gomap_simps)
next
  case True
  have id: "ml_ID l = i" and "i \<in> set (elements (map_of (mb_sharedRes b) (ml_Resource l)))"
    using assms True by (simp_all add: wf_backend_def consistent_def locks_on_def)
  then obtain ids where ids: "map_of (mb_sharedRes b) (ml_Resource l) = Some ids"
    by (cases "map_of (mb_sharedRes b) (ml_Resource l)") simp_all
  have "consistent (table b) (map_of (mb_byRes b)) (map_of (mb_sharedRes b))"
    using assms(1) by (simp add: wf_backend_def)
  from consistent_drop_shared [OF this assms(2) True ids] show ?thesis
    using assms(1) True ids id
    by (simp add: wf_backend_def drop_lock_def releaseFromIndexLocked_def gomap_simps Let_def
        split: if_splits)
qed

subsection \<open>Expiry\<close>

definition live :: "instant \<Rightarrow> (string \<Rightarrow> memLock option) \<Rightarrow> string \<Rightarrow> memLock option" where
  "live now T i = (case T i of None \<Rightarrow> None | Some l \<Rightarrow> if now < ml_ExpiresAt l then Some l else None)"

lemma expire_fold:
  assumes "wf_backend b" and "wf_map xs" and "\<forall>(i, l) \<in> set xs. table b i = Some l"
  shows "wf_backend (fold (expire_step now) xs b) \<and>
    table (fold (expire_step now) xs b) = (\<lambda>i. if i \<in> keys xs then live now (table b) i else table b i)"
  using assms
proof (induction xs arbitrary: b)
  case Nil
  then show ?case by simp
next
  case (Cons e xs)
  obtain i l where e: "e = (i, l)" by (cases e)
  let ?b = "expire_step now e b"
  have T: "table b i = Some l" and fresh: "i \<notin> keys xs" using Cons.prems e by auto
  have tb: "table ?b = (if now < ml_ExpiresAt l then table b else (table b)(i := None))"
    by (simp add: e expire_step_def drop_lock_table)
  have "wf_backend ?b"
    using drop_lock_wf [OF Cons.prems(1) T] Cons.prems(1) by (simp add: e expire_step_def)
  moreover have "\<forall>(j, k) \<in> set xs. table ?b j = Some k"
  proof clarify
    fix j k assume "(j, k) \<in> set xs"
    then have "table b j = Some k" and "j \<noteq> i" using Cons.prems(3) fresh by force+
    then show "table ?b j = Some k" by (simp add: tb)
  qed
  ultimately have IH: "wf_backend (fold (expire_step now) xs ?b) \<and>
    table (fold (expire_step now) xs ?b) = (\<lambda>i. if i \<in> keys xs then live now (table ?b) i else table ?b i)"
    using Cons.IH Cons.prems(2) by simp
  moreover have "(if j \<in> keys xs then live now (table ?b) j else table ?b j)
      = (if j \<in> keys (e # xs) then live now (table b) j else table b j)" for j
    unfolding tb using T fresh by (auto simp: e live_def)
  ultimately show ?case by simp
qed

lemma expireLocked_spec:
  assumes "wf_backend b"
  shows "wf_backend (expireLocked now b)" and "table (expireLocked now b) = live now (table b)"
proof -
  have wf: "wf_map (mb_locks b)" using assms by (simp add: wf_backend_def)
  then have m: "\<forall>(i, l) \<in> set (mb_locks b). table b i = Some l"
    by auto
  note F = expire_fold [OF assms wf m, of now]
  show "wf_backend (expireLocked now b)" using F by (simp add: expireLocked_def)
  have "i \<notin> keys (mb_locks b) \<Longrightarrow> live now (table b) i = table b i" for i
    by (simp add: live_def map_of_eq_None_iff [symmetric] split: option.splits)
  then show "table (expireLocked now b) = live now (table b)"
    using F unfolding expireLocked_def by fastforce
qed



subsection \<open>What an operation does to the lock table\<close>

text \<open>
  The specification of the backend is a function on the lock table alone, with no index:
  expire, look for a lock that stands in the way, record the new lock.
\<close>

datatype acquire_outcome = Refused lock_error | Blocked | Granted string

definition blocked :: "bool \<Rightarrow> (string \<Rightarrow> memLock option) \<Rightarrow> string \<Rightarrow> bool" where
  "blocked sh T r \<longleftrightarrow> locks_on T False r \<noteq> {} \<or> \<not> sh \<and> locks_on T True r \<noteq> {}"

definition spec_acquire ::
  "bool \<Rightarrow> lock_env \<Rightarrow> string \<Rightarrow> string \<Rightarrow> string \<Rightarrow> instant \<Rightarrow> (string \<Rightarrow> memLock option) \<Rightarrow>
    acquire_outcome \<times> (string \<Rightarrow> memLock option)"
where
  "spec_acquire sh e r owner site ttl T =
    (if r = [] \<or> owner = [] then (Refused EmptyArgument, T)
     else let L = live (le_now e) T
          in if blocked sh L r then (Blocked, L)
             else (case randID e of
                     None \<Rightarrow> (Refused RandFailed, L)
                   | Some i \<Rightarrow> (Granted i, L(i \<mapsto> \<lparr> ml_ID = i, ml_Resource = r, ml_Owner = owner,
                        ml_Site = site, ml_ExpiresAt = le_now2 e + ttl, ml_Shared = sh \<rparr>))))"

text \<open>
  A refusal names a lock that stands in the way: its owner, with the number of further
  shared holders when there are any, and its site.
\<close>

definition reports :: "(string \<Rightarrow> memLock option) \<Rightarrow> string \<Rightarrow> Holder \<Rightarrow> bool" where
  "reports T r h \<longleftrightarrow>
    (\<exists>i l. T i = Some l \<and> ml_Resource l = r \<and> h_Site h = ml_Site l \<and>
       (h_Owner h = ml_Owner l \<and> (ml_Shared l \<longrightarrow> locks_on T True r = {i}) \<or>
        ml_Shared l \<and> h_Owner h = ml_Owner l @ '' +'' @ itoa (card (locks_on T True r) - 1)))"

fun meets :: "(string \<Rightarrow> memLock option) \<Rightarrow> string \<Rightarrow> acquire_outcome \<Rightarrow> lock_error + string \<Rightarrow> bool" where
  "meets T r (Refused x) res \<longleftrightarrow> res = Inl x"
| "meets T r Blocked res \<longleftrightarrow> (\<exists>h. res = Inl (ErrBusy h) \<and> reports T r h)"
| "meets T r (Granted i) res \<longleftrightarrow> res = Inr i"

abbreviation fresh_id :: "lock_env \<Rightarrow> (string \<Rightarrow> memLock option) \<Rightarrow> bool" where
  "fresh_id e T \<equiv> (\<forall>i. randID e = Some i \<longrightarrow> T i = None)"

lemma live_sub: "live now T i = Some l \<Longrightarrow> T i = Some l"
  by (auto simp: live_def split: option.splits if_splits)

lemma locks_on_upd:
  "T i = None \<Longrightarrow> locks_on (T(i \<mapsto> l)) sh r =
    locks_on T sh r \<union> (if ml_Shared l = sh \<and> ml_Resource l = r then {i} else {})"
  by (auto simp: locks_on_def)

lemma exclusion_upd:
  assumes "exclusion T" and "T i = None" and "\<not> blocked (ml_Shared l) T (ml_Resource l)"
  shows "exclusion (T(i \<mapsto> l))"
  unfolding exclusion_def
proof (intro allI impI)
  fix a la c lc
  assume A: "(T(i \<mapsto> l)) a = Some la" "\<not> ml_Shared la"
    and C: "(T(i \<mapsto> l)) c = Some lc" "ml_Resource lc = ml_Resource la"
  have nb: "T j = Some k \<Longrightarrow> ml_Resource k = ml_Resource l \<Longrightarrow> ml_Shared k \<and> ml_Shared l" for j k
    using assms(3) by (cases "ml_Shared k") (auto simp: blocked_def locks_on_def)
  show "c = a"
  proof (cases "a = i"; cases "c = i")
    assume "a \<noteq> i" "c \<noteq> i"
    with A C assms(1) show ?thesis unfolding exclusion_def by simp
  qed (use A C nb in auto)
qed

lemma index_byRes: "wf_backend b \<Longrightarrow> map_of (mb_byRes b) r = Some i \<longleftrightarrow> i \<in> locks_on (table b) False r"
  by (simp add: wf_backend_def consistent_def)

lemma index_byRes_None: "wf_backend b \<Longrightarrow> map_of (mb_byRes b) r = None \<longleftrightarrow> locks_on (table b) False r = {}"
  using index_byRes [of b r] by (cases "map_of (mb_byRes b) r") auto

lemma index_shared: "wf_backend b \<Longrightarrow> set (shared_of b r) = locks_on (table b) True r"
  by (simp add: wf_backend_def consistent_def shared_of_def)

lemma busy_exclusive_reports:
  assumes "wf_backend b" and "map_of (mb_byRes b) r = Some i"
  shows "\<exists>h. busy_exclusive i b = ErrBusy h \<and> reports (table b) r h"
proof -
  obtain l where "table b i = Some l" "ml_Resource l = r" "\<not> ml_Shared l"
    using assms by (auto simp: index_byRes locks_on_def)
  then show ?thesis by (auto simp: busy_exclusive_def reports_def)
qed

lemma busy_shared_reports:
  assumes "wf_backend b" and "shared_of b r \<noteq> []"
  shows "\<exists>h. busy_shared p (shared_of b r) b = ErrBusy h \<and> reports (table b) r h"
proof -
  let ?ids = "shared_of b r"
  let ?i = "?ids ! (p mod length ?ids)"
  have "?i \<in> set ?ids" using assms(2) by simp
  then obtain l where l: "table b ?i = Some l" "ml_Resource l = r" "ml_Shared l"
    using index_shared [OF assms(1), of r] by (auto simp: locks_on_def)
  have "distinct ?ids" using assms(1) by (simp add: wf_backend_def consistent_def shared_of_def)
  then have card: "card (locks_on (table b) True r) = length ?ids"
    using index_shared [OF assms(1), of r] distinct_card by metis
  have "locks_on (table b) True r = {?i}" if "length ?ids - 1 = 0"
  proof -
    have "length ?ids = 1" using that assms(2) by (cases ?ids) auto
    then obtain x where "?ids = [x]" by (metis One_nat_def length_0_conv length_Suc_conv)
    then show ?thesis using index_shared [OF assms(1), of r] by simp
  qed
  then show ?thesis
    using l card by (auto simp: busy_shared_def reports_def Let_def)
qed


lemma consistent_add_exclusive:
  assumes C: "consistent T B M" and T: "T i = None" and nb: "\<not> blocked False T (ml_Resource l)"
    and l: "ml_ID l = i" "\<not> ml_Shared l"
  shows "consistent (T(i \<mapsto> l)) (B(ml_Resource l \<mapsto> i)) M"
proof -
  have "exclusion (T(i \<mapsto> l))"
    using C T nb l by (intro exclusion_upd) (simp_all add: consistent_def)
  then show ?thesis
    using C T nb l by (auto simp: consistent_def locks_on_upd blocked_def split: if_splits)
qed

lemma consistent_add_shared:
  assumes C: "consistent T B M" and T: "T i = None" and nb: "\<not> blocked True T (ml_Resource l)"
    and l: "ml_ID l = i" "ml_Shared l"
  shows "consistent (T(i \<mapsto> l)) B (M(ml_Resource l \<mapsto> List.insert i (elements (M (ml_Resource l)))))"
proof -
  have "exclusion (T(i \<mapsto> l))"
    using C T nb l by (intro exclusion_upd) (simp_all add: consistent_def)
  moreover have "List.insert i xs \<noteq> []" for xs by (auto simp: List.insert_def)
  ultimately show ?thesis
    using C T nb l by (auto simp: consistent_def locks_on_upd blocked_def split: if_splits)
qed

lemma fresh_live: "fresh_id e T \<Longrightarrow> randID e = Some i \<Longrightarrow> live now T i = None"
  by (simp add: live_def)

lemma Acquire_refines:
  assumes "wf_backend b" and "fresh_id e (table b)"
  shows "meets (live (le_now e) (table b)) r (fst (spec_acquire False e r ow st ttl (table b)))
           (fst (Acquire e r ow st ttl b))"
    and "table (snd (Acquire e r ow st ttl b)) = snd (spec_acquire False e r ow st ttl (table b))"
    and "wf_backend (snd (Acquire e r ow st ttl b))"
proof -
  let ?b = "expireLocked (le_now e) b"
  note x = expireLocked_spec [OF assms(1), of "le_now e"]
  have br: "map_of (mb_byRes ?b) r = None \<longleftrightarrow> locks_on (live (le_now e) (table b)) False r = {}"
    using index_byRes_None [OF x(1)] x(2) by simp
  have sh: "shared_of ?b r = [] \<longleftrightarrow> locks_on (live (le_now e) (table b)) True r = {}"
    using index_shared [OF x(1)] x(2) by (metis set_empty)
  note be = busy_exclusive_reports [OF x(1), of r, unfolded x(2)]
  note bs = busy_shared_reports [OF x(1), of r "le_pick e", unfolded x(2)]
  show "meets (live (le_now e) (table b)) r (fst (spec_acquire False e r ow st ttl (table b)))
           (fst (Acquire e r ow st ttl b))"
    using be bs br sh by (auto simp: Acquire_def spec_acquire_def Let_def blocked_def split: option.splits)
  show "table (snd (Acquire e r ow st ttl b)) = snd (spec_acquire False e r ow st ttl (table b))"
    using br sh by (auto simp: Acquire_def spec_acquire_def Let_def blocked_def x gomap_simps split: option.splits)
  show "wf_backend (snd (Acquire e r ow st ttl b))"
    using assms x br sh fresh_live [OF assms(2)]
    by (auto simp: Acquire_def Let_def blocked_def wf_backend_def gomap_simps
        intro!: consistent_add_exclusive [of _ _ _ _ "\<lparr> ml_ID = _, ml_Resource = _, ml_Owner = _,
          ml_Site = _, ml_ExpiresAt = _, ml_Shared = _ \<rparr>", simplified] split: option.splits)
qed

lemma AcquireShared_refines:
  assumes "wf_backend b" and "fresh_id e (table b)"
  shows "meets (live (le_now e) (table b)) r (fst (spec_acquire True e r ow st ttl (table b)))
           (fst (AcquireShared e r ow st ttl b))"
    and "table (snd (AcquireShared e r ow st ttl b)) = snd (spec_acquire True e r ow st ttl (table b))"
    and "wf_backend (snd (AcquireShared e r ow st ttl b))"
proof -
  let ?b = "expireLocked (le_now e) b"
  note x = expireLocked_spec [OF assms(1), of "le_now e"]
  have br: "map_of (mb_byRes ?b) r = None \<longleftrightarrow> locks_on (live (le_now e) (table b)) False r = {}"
    using index_byRes_None [OF x(1)] x(2) by simp
  note be = busy_exclusive_reports [OF x(1), of r, unfolded x(2)]
  show "meets (live (le_now e) (table b)) r (fst (spec_acquire True e r ow st ttl (table b)))
           (fst (AcquireShared e r ow st ttl b))"
    using be br by (auto simp: AcquireShared_def spec_acquire_def Let_def blocked_def split: option.splits)
  show "table (snd (AcquireShared e r ow st ttl b)) = snd (spec_acquire True e r ow st ttl (table b))"
    using br by (auto simp: AcquireShared_def spec_acquire_def Let_def blocked_def x gomap_simps split: option.splits)
  show "wf_backend (snd (AcquireShared e r ow st ttl b))"
    using assms x br fresh_live [OF assms(2)]
    by (auto simp: AcquireShared_def Let_def blocked_def wf_backend_def gomap_simps shared_of_def
        intro!: consistent_add_shared [of _ _ _ _ "\<lparr> ml_ID = _, ml_Resource = _, ml_Owner = _,
          ml_Site = _, ml_ExpiresAt = _, ml_Shared = _ \<rparr>", simplified] split: option.splits)
qed

definition spec_release :: "lock_env \<Rightarrow> string \<Rightarrow> (string \<Rightarrow> memLock option) \<Rightarrow>
    (lock_error + unit) \<times> (string \<Rightarrow> memLock option)" where
  "spec_release e i T =
    (let L = live (le_now e) T
     in (case L i of None \<Rightarrow> (Inl ErrNotFound, L) | Some l \<Rightarrow> (Inr (), L(i := None))))"

definition spec_renew :: "lock_env \<Rightarrow> string \<Rightarrow> instant \<Rightarrow> (string \<Rightarrow> memLock option) \<Rightarrow>
    (lock_error + unit) \<times> (string \<Rightarrow> memLock option)" where
  "spec_renew e i ttl T =
    (let L = live (le_now e) T
     in (case L i of None \<Rightarrow> (Inl ErrExpired, L)
                   | Some l \<Rightarrow> (Inr (), L(i \<mapsto> l\<lparr> ml_ExpiresAt := le_now2 e + ttl \<rparr>))))"

lemma Release_refines:
  assumes "wf_backend b"
  shows "fst (Release e i b) = fst (spec_release e i (table b))"
    and "table (snd (Release e i b)) = snd (spec_release e i (table b))"
    and "wf_backend (snd (Release e i b))"
  using expireLocked_spec [OF assms, of "le_now e"] drop_lock_wf
  by (auto simp: Release_def spec_release_def Let_def drop_lock_table split: option.splits)

lemma locks_on_same:
  "T i = Some l \<Longrightarrow> ml_Shared l' = ml_Shared l \<Longrightarrow> ml_Resource l' = ml_Resource l \<Longrightarrow>
    locks_on (T(i \<mapsto> l')) sh r = locks_on T sh r"
  by (auto simp: locks_on_def)

lemma consistent_same:
  assumes "consistent T B M" and "T i = Some l"
    and "ml_ID l' = ml_ID l" "ml_Shared l' = ml_Shared l" "ml_Resource l' = ml_Resource l"
  shows "consistent (T(i \<mapsto> l')) B M"
proof -
  have "exclusion T" using assms(1) by (simp add: consistent_def)
  then have "exclusion (T(i \<mapsto> l'))"
    using assms(2,4,5) unfolding exclusion_def fun_upd_apply by (metis option.inject)
  then show ?thesis
    using assms locks_on_same [of T i l l', OF assms(2,4,5)] by (simp add: consistent_def)
qed

lemma Renew_refines:
  assumes "wf_backend b"
  shows "fst (Renew e i ttl b) = fst (spec_renew e i ttl (table b))"
    and "table (snd (Renew e i ttl b)) = snd (spec_renew e i ttl (table b))"
    and "wf_backend (snd (Renew e i ttl b))"
  using expireLocked_spec [OF assms, of "le_now e"] consistent_same
  by (auto simp: Renew_def spec_renew_def Let_def gomap_simps wf_backend_def split: option.splits)


subsection \<open>Delivery of events\<close>

lemma length_update: "length (AList.update k v m) = (if k \<in> keys m then length m else Suc (length m))"
  by (induction m) auto

text \<open>The buffer of a channel, and the subscriptions no cancellation has closed.\<close>

definition buffer :: "MemoryBackend \<Rightarrow> nat \<Rightarrow> Event list" where
  "buffer b c = (case map_of (mb_chans b) c of None \<Rightarrow> [] | Some ch \<Rightarrow> ch_buf ch)"

definition wf_bus :: "MemoryBackend \<Rightarrow> bool" where
  "wf_bus b \<longleftrightarrow>
     (\<forall>r. distinct (publish_snapshot r b)) \<and>
     (\<forall>r q c. c \<in> set (publish_snapshot r b) \<longrightarrow> c \<in> set (publish_snapshot q b) \<longrightarrow> r = q) \<and>
     (\<forall>r. \<forall>c \<in> set (publish_snapshot r b). \<exists>ch. map_of (mb_chans b) c = Some ch \<and> \<not> ch_closed ch) \<and>
     keys (mb_chans b) = {..< length (mb_chans b)}"

abbreviation is_open :: "MemoryBackend \<Rightarrow> nat \<Rightarrow> bool" where
  "is_open b c \<equiv> (\<exists>ch. map_of (mb_chans b) c = Some ch \<and> \<not> ch_closed ch)"

lemma send_event_open:
  assumes "is_open b c"
  obtains b' where "send_event c evt b = Some b'" and "mb_subs b' = mb_subs b" and "mb_locks b' = mb_locks b"
    and "\<And>d. buffer b' d =
          (if d = c \<and> length (buffer b c) < chan_cap then buffer b c @ [evt] else buffer b d)"
    and "\<And>d. is_open b' d \<longleftrightarrow> is_open b d"
proof -
  obtain ch where ch: "map_of (mb_chans b) c = Some ch" "\<not> ch_closed ch" using assms by auto
  let ?b = "if length (ch_buf ch) < chan_cap
            then b\<lparr> mb_chans := AList.update c (ch\<lparr> ch_buf := ch_buf ch @ [evt] \<rparr>) (mb_chans b) \<rparr> else b"
  have "send_event c evt b = Some ?b" using ch by (simp add: send_event_def)
  moreover have "buffer ?b d =
      (if d = c \<and> length (buffer b c) < chan_cap then buffer b c @ [evt] else buffer b d)" for d
    using ch by (auto simp: buffer_def gomap_simps)
  moreover have "is_open ?b d \<longleftrightarrow> is_open b d" for d
    using ch by (auto simp: gomap_simps)
  ultimately show thesis using that [of ?b] by simp
qed

lemma send_all_open:
  assumes "distinct cs" and "\<forall>c \<in> set cs. is_open b c"
  shows "\<exists>b'. send_all cs evt b = Some b' \<and> mb_subs b' = mb_subs b \<and> mb_locks b' = mb_locks b \<and>
    (\<forall>c. buffer b' c = (if c \<in> set cs \<and> length (buffer b c) < chan_cap then buffer b c @ [evt] else buffer b c))"
  using assms
proof (induction cs arbitrary: b)
  case Nil
  then show ?case by simp
next
  case (Cons c cs)
  then have "is_open b c" by simp
  then obtain b1 where b1: "send_event c evt b = Some b1" "mb_subs b1 = mb_subs b" "mb_locks b1 = mb_locks b"
    and buf: "\<And>d. buffer b1 d =
          (if d = c \<and> length (buffer b c) < chan_cap then buffer b c @ [evt] else buffer b d)"
    and op: "\<And>d. is_open b1 d \<longleftrightarrow> is_open b d"
    by (rule send_event_open [where evt = evt]) blast
  have "\<forall>d \<in> set cs. is_open b1 d" using Cons.prems(2) op by simp
  with Cons.IH [of b1] Cons.prems(1) obtain b2 where b2: "send_all cs evt b1 = Some b2"
    "mb_subs b2 = mb_subs b1" "mb_locks b2 = mb_locks b1"
    "\<And>c. buffer b2 c = (if c \<in> set cs \<and> length (buffer b1 c) < chan_cap then buffer b1 c @ [evt] else buffer b1 c)"
    by auto
  have "c \<notin> set cs" using Cons.prems(1) by simp
  then show ?case using b1 b2 by (auto simp: buf)
qed

lemma Publish_ok:
  assumes "wf_bus b"
  obtains b' where "Publish r t p b = (Inr (), b')" and "mb_subs b' = mb_subs b" and "mb_locks b' = mb_locks b"
    and "\<And>c. buffer b' c = (if c \<in> set (publish_snapshot r b) \<and> length (buffer b c) < chan_cap
          then buffer b c @ [\<lparr> ev_Resource = r, ev_Type = t, ev_Payload = p \<rparr>] else buffer b c)"
proof -
  have "distinct (publish_snapshot r b)"
    "\<forall>c \<in> set (publish_snapshot r b). \<exists>ch. map_of (mb_chans b) c = Some ch \<and> \<not> ch_closed ch"
    using assms by (simp_all add: wf_bus_def)
  from send_all_open [OF this, of "\<lparr> ev_Resource = r, ev_Type = t, ev_Payload = p \<rparr>"] that show ?thesis
    by (auto simp: Publish_def)
qed

text \<open>Ending a registered subscription closes its channel and keeps the others; a receive only takes an event.\<close>

lemma cancel_registered:
  assumes "wf_bus b" and "c \<in> set (publish_snapshot r b)"
  shows "fst (cancel r c b) = Inr () \<and> wf_bus (snd (cancel r c b))"
proof -
  from assms have "is_open b c" by (simp add: wf_bus_def)
  then obtain ch where ch: "map_of (mb_chans b) c = Some ch" "\<not> ch_closed ch" by blast
  let ?b = "cancel_locked r c b"
  have chans: "mb_chans ?b = mb_chans b"
    by (simp add: cancel_locked_def Let_def split: option.split)
  define b' where "b' = ?b\<lparr> mb_chans := AList.update c (ch\<lparr> ch_closed := True \<rparr>) (mb_chans b) \<rparr>"
  have can: "cancel r c b = (Inr (), b')"
    using ch by (simp add: cancel_def cancel_close_def chans b'_def)
  have sn: "publish_snapshot q b' = (if q = r then removeAll c (publish_snapshot q b) else publish_snapshot q b)" for q
    by (auto simp: b'_def publish_snapshot_def cancel_locked_def Let_def gomap_simps split: option.split)
  have op: "is_open b' d \<longleftrightarrow> d \<noteq> c \<and> is_open b d" for d by (auto simp: b'_def gomap_simps)
  have "c \<in> keys (mb_chans b)" using map_of_SomeD [OF ch(1)] by force
  then have "keys (mb_chans b') = {..< length (mb_chans b')}"
    using assms(1) by (simp add: b'_def wf_bus_def dom_update insert_absorb length_update)
  moreover have "c \<notin> set (publish_snapshot q b)" if "q \<noteq> r" for q
    using assms that by (auto simp: wf_bus_def)
  ultimately have "wf_bus b'"
    using assms(1) unfolding wf_bus_def sn op by (auto simp: distinct_removeAll split: if_splits)
  then show ?thesis by (simp add: can)
qed

lemma receive_bus:
  assumes "wf_bus b"
  shows "wf_bus (snd (receive c b))"
proof (cases "fst (receive c b)")
  case None
  then have "snd (receive c b) = b" by (auto simp: receive_def split: option.splits list.splits)
  with assms show ?thesis by simp
next
  case (Some evt)
  then obtain ch evts where ch: "map_of (mb_chans b) c = Some ch" "ch_buf ch = evt # evts"
    by (auto simp: receive_def split: option.splits list.splits)
  let ?b = "b\<lparr> mb_chans := AList.update c (ch\<lparr> ch_buf := evts \<rparr>) (mb_chans b) \<rparr>"
  have r: "snd (receive c b) = ?b" using ch by (simp add: receive_def)
  have "is_open ?b d \<longleftrightarrow> is_open b d" for d using ch by (auto simp: gomap_simps)
  moreover have "c \<in> keys (mb_chans b)" using map_of_SomeD [OF ch(1)] by force
  ultimately show ?thesis
    using assms unfolding r wf_bus_def
    by (simp add: publish_snapshot_def dom_update insert_absorb length_update)
qed

subsection \<open>Publishing beside a cancellation\<close>

text \<open>
  \<^verbatim>\<open>Publish\<close> releases the mutex before it sends, and the cancel function of \<^verbatim>\<open>Subscribe\<close>
  closes the channel after it has released the mutex, so the two run interleaved: the
  state holds the publications with the channels still to send to, and the cancellations
  still to close.
\<close>

record bus =
  bus_backend :: MemoryBackend
  bus_sends :: "(Event \<times> nat list) list"
  bus_closes :: "nat list"
  bus_panic :: bool

definition bus_init :: bus where
  "bus_init = \<lparr> bus_backend = NewMemoryBackend, bus_sends = [], bus_closes = [], bus_panic = False \<rparr>"

inductive bus_step :: "bus \<Rightarrow> bus \<Rightarrow> bool" where
  subscribe: "Subscribe r (bus_backend s) = (Inr c, b) \<Longrightarrow> bus_step s (s\<lparr> bus_backend := b \<rparr>)"
| publish: "bus_step s (s\<lparr> bus_sends := bus_sends s @
      [(\<lparr> ev_Resource = r, ev_Type = t, ev_Payload = p \<rparr>, publish_snapshot r (bus_backend s))] \<rparr>)"
| send: "k < length (bus_sends s) \<Longrightarrow> bus_sends s ! k = (evt, c # cs) \<Longrightarrow>
    send_event c evt (bus_backend s) = Some b \<Longrightarrow>
    bus_step s (s\<lparr> bus_backend := b, bus_sends := (bus_sends s)[k := (evt, cs)] \<rparr>)"
| send_panic: "k < length (bus_sends s) \<Longrightarrow> bus_sends s ! k = (evt, c # cs) \<Longrightarrow>
    send_event c evt (bus_backend s) = None \<Longrightarrow> bus_step s (s\<lparr> bus_panic := True \<rparr>)"
| cancel: "c \<in> set (publish_snapshot r (bus_backend s)) \<Longrightarrow>
    bus_step s (s\<lparr> bus_backend := cancel_locked r c (bus_backend s), bus_closes := bus_closes s @ [c] \<rparr>)"
| close: "c \<in> set (bus_closes s) \<Longrightarrow> cancel_close c (bus_backend s) = Some b \<Longrightarrow>
    bus_step s (s\<lparr> bus_backend := b, bus_closes := remove1 c (bus_closes s) \<rparr>)"

text \<open>
  C14. The process that serves locks can die by a send on a closed channel: there is an
  interleaving of one subscription, one publication and the cancellation of that
  subscription that ends in the panic, because \<^verbatim>\<open>Publish\<close> sends after it has released
  the mutex while the cancellation closes the channel.
\<close>

theorem publish_races_cancel:
  "\<exists>s. bus_step\<^sup>*\<^sup>* bus_init s \<and> bus_panic s"
proof -
  define r t p :: string where "r = ''mbox''" and "t = ''changed''" and "p = []"
  let ?e = "\<lparr> ev_Resource = r, ev_Type = t, ev_Payload = p \<rparr>"
  let ?b1 = "NewMemoryBackend\<lparr> mb_chans := [(0, \<lparr> ch_buf = [], ch_closed = False \<rparr>)], mb_subs := [(r, [0])] \<rparr>"
  let ?b2 = "NewMemoryBackend\<lparr> mb_chans := [(0, \<lparr> ch_buf = [], ch_closed = False \<rparr>)] \<rparr>"
  let ?b3 = "NewMemoryBackend\<lparr> mb_chans := [(0, \<lparr> ch_buf = [], ch_closed = True \<rparr>)] \<rparr>"
  let ?s = "\<lambda>b ss cs. \<lparr> bus_backend = b, bus_sends = ss, bus_closes = cs, bus_panic = False \<rparr>"
  have 1: "bus_step bus_init (?s ?b1 [] [])"
    using subscribe [of r bus_init 0 ?b1] by (simp add: bus_init_def Subscribe_def NewMemoryBackend_def)
  have 2: "bus_step (?s ?b1 [] []) (?s ?b1 [(?e, [0])] [])"
    using publish [of "?s ?b1 [] []" r t p] by (simp add: publish_snapshot_def)
  have 3: "bus_step (?s ?b1 [(?e, [0])] []) (?s ?b2 [(?e, [0])] [0])"
    using cancel [of 0 r "?s ?b1 [(?e, [0])] []"]
    by (simp add: publish_snapshot_def cancel_locked_def NewMemoryBackend_def)
  have 4: "bus_step (?s ?b2 [(?e, [0])] [0]) (?s ?b3 [(?e, [0])] [])"
    using close [of 0 "?s ?b2 [(?e, [0])] [0]" ?b3] by (simp add: cancel_close_def)
  have 5: "bus_step (?s ?b3 [(?e, [0])] []) ((?s ?b3 [(?e, [0])] [])\<lparr> bus_panic := True \<rparr>)"
    using send_panic [of 0 "?s ?b3 [(?e, [0])] []" ?e 0 "[]"] by (simp add: send_event_def)
  from 1 2 3 4 5 have "bus_step\<^sup>*\<^sup>* bus_init ((?s ?b3 [(?e, [0])] [])\<lparr> bus_panic := True \<rparr>)"
    by (meson rtranclp.rtrancl_into_rtrancl rtranclp.rtrancl_refl)
  moreover have "bus_panic ((?s ?b3 [(?e, [0])] [])\<lparr> bus_panic := True \<rparr>)" by simp
  ultimately show ?thesis by blast
qed

end
