(* ===== verification/Lock_Server.thy ===== *)
theory Lock_Server
  imports Lock_Service
begin

text \<open>
  The lock server: the keys of \<^verbatim>\<open>pkg/locks/resources.go\<close>, the owner strings of \<^verbatim>\<open>owner.go\<close>,
  the wire protocol of \<^verbatim>\<open>proto.go\<close> and the connection handlers of \<^verbatim>\<open>server.go\<close>. The server
  is written against the interface \<^verbatim>\<open>Backend\<close> of \<^verbatim>\<open>locks.go\<close>, so its handlers take a record
  of operations; the locale \<open>lock_backend\<close> states what they rely on, and the in-memory
  backend interprets it.
\<close>

subsection \<open>Lock keys\<close>

definition IndexKey :: "string \<Rightarrow> string" where "IndexKey user = ''idx:'' @ user"
definition MdboxMapKey :: "string \<Rightarrow> string" where "MdboxMapKey user = ''mdboxmap:'' @ user"
definition MailboxKey :: "string \<Rightarrow> string \<Rightarrow> string" where
  "MailboxKey user folder = ''mbox:'' @ user @ '':'' @ folder"
definition FTSKey :: "string \<Rightarrow> string \<Rightarrow> string" where
  "FTSKey user folder = ''fts:'' @ user @ '':'' @ folder"
definition MailboxListKey :: "string \<Rightarrow> string" where "MailboxListKey user = ''mlist:'' @ user"
definition DeliverKey :: "string \<Rightarrow> string \<Rightarrow> string" where
  "DeliverKey user folder = ''deliver:'' @ user @ '':'' @ folder"
definition SieveScriptsKey :: "string \<Rightarrow> string" where "SieveScriptsKey user = ''sieve:'' @ user"
definition ThreadsKey :: "string \<Rightarrow> string" where "ThreadsKey user = ''threads:'' @ user"
definition SubscriptionsKey :: "string \<Rightarrow> string" where "SubscriptionsKey user = ''subs:'' @ user"
definition ACLListKey :: "string \<Rightarrow> string" where "ACLListKey home = ''acllist:'' @ home"

subsection \<open>Owners\<close>

text \<open>
  The process name, its pid and the process-wide fallback id come from the running
  process, so they are arguments. \<^verbatim>\<open>underTest\<close> is false outside \<^verbatim>\<open>go test\<close>; the log lines
  are left out.
\<close>

record process =
  pr_name :: string
  pr_pid :: nat
  pr_anon :: string

definition owner_string :: "process \<Rightarrow> string \<Rightarrow> string \<Rightarrow> string" where
  "owner_string pr user i = pr_name pr @ ''/'' @ itoa (pr_pid pr) @ ''/'' @ user @ ''/'' @ i"

definition Owner :: "process \<Rightarrow> string \<Rightarrow> string \<Rightarrow> string" where
  "Owner pr user sessionID =
    owner_string pr user (if sessionID = [] then pr_anon pr else sessionID)"

definition NewID :: "string \<Rightarrow> string" where
  "NewID rnd = hex_encode rnd"

definition anonID :: "string \<Rightarrow> string" where
  "anonID rnd = ''noid-'' @ NewID rnd"

definition ownerWellFormed :: "string \<Rightarrow> bool" where
  "ownerWellFormed owner =
    (let parts = split_byte (CHR ''/'') owner
     in if length parts \<noteq> 4 then False
        else if list_ex (\<lambda>p. p = []) parts then False
        else atoi (parts ! 1) \<noteq> None)"

definition repairOwner :: "process \<Rightarrow> string \<Rightarrow> string" where
  "repairOwner pr owner =
    (let u = map (\<lambda>c. if c = CHR ''/'' then CHR '':'' else c) owner;
         user = (if u = [] then ''unknown'' else u)
     in owner_string pr user (pr_anon pr))"

definition CheckOwner :: "process \<Rightarrow> string \<Rightarrow> string" where
  "CheckOwner pr owner = (if ownerWellFormed owner then owner else repairOwner pr owner)"

definition SiteUnknown :: string where
  "SiteUnknown = ''unknown''"

subsection \<open>Wire protocol\<close>

datatype proto_error = ReadFailed | LineTooLong | EmptyLine | BadTTL | NonPositiveTTL

definition tab :: char where "tab = CHR 0x09"
definition lf :: char where "lf = CHR 0x0A"

definition protocolVersion :: string where "protocolVersion = ''1''"

definition maxLineLen :: nat where
  "maxLineLen = 8192"

definition readFields :: "string \<Rightarrow> (proto_error + string list) \<times> string" where
  "readFields input =
    (let body = takeWhile (\<lambda>c. c \<noteq> lf) input;
         rest = dropWhile (\<lambda>c. c \<noteq> lf) input
     in if rest = [] then (Inl ReadFailed, [])
        else let line = body @ [lf]
             in if length line > maxLineLen then (Inl LineTooLong, tl rest)
                else let line = trim_right line [lf]
                     in if line = [] then (Inl EmptyLine, tl rest)
                        else (Inr (split_byte tab line), tl rest))"

definition writeFields :: "string list \<Rightarrow> string option" where
  "writeFields fs =
    (if list_ex (\<lambda>f. contains_any f [tab, lf]) fs then None
     else Some (join_byte tab fs @ [lf]))"

definition millisecond :: int where
  "millisecond = 1000000"

definition formatTTL :: "instant \<Rightarrow> proto_error + string" where
  "formatTTL ttl =
    (if ttl \<le> 0 then Inl NonPositiveTTL else Inr (format_int (ttl div millisecond)))"

definition parseTTL :: "string \<Rightarrow> proto_error + instant" where
  "parseTTL s =
    (case atoi s of
       None \<Rightarrow> Inl BadTTL
     | Some ms \<Rightarrow> if ms \<le> 0 then Inl NonPositiveTTL else Inr (int64 (ms * millisecond)))"

subsection \<open>Server\<close>

text \<open>\<^verbatim>\<open>Subscribe\<close> returns a channel and a function: receiving from the one is \<open>be_Receive\<close>, calling the
  other is \<open>be_Cancel\<close>.\<close>

record 's Backend =
  be_Acquire :: "lock_env \<Rightarrow> string \<Rightarrow> string \<Rightarrow> string \<Rightarrow> instant \<Rightarrow> 's \<Rightarrow> (lock_error + string) \<times> 's"
  be_AcquireShared :: "lock_env \<Rightarrow> string \<Rightarrow> string \<Rightarrow> string \<Rightarrow> instant \<Rightarrow> 's \<Rightarrow> (lock_error + string) \<times> 's"
  be_Release :: "lock_env \<Rightarrow> string \<Rightarrow> 's \<Rightarrow> (lock_error + unit) \<times> 's"
  be_Renew :: "lock_env \<Rightarrow> string \<Rightarrow> instant \<Rightarrow> 's \<Rightarrow> (lock_error + unit) \<times> 's"
  be_Publish :: "string \<Rightarrow> string \<Rightarrow> string \<Rightarrow> 's \<Rightarrow> (lock_error + unit) \<times> 's"
  be_Subscribe :: "string \<Rightarrow> 's \<Rightarrow> (lock_error + nat) \<times> 's"
  be_Receive :: "nat \<Rightarrow> 's \<Rightarrow> Event option \<times> 's"
  be_Cancel :: "string \<Rightarrow> nat \<Rightarrow> 's \<Rightarrow> (lock_error + unit) \<times> 's"
  be_IncrementCounter :: "string \<Rightarrow> int \<Rightarrow> 's \<Rightarrow> (lock_error + int) \<times> 's"

text \<open>A reply is the line written, or \<open>None\<close> when nothing is written.\<close>

type_synonym reply = "string option"

definition respError :: "string \<Rightarrow> reply" where
  "respError what = writeFields [''ERROR'', what]"

text \<open>A panic inside the backend ends the process: nothing is written.\<close>

fun reply_internal :: "lock_error \<Rightarrow> reply" where
  "reply_internal NilDereference = None"
| "reply_internal SendOnClosed = None"
| "reply_internal CloseOfClosed = None"
| "reply_internal x = respError ''internal''"

fun reply_acquire :: "lock_error + string \<Rightarrow> reply" where
  "reply_acquire (Inr i) = writeFields [''OK'', i]"
| "reply_acquire (Inl (ErrBusy h)) = writeFields [''BUSY'', h_Owner h, h_Site h]"
| "reply_acquire (Inl x) = reply_internal x"

definition lock_site :: "string list \<Rightarrow> string" where
  "lock_site fs = (if length fs = 5 \<and> fs ! 4 \<noteq> [] then fs ! 4 else SiteUnknown)"

definition handleLock :: "'s Backend \<Rightarrow> lock_env \<Rightarrow> string list \<Rightarrow> 's \<Rightarrow> reply \<times> 's" where
  "handleLock B e fs s =
    (if length fs \<noteq> 4 \<and> length fs \<noteq> 5 then (respError ''bad_lock'', s)
     else case parseTTL (fs ! 3) of
            Inl _ \<Rightarrow> (respError ''bad_ttl'', s)
          | Inr ttl \<Rightarrow>
              (case be_Acquire B e (fs ! 1) (fs ! 2) (lock_site fs) ttl s of
                 (res, s') \<Rightarrow> (reply_acquire res, s')))"

definition handleLockShared :: "'s Backend \<Rightarrow> lock_env \<Rightarrow> string list \<Rightarrow> 's \<Rightarrow> reply \<times> 's" where
  "handleLockShared B e fs s =
    (if length fs \<noteq> 4 \<and> length fs \<noteq> 5 then (respError ''bad_lock'', s)
     else case parseTTL (fs ! 3) of
            Inl _ \<Rightarrow> (respError ''bad_ttl'', s)
          | Inr ttl \<Rightarrow>
              (case be_AcquireShared B e (fs ! 1) (fs ! 2) (lock_site fs) ttl s of
                 (res, s') \<Rightarrow> (reply_acquire res, s')))"

definition handleUnlock :: "'s Backend \<Rightarrow> lock_env \<Rightarrow> string list \<Rightarrow> 's \<Rightarrow> reply \<times> 's" where
  "handleUnlock B e fs s =
    (if length fs \<noteq> 2 then (respError ''bad_unlock'', s)
     else case be_Release B e (fs ! 1) s of
            (Inl ErrNotFound, s') \<Rightarrow> (writeFields [''NOT_FOUND''], s')
          | (Inl x, s') \<Rightarrow> (reply_internal x, s')
          | (Inr _, s') \<Rightarrow> (writeFields [''OK''], s'))"

definition handleRenew :: "'s Backend \<Rightarrow> lock_env \<Rightarrow> string list \<Rightarrow> 's \<Rightarrow> reply \<times> 's" where
  "handleRenew B e fs s =
    (if length fs \<noteq> 3 then (respError ''bad_renew'', s)
     else case parseTTL (fs ! 2) of
            Inl _ \<Rightarrow> (respError ''bad_ttl'', s)
          | Inr ttl \<Rightarrow>
              (case be_Renew B e (fs ! 1) ttl s of
                 (Inl ErrExpired, s') \<Rightarrow> (writeFields [''EXPIRED''], s')
               | (Inl x, s') \<Rightarrow> (reply_internal x, s')
               | (Inr _, s') \<Rightarrow> (writeFields [''OK''], s')))"

definition handleCounterInc :: "'s Backend \<Rightarrow> string list \<Rightarrow> 's \<Rightarrow> reply \<times> 's" where
  "handleCounterInc B fs s =
    (if length fs \<noteq> 3 then (respError ''bad_counter_inc'', s)
     else case atoi (fs ! 2) of
            None \<Rightarrow> (respError ''bad_delta'', s)
          | Some delta \<Rightarrow>
              (case be_IncrementCounter B (fs ! 1) delta s of
                 (Inl x, s') \<Rightarrow> (reply_internal x, s')
               | (Inr v, s') \<Rightarrow> (writeFields [''OK'', format_int v], s')))"

definition handleEmit :: "'s Backend \<Rightarrow> string list \<Rightarrow> 's \<Rightarrow> reply \<times> 's" where
  "handleEmit B fs s =
    (if length fs \<noteq> 4 then (respError ''bad_emit'', s)
     else case be_Publish B (fs ! 1) (fs ! 2) (fs ! 3) s of
            (Inl x, s') \<Rightarrow> (reply_internal x, s')
          | (Inr _, s') \<Rightarrow> (writeFields [''OK''], s'))"

text \<open>
  \<^verbatim>\<open>handleSubscribe\<close> up to the streaming loop, whose iteration on an event is
  \<open>stream_event\<close>: a write error ends the stream.
\<close>

definition handleSubscribe :: "'s Backend \<Rightarrow> string list \<Rightarrow> 's \<Rightarrow> reply \<times> 's" where
  "handleSubscribe B fs s =
    (if length fs \<noteq> 2 then (respError ''bad_subscribe'', s)
     else case be_Subscribe B (fs ! 1) s of
            (Inl x, s') \<Rightarrow> (reply_internal x, s')
          | (Inr _, s') \<Rightarrow> (writeFields [''OK''], s'))"

definition stream_event :: "Event \<Rightarrow> reply" where
  "stream_event evt = writeFields [''EVENT'', ev_Resource evt, ev_Type evt, ev_Payload evt]"

definition handshake :: "string \<Rightarrow> reply \<times> bool \<times> string" where
  "handshake input =
    (case readFields input of
       (Inl _, rest) \<Rightarrow> (None, False, rest)
     | (Inr fs, rest) \<Rightarrow>
         if length fs \<noteq> 2 \<or> fs ! 0 \<noteq> ''VERSION'' \<or> fs ! 1 \<noteq> protocolVersion
         then (respError ''version_mismatch'', False, rest)
         else (writeFields [''VERSION'', protocolVersion, ''OK''], True, rest))"

text \<open>One iteration of the command loop of \<^verbatim>\<open>handleConn\<close>, after the line is read.\<close>

definition handle_command :: "'s Backend \<Rightarrow> lock_env \<Rightarrow> string list \<Rightarrow> 's \<Rightarrow> reply \<times> 's" where
  "handle_command B e fs s =
    (if fs = [] then (None, s)
     else if fs ! 0 = ''LOCK'' then handleLock B e fs s
     else if fs ! 0 = ''LOCK-SHARED'' then handleLockShared B e fs s
     else if fs ! 0 = ''UNLOCK'' then handleUnlock B e fs s
     else if fs ! 0 = ''RENEW'' then handleRenew B e fs s
     else if fs ! 0 = ''EMIT'' then handleEmit B fs s
     else if fs ! 0 = ''SUBSCRIBE'' then handleSubscribe B fs s
     else if fs ! 0 = ''COUNTER-INC'' then handleCounterInc B fs s
     else (respError ''unknown_command'', s))"

text \<open>
  The server runs the commands of all its connections in some order, interleaved with the
  ticks of the sweeper and with what the streaming loops of \<^verbatim>\<open>handleSubscribe\<close> do: take an event
  from the channel and write it, and, when a loop is left for whatever reason, the deferred
  \<^verbatim>\<open>release()\<close>. Each of these is one event here. \<^verbatim>\<open>Publish\<close> and \<^verbatim>\<open>release()\<close> do part of their work
  outside the mutex; what that allows when the two overlap is the subject of \<open>bus_step\<close>.
\<close>

datatype server_event =
    Command lock_env "string list" | Sweep instant | StreamNext nat | StreamEnd string nat

fun exec :: "'s Backend \<Rightarrow> (instant \<Rightarrow> 's \<Rightarrow> 's) \<Rightarrow> server_event \<Rightarrow> 's \<Rightarrow> reply \<times> 's" where
  "exec B sweep (Command e fs) s = handle_command B e fs s"
| "exec B sweep (Sweep now) s = (None, sweep now s)"
| "exec B sweep (StreamNext c) s =
    (case be_Receive B c s of
       (None, s') \<Rightarrow> (None, s')
     | (Some evt, s') \<Rightarrow> (stream_event evt, s'))"
| "exec B sweep (StreamEnd r c) s = (None, snd (be_Cancel B r c s))"

fun run :: "'s Backend \<Rightarrow> (instant \<Rightarrow> 's \<Rightarrow> 's) \<Rightarrow> server_event list \<Rightarrow> 's \<Rightarrow> 's" where
  "run B sweep [] s = s"
| "run B sweep (ev # evs) s = run B sweep evs (snd (exec B sweep ev s))"

definition memory_backend :: "MemoryBackend Backend" where
  "memory_backend = \<lparr> be_Acquire = Acquire, be_AcquireShared = AcquireShared, be_Release = Release,
     be_Renew = Renew, be_Publish = Publish, be_Subscribe = Subscribe,
     be_Receive = receive, be_Cancel = cancel, be_IncrementCounter = IncrementCounter \<rparr>"


subsection \<open>Framing\<close>

abbreviation clean :: "string \<Rightarrow> bool" where
  "clean f \<equiv> tab \<notin> set f \<and> lf \<notin> set f"

lemma writeFields_Some: "writeFields fs = Some w \<longleftrightarrow> list_all clean fs \<and> w = join_byte tab fs @ [lf]"
  by (auto simp: writeFields_def contains_any_def list_ex_iff list_all_iff)

lemma join_byte_set: "c \<in> set (join_byte sep fs) \<Longrightarrow> c = sep \<or> (\<exists>f \<in> set fs. c \<in> set f)"
  by (induction sep fs rule: join_byte.induct) auto

lemma join_byte_Nil: "join_byte sep fs = [] \<longleftrightarrow> fs = [] \<or> fs = [[]]"
  by (cases "(sep, fs)" rule: join_byte.cases) auto

lemma tab_lf [simp]: "tab \<noteq> lf" "lf \<noteq> tab"
  by (simp_all add: tab_def lf_def)

lemma trim_lf: "lf \<notin> set s \<Longrightarrow> trim_right (s @ [lf]) [lf] = s"
  by (cases s rule: rev_cases) (auto simp: trim_right_def)

lemma readFields_line:
  assumes "lf \<notin> set body" and "length body < maxLineLen" and "body \<noteq> []"
  shows "readFields (body @ lf # rest) = (Inr (split_byte tab body), rest)"
proof -
  have "takeWhile (\<lambda>c. c \<noteq> lf) (body @ lf # rest) = body"
    "dropWhile (\<lambda>c. c \<noteq> lf) (body @ lf # rest) = lf # rest"
    using assms(1) by (auto simp: takeWhile_append dropWhile_append)
  then show ?thesis
    using assms by (simp add: readFields_def Let_def trim_lf)
qed

lemma readFields_writeFields:
  assumes "writeFields fs = Some w" and "fs \<noteq> []" "fs \<noteq> [[]]" and "length w \<le> maxLineLen"
  shows "readFields (w @ rest) = (Inr fs, rest)"
proof -
  from assms(1) have c: "list_all clean fs" and w: "w = join_byte tab fs @ [lf]"
    by (simp_all add: writeFields_Some)
  have "lf \<notin> set (join_byte tab fs)"
    using c join_byte_set [of lf tab fs] by (auto simp: list_all_iff)
  moreover have "join_byte tab fs \<noteq> []"
    using assms(2,3) by (simp add: join_byte_Nil)
  ultimately have "readFields (join_byte tab fs @ lf # rest) = (Inr (split_byte tab (join_byte tab fs)), rest)"
    using assms(4) w by (intro readFields_line) simp_all
  moreover have "split_byte tab (join_byte tab fs) = fs"
    using c assms(2) by (intro split_join) (simp_all add: list_all_iff)
  ultimately show ?thesis using w by simp
qed

lemma readFields_clean:
  assumes "readFields input = (Inr fs, rest)"
  shows "list_all clean fs \<and> fs \<noteq> [] \<and> length rest < length input"
proof -
  let ?body = "takeWhile (\<lambda>c. c \<noteq> lf) input" and ?rest = "dropWhile (\<lambda>c. c \<noteq> lf) input"
  have ne: "?rest \<noteq> []" and fs: "fs = split_byte tab (trim_right (?body @ [lf]) [lf])" and r: "rest = tl ?rest"
    using assms by (auto simp: readFields_def Let_def split: if_splits)
  have b: "lf \<notin> set ?body" by (auto dest: set_takeWhileD)
  have "fs = split_byte tab ?body" using fs trim_lf [OF b] by simp
  then have "list_all clean fs" "fs \<noteq> []"
    using b split_byte_sep [of _ tab ?body] split_byte_subset [of _ tab ?body] by (auto simp: list_all_iff)
  moreover have "length rest < length ?rest" using r ne by simp
  moreover have "length ?rest \<le> length input" by (rule length_dropWhile_le)
  ultimately show ?thesis by linarith
qed

subsection \<open>Durations on the wire\<close>

lemma parseTTL_exact:
  "0 < ms \<Longrightarrow> ms < 9223372036855 \<Longrightarrow> parseTTL (format_int ms) = Inr (ms * millisecond)"
  by (simp add: parseTTL_def atoi_format_int millisecond_def)

lemma TTL_wire:
  assumes "millisecond \<le> ttl" and "in_int64 ttl"
  shows "\<exists>w. formatTTL ttl = Inr w \<and> parseTTL w = Inr (ttl - ttl mod millisecond)"
proof -
  have p: "0 < ttl div millisecond" "ttl div millisecond < 9223372036855"
    using assms by (simp_all add: millisecond_def)
  have "ttl div millisecond * millisecond = ttl - ttl mod millisecond"
    by (simp add: minus_mod_eq_div_mult)
  with parseTTL_exact [OF p] assms(1) show ?thesis
    by (simp add: formatTTL_def millisecond_def)
qed


subsection \<open>The interface of a backend\<close>

text \<open>
  What the server relies on: a lock table, with the expired locks dropped at the start of
  each operation, on which the operations act as their specifications say.
\<close>

locale lock_backend =
  fixes B :: "'s Backend"
    and sweep :: "instant \<Rightarrow> 's \<Rightarrow> 's"
    and T :: "'s \<Rightarrow> string \<Rightarrow> memLock option"
    and ok :: "'s \<Rightarrow> bool"
  assumes excl: "ok s \<Longrightarrow> exclusion (T s)"
    and acquire_meets: "ok s \<Longrightarrow> fresh_id e (T s) \<Longrightarrow>
      meets (live (le_now e) (T s)) r (fst (spec_acquire False e r ow st ttl (T s)))
        (fst (be_Acquire B e r ow st ttl s))"
    and acquire_table: "ok s \<Longrightarrow> fresh_id e (T s) \<Longrightarrow>
      T (snd (be_Acquire B e r ow st ttl s)) = snd (spec_acquire False e r ow st ttl (T s))"
    and acquire_ok: "ok s \<Longrightarrow> fresh_id e (T s) \<Longrightarrow> ok (snd (be_Acquire B e r ow st ttl s))"
    and shared_meets: "ok s \<Longrightarrow> fresh_id e (T s) \<Longrightarrow>
      meets (live (le_now e) (T s)) r (fst (spec_acquire True e r ow st ttl (T s)))
        (fst (be_AcquireShared B e r ow st ttl s))"
    and shared_table: "ok s \<Longrightarrow> fresh_id e (T s) \<Longrightarrow>
      T (snd (be_AcquireShared B e r ow st ttl s)) = snd (spec_acquire True e r ow st ttl (T s))"
    and shared_ok: "ok s \<Longrightarrow> fresh_id e (T s) \<Longrightarrow> ok (snd (be_AcquireShared B e r ow st ttl s))"
    and release_result: "ok s \<Longrightarrow> fst (be_Release B e i s) = fst (spec_release e i (T s))"
    and release_table: "ok s \<Longrightarrow> T (snd (be_Release B e i s)) = snd (spec_release e i (T s))"
    and release_ok: "ok s \<Longrightarrow> ok (snd (be_Release B e i s))"
    and renew_result: "ok s \<Longrightarrow> fst (be_Renew B e i ttl s) = fst (spec_renew e i ttl (T s))"
    and renew_table: "ok s \<Longrightarrow> T (snd (be_Renew B e i ttl s)) = snd (spec_renew e i ttl (T s))"
    and renew_ok: "ok s \<Longrightarrow> ok (snd (be_Renew B e i ttl s))"
    and publish_table: "ok s \<Longrightarrow> T (snd (be_Publish B r t p s)) = T s"
    and publish_ok: "ok s \<Longrightarrow> ok (snd (be_Publish B r t p s))"
    and subscribe_table: "ok s \<Longrightarrow> T (snd (be_Subscribe B r s)) = T s"
    and subscribe_ok: "ok s \<Longrightarrow> ok (snd (be_Subscribe B r s))"
    and receive_table: "ok s \<Longrightarrow> T (snd (be_Receive B c s)) = T s"
    and receive_ok: "ok s \<Longrightarrow> ok (snd (be_Receive B c s))"
    and cancel_table: "ok s \<Longrightarrow> T (snd (be_Cancel B r c s)) = T s"
    and cancel_ok: "ok s \<Longrightarrow> ok (snd (be_Cancel B r c s))"
    and counter_table: "ok s \<Longrightarrow> T (snd (be_IncrementCounter B k d s)) = T s"
    and counter_ok: "ok s \<Longrightarrow> ok (snd (be_IncrementCounter B k d s))"
    and sweep_table: "ok s \<Longrightarrow> T (sweep now s) = live now (T s)"
    and sweep_ok: "ok s \<Longrightarrow> ok (sweep now s)"

text \<open>The identifiers a sequence of events draws, its clock readings, and its uses of a lock.\<close>

fun drawn :: "server_event \<Rightarrow> string list" where
  "drawn (Command e fs) = (case randID e of None \<Rightarrow> [] | Some i \<Rightarrow> [i])"
| "drawn _ = []"

fun reads_before :: "instant \<Rightarrow> server_event \<Rightarrow> bool" where
  "reads_before t (Command e fs) \<longleftrightarrow> le_now e < t"
| "reads_before t (Sweep now) \<longleftrightarrow> now < t"
| "reads_before t _ \<longleftrightarrow> True"

fun names_lock :: "string \<Rightarrow> server_event \<Rightarrow> bool" where
  "names_lock i (Command e fs) \<longleftrightarrow>
     1 < length fs \<and> (fs ! 0 = ''UNLOCK'' \<or> fs ! 0 = ''RENEW'') \<and> fs ! 1 = i"
| "names_lock i _ \<longleftrightarrow> False"

definition fresh_draws :: "server_event list \<Rightarrow> (string \<Rightarrow> memLock option) \<Rightarrow> bool" where
  "fresh_draws evs T \<longleftrightarrow> distinct (concat (map drawn evs)) \<and> set (concat (map drawn evs)) \<inter> dom T = {}"

lemma live_keep: "T i = Some l \<Longrightarrow> now < ml_ExpiresAt l \<Longrightarrow> live now T i = Some l"
  by (simp add: live_def)

lemma live_dom: "dom (live now T) \<subseteq> dom T"
  by (auto simp: live_def split: option.splits)

lemma spec_acquire_keep:
  "T i = Some l \<Longrightarrow> le_now e < ml_ExpiresAt l \<Longrightarrow> fresh_id e T \<Longrightarrow>
    snd (spec_acquire sh e r ow st ttl T) i = Some l"
  by (auto simp: spec_acquire_def Let_def live_keep split: option.splits)

lemma spec_acquire_dom:
  "dom (snd (spec_acquire sh e r ow st ttl T)) \<subseteq> dom T \<union> set_option (randID e)"
  using live_dom [of "le_now e" T] by (auto simp: spec_acquire_def Let_def split: option.splits if_splits)

lemma spec_release_keep:
  "T i = Some l \<Longrightarrow> le_now e < ml_ExpiresAt l \<Longrightarrow> j \<noteq> i \<Longrightarrow> snd (spec_release e j T) i = Some l"
  by (auto simp: spec_release_def Let_def live_keep split: option.splits)

lemma spec_release_dom: "dom (snd (spec_release e j T)) \<subseteq> dom T"
  using live_dom [of "le_now e" T] by (auto simp: spec_release_def Let_def split: option.splits if_splits)

lemma spec_renew_keep:
  "T i = Some l \<Longrightarrow> le_now e < ml_ExpiresAt l \<Longrightarrow> j \<noteq> i \<Longrightarrow> snd (spec_renew e j ttl T) i = Some l"
  by (auto simp: spec_renew_def Let_def live_keep split: option.splits)

lemma spec_renew_dom: "dom (snd (spec_renew e j ttl T)) \<subseteq> dom T"
  using live_dom [of "le_now e" T] by (auto simp: spec_renew_def Let_def split: option.splits if_splits)

text \<open>The state after a command is unchanged or the one its backend call leaves.\<close>

lemma snd_handleLock: "snd (handleLock B e fs s) =
    (if length fs \<noteq> 4 \<and> length fs \<noteq> 5 then s
     else case parseTTL (fs ! 3) of Inl _ \<Rightarrow> s
          | Inr ttl \<Rightarrow> snd (be_Acquire B e (fs ! 1) (fs ! 2) (lock_site fs) ttl s))"
  by (simp add: handleLock_def split: sum.split prod.split)

lemma snd_handleLockShared: "snd (handleLockShared B e fs s) =
    (if length fs \<noteq> 4 \<and> length fs \<noteq> 5 then s
     else case parseTTL (fs ! 3) of Inl _ \<Rightarrow> s
          | Inr ttl \<Rightarrow> snd (be_AcquireShared B e (fs ! 1) (fs ! 2) (lock_site fs) ttl s))"
  by (simp add: handleLockShared_def split: sum.split prod.split)

lemma fst_handleLock: "length fs = 4 \<or> length fs = 5 \<Longrightarrow> parseTTL (fs ! 3) = Inr ttl \<Longrightarrow>
    fst (handleLock B e fs s) =
      reply_acquire (fst (be_Acquire B e (fs ! 1) (fs ! 2) (lock_site fs) ttl s))"
  by (auto simp: handleLock_def split: prod.split)

lemma fst_handleLockShared: "length fs = 4 \<or> length fs = 5 \<Longrightarrow> parseTTL (fs ! 3) = Inr ttl \<Longrightarrow>
    fst (handleLockShared B e fs s) =
      reply_acquire (fst (be_AcquireShared B e (fs ! 1) (fs ! 2) (lock_site fs) ttl s))"
  by (auto simp: handleLockShared_def split: prod.split)

lemma snd_handleUnlock: "snd (handleUnlock B e fs s) =
    (if length fs \<noteq> 2 then s else snd (be_Release B e (fs ! 1) s))"
  by (simp add: handleUnlock_def split: sum.split prod.split lock_error.split)

lemma snd_handleRenew: "snd (handleRenew B e fs s) =
    (if length fs \<noteq> 3 then s
     else case parseTTL (fs ! 2) of Inl _ \<Rightarrow> s | Inr ttl \<Rightarrow> snd (be_Renew B e (fs ! 1) ttl s))"
  by (simp add: handleRenew_def split: sum.split prod.split lock_error.split)

lemma snd_handleCounterInc: "snd (handleCounterInc B fs s) =
    (if length fs \<noteq> 3 then s
     else case atoi (fs ! 2) of None \<Rightarrow> s | Some d \<Rightarrow> snd (be_IncrementCounter B (fs ! 1) d s))"
  by (simp add: handleCounterInc_def split: sum.split prod.split option.split)

lemma snd_handleEmit: "snd (handleEmit B fs s) =
    (if length fs \<noteq> 4 then s else snd (be_Publish B (fs ! 1) (fs ! 2) (fs ! 3) s))"
  by (simp add: handleEmit_def split: sum.split prod.split)

lemma snd_handleSubscribe: "snd (handleSubscribe B fs s) =
    (if length fs \<noteq> 2 then s else snd (be_Subscribe B (fs ! 1) s))"
  by (simp add: handleSubscribe_def split: sum.split prod.split)

lemma snd_StreamNext: "snd (exec B sweep (StreamNext c) s) = snd (be_Receive B c s)"
  by (simp split: prod.split option.split)

lemma command_rule:
  assumes "P s"
    and "\<And>ttl. P (snd (be_Acquire B e (fs ! 1) (fs ! 2) (lock_site fs) ttl s))"
    and "\<And>ttl. P (snd (be_AcquireShared B e (fs ! 1) (fs ! 2) (lock_site fs) ttl s))"
    and "length fs = 2 \<Longrightarrow> fs ! 0 = ''UNLOCK'' \<Longrightarrow> P (snd (be_Release B e (fs ! 1) s))"
    and "\<And>ttl. length fs = 3 \<Longrightarrow> fs ! 0 = ''RENEW'' \<Longrightarrow> P (snd (be_Renew B e (fs ! 1) ttl s))"
    and "P (snd (be_Publish B (fs ! 1) (fs ! 2) (fs ! 3) s))"
    and "P (snd (be_Subscribe B (fs ! 1) s))"
    and "\<And>d. P (snd (be_IncrementCounter B (fs ! 1) d s))"
  shows "P (snd (handle_command B e fs s))"
proof -
  have "P (snd (handleLock B e fs s))" using assms(1,2) by (simp add: snd_handleLock split: sum.split)
  moreover have "P (snd (handleLockShared B e fs s))"
    using assms(1,3) by (simp add: snd_handleLockShared split: sum.split)
  moreover have "fs ! 0 = ''UNLOCK'' \<Longrightarrow> P (snd (handleUnlock B e fs s))"
    using assms(1,4) by (simp add: snd_handleUnlock)
  moreover have "fs ! 0 = ''RENEW'' \<Longrightarrow> P (snd (handleRenew B e fs s))"
    using assms(1,5) by (simp add: snd_handleRenew split: sum.split)
  moreover have "P (snd (handleEmit B fs s))" using assms(1,6) by (simp add: snd_handleEmit)
  moreover have "P (snd (handleSubscribe B fs s))" using assms(1,7) by (simp add: snd_handleSubscribe)
  moreover have "P (snd (handleCounterInc B fs s))"
    using assms(1,8) by (simp add: snd_handleCounterInc split: option.split)
  ultimately show ?thesis using assms(1) unfolding handle_command_def by simp
qed

context lock_backend
begin

lemma command_ok: "ok s \<Longrightarrow> fresh_id e (T s) \<Longrightarrow> ok (snd (handle_command B e fs s))"
  by (rule command_rule)
     (simp_all add: acquire_ok shared_ok release_ok renew_ok publish_ok subscribe_ok counter_ok)

lemma command_dom:
  "ok s \<Longrightarrow> fresh_id e (T s) \<Longrightarrow> dom (T (snd (handle_command B e fs s))) \<subseteq> dom (T s) \<union> set_option (randID e)"
  by (rule command_rule)
     (simp_all add: acquire_table shared_table release_table renew_table publish_table subscribe_table
       counter_table spec_acquire_dom le_supI1 spec_release_dom spec_renew_dom)

lemma command_keep:
  assumes "ok s" and "fresh_id e (T s)" and "T s i = Some l" and "le_now e < ml_ExpiresAt l"
    and "\<not> names_lock i (Command e fs)"
  shows "T (snd (handle_command B e fs s)) i = Some l"
  using assms
  by (rule_tac command_rule)
     (auto simp: acquire_table shared_table release_table renew_table publish_table subscribe_table
       counter_table spec_acquire_keep spec_release_keep spec_renew_keep)

lemma run_keep:
  assumes "ok s" and "fresh_draws evs (T s)" and "T s i = Some l"
    and "\<forall>ev \<in> set evs. reads_before (ml_ExpiresAt l) ev \<and> \<not> names_lock i ev"
  shows "ok (run B sweep evs s) \<and> T (run B sweep evs s) i = Some l \<and>
    dom (T (run B sweep evs s)) \<subseteq> dom (T s) \<union> set (concat (map drawn evs))"
  using assms
proof (induction evs arbitrary: s)
  case Nil
  then show ?case by simp
next
  case (Cons ev evs)
  let ?s = "snd (exec B sweep ev s)"
  have step: "ok ?s \<and> T ?s i = Some l \<and> dom (T ?s) \<subseteq> dom (T s) \<union> set (drawn ev)"
  proof (cases ev)
    case (Command e fs)
    have f: "fresh_id e (T s)"
      using Cons.prems(2) Command by (auto simp: fresh_draws_def)
    have "set (drawn ev) = set_option (randID e)" using Command by (cases "randID e") simp_all
    then show ?thesis
      using command_ok [OF Cons.prems(1) f] command_dom [OF Cons.prems(1) f]
        command_keep [OF Cons.prems(1) f Cons.prems(3)] Cons.prems(4) Command by simp
  next
    case (Sweep now)
    then show ?thesis
      using Cons.prems live_dom [of now "T s"] by (simp add: sweep_ok sweep_table live_keep)
  next
    case (StreamNext c)
    then show ?thesis using Cons.prems(1,3) by (simp add: snd_StreamNext receive_ok receive_table del: exec.simps)
  next
    case (StreamEnd r c)
    then show ?thesis using Cons.prems(1,3) by (simp add: cancel_ok cancel_table)
  qed
  have "fresh_draws evs (T ?s)"
    using step Cons.prems(2) by (auto simp: fresh_draws_def)
  then have IH: "ok (run B sweep evs ?s)" "T (run B sweep evs ?s) i = Some l"
    "dom (T (run B sweep evs ?s)) \<subseteq> dom (T ?s) \<union> set (concat (map drawn evs))"
    using Cons.IH [of ?s] step Cons.prems(4) by simp_all
  then have "dom (T (run B sweep evs ?s)) \<subseteq> dom (T s) \<union> set (drawn ev) \<union> set (concat (map drawn evs))"
    using step by blast
  then show ?case using IH(1,2) by (simp add: Un_assoc)
qed

text \<open>A request for a resource under a live exclusive lock is refused with its holder.\<close>

lemma reports_unique:
  assumes "exclusion T'" and "T' i = Some l" and "\<not> ml_Shared l" and "reports T' (ml_Resource l) h"
  shows "h = \<lparr> h_Owner = ml_Owner l, h_Site = ml_Site l \<rparr>"
proof -
  from assms(4) obtain j k where j: "T' j = Some k" "ml_Resource k = ml_Resource l" "h_Site h = ml_Site k"
    "h_Owner h = ml_Owner k \<or> ml_Shared k" by (auto simp: reports_def)
  with assms(1-3) have "j = i" unfolding exclusion_def by blast
  with j assms(2,3) show ?thesis by simp
qed

lemma exclusion_live: "exclusion T' \<Longrightarrow> exclusion (live now T')"
  by (erule exclusion_sub) (rule live_sub)

lemma lock_refused:
  assumes "ok s" and "fresh_id e (T s)" and "T s i = Some l" and "\<not> ml_Shared l"
    and "le_now e < ml_ExpiresAt l" and "fs ! 0 = ''LOCK'' \<or> fs ! 0 = ''LOCK-SHARED''"
    and "length fs = 4 \<or> length fs = 5" and "fs ! 1 = ml_Resource l" "fs ! 1 \<noteq> []" "fs ! 2 \<noteq> []"
    and "parseTTL (fs ! 3) = Inr ttl"
  shows "fst (handle_command B e fs s) = writeFields [''BUSY'', ml_Owner l, ml_Site l]"
proof -
  let ?L = "live (le_now e) (T s)"
  have L: "?L i = Some l" using assms(3,5) by (rule live_keep)
  then have "i \<in> locks_on ?L False (ml_Resource l)" using assms(4) by (simp add: locks_on_def)
  then have b: "fst (spec_acquire sh e (fs ! 1) (fs ! 2) st ttl (T s)) = Blocked" for sh st
    using assms(8,9,10) by (auto simp: spec_acquire_def blocked_def Let_def)
  have u: "reports ?L (fs ! 1) h \<Longrightarrow> h = \<lparr> h_Owner = ml_Owner l, h_Site = ml_Site l \<rparr>" for h
    using reports_unique [OF exclusion_live [OF excl [OF assms(1)]] L assms(4)] assms(8) by simp
  have A: "fst (be_Acquire B e (fs ! 1) (fs ! 2) st ttl s) =
      Inl (ErrBusy \<lparr> h_Owner = ml_Owner l, h_Site = ml_Site l \<rparr>)" for st
    using acquire_meets [OF assms(1,2), of "fs ! 1" "fs ! 2" st ttl] b u by auto
  have S: "fst (be_AcquireShared B e (fs ! 1) (fs ! 2) st ttl s) =
      Inl (ErrBusy \<lparr> h_Owner = ml_Owner l, h_Site = ml_Site l \<rparr>)" for st
    using shared_meets [OF assms(1,2), of "fs ! 1" "fs ! 2" st ttl] b u by auto
  have ne: "fs \<noteq> []" using assms(7) by auto
  from assms(6) show ?thesis
  proof
    assume "fs ! 0 = ''LOCK''"
    then show ?thesis
      using ne fst_handleLock [OF assms(7,11), where B = B and e = e and s = s] A by (simp add: handle_command_def)
  next
    assume "fs ! 0 = ''LOCK-SHARED''"
    then show ?thesis
      using ne fst_handleLockShared [OF assms(7,11), where B = B and e = e and s = s] S by (simp add: handle_command_def)
  qed
qed

end


subsection \<open>The in-memory backend behind the server\<close>

lemma send_event_fields:
  "send_event c evt b = Some b' \<Longrightarrow>
    mb_locks b' = mb_locks b \<and> mb_byRes b' = mb_byRes b \<and> mb_sharedRes b' = mb_sharedRes b"
  by (auto simp: send_event_def split: option.splits if_splits)

lemma send_all_fields:
  "send_all cs evt b = Some b' \<Longrightarrow>
    mb_locks b' = mb_locks b \<and> mb_byRes b' = mb_byRes b \<and> mb_sharedRes b' = mb_sharedRes b"
  by (induction cs arbitrary: b) (auto split: option.splits dest: send_event_fields)

lemma Publish_fields:
  "mb_locks (snd (Publish r t p b)) = mb_locks b \<and> mb_byRes (snd (Publish r t p b)) = mb_byRes b \<and>
   mb_sharedRes (snd (Publish r t p b)) = mb_sharedRes b"
  using send_all_fields [of "publish_snapshot r b" "\<lparr> ev_Resource = r, ev_Type = t, ev_Payload = p \<rparr>" b]
  by (cases "send_all (publish_snapshot r b) \<lparr> ev_Resource = r, ev_Type = t, ev_Payload = p \<rparr> b")
     (simp_all add: Publish_def)

lemma stream_fields:
  "mb_locks (snd (receive c b)) = mb_locks b \<and> mb_byRes (snd (receive c b)) = mb_byRes b \<and>
   mb_sharedRes (snd (receive c b)) = mb_sharedRes b"
  "mb_locks (snd (cancel r c b)) = mb_locks b \<and> mb_byRes (snd (cancel r c b)) = mb_byRes b \<and>
   mb_sharedRes (snd (cancel r c b)) = mb_sharedRes b"
  by (simp_all add: receive_def cancel_def cancel_close_def cancel_locked_def Let_def split: option.split list.split)

lemma wf_other_fields:
  "wf_backend b \<Longrightarrow> wf_backend (snd (Publish r t p b))"
  "wf_backend b \<Longrightarrow> wf_backend (snd (Subscribe r b))"
  "wf_backend b \<Longrightarrow> wf_backend (snd (IncrementCounter k d b))"
  "wf_backend b \<Longrightarrow> wf_backend (snd (receive c b))"
  "wf_backend b \<Longrightarrow> wf_backend (snd (cancel r c b))"
  using Publish_fields [of r t p b] stream_fields(1) [of c b] stream_fields(2) [of r c b]
  by (simp_all add: wf_backend_def Subscribe_def IncrementCounter_def Let_def)

interpretation mem: lock_backend memory_backend expireLocked table wf_backend
proof (unfold_locales, goal_cases)
  case (1 s)
  then show ?case by (simp add: wf_backend_def consistent_def)
qed (simp_all add: memory_backend_def Acquire_refines AcquireShared_refines Release_refines Renew_refines
    expireLocked_spec wf_other_fields Publish_fields stream_fields, simp_all add: Subscribe_def IncrementCounter_def Let_def)

lemma memory_ops [simp]:
  "be_Acquire memory_backend = Acquire" "be_AcquireShared memory_backend = AcquireShared"
  "be_Release memory_backend = Release" "be_Renew memory_backend = Renew"
  "be_Publish memory_backend = Publish" "be_Subscribe memory_backend = Subscribe"
  "be_Receive memory_backend = receive" "be_Cancel memory_backend = cancel"
  "be_IncrementCounter memory_backend = IncrementCounter"
  by (simp_all add: memory_backend_def)

lemma fresh_draws_after:
  "fresh_draws (xs @ ys) T \<Longrightarrow> dom T' \<subseteq> dom T \<union> set (concat (map drawn xs)) \<Longrightarrow> fresh_draws ys T'"
  unfolding fresh_draws_def map_append concat_append distinct_append set_append by blast

lemma fresh_draws_prefix: "fresh_draws (xs @ ys) T \<Longrightarrow> fresh_draws xs T"
  unfolding fresh_draws_def map_append concat_append distinct_append set_append by blast

lemma fresh_draws_id: "fresh_draws (Command e fs # ys) T \<Longrightarrow> fresh_id e T"
  by (auto simp: fresh_draws_def)

text \<open>A reply that is the line of a granted lock comes from a granted lock.\<close>

lemma hex_clean: "clean (hex_encode bs)"
  using hex_encode_set by (fastforce simp: tab_def lf_def)

lemma join_two: "clean i \<Longrightarrow> clean j \<Longrightarrow> join_byte tab [f, i] @ [lf] = join_byte tab [f, j] @ [lf] \<longleftrightarrow> i = j"
  by simp

lemma reply_acquire_OK:
  assumes "reply_acquire res = Some line" and "writeFields [''OK'', i] = Some line"
  shows "res = Inr i"
proof (cases res)
  case (Inl x)
  with assms show ?thesis
    by (cases x) (auto simp: writeFields_Some respError_def)
next
  case (Inr j)
  with assms show ?thesis by (simp add: writeFields_Some)
qed

lemma granted_lock:
  assumes "wf_backend b" and "fresh_id e (table b)" and "fs ! 0 = ''LOCK''"
    and "length fs = 4 \<or> length fs = 5" and "parseTTL (fs ! 3) = Inr ttl"
    and "handle_command memory_backend e fs b = (Some line, b1)" and "writeFields [''OK'', i] = Some line"
  shows "randID e = Some i \<and> wf_backend b1 \<and> dom (table b1) \<subseteq> dom (table b) \<union> {i} \<and>
    fs ! 1 \<noteq> [] \<and> fs ! 2 \<noteq> [] \<and>
    table b1 i = Some \<lparr> ml_ID = i, ml_Resource = fs ! 1, ml_Owner = fs ! 2, ml_Site = lock_site fs,
      ml_ExpiresAt = le_now2 e + ttl, ml_Shared = False \<rparr>"
proof -
  have "fs \<noteq> []" using assms(4) by auto
  then have h: "handle_command memory_backend e fs b = handleLock memory_backend e fs b"
    using assms(3) by (simp add: handle_command_def)
  then have hl: "handleLock memory_backend e fs b = (Some line, b1)" using assms(6) by simp
  have "reply_acquire (fst (Acquire e (fs ! 1) (fs ! 2) (lock_site fs) ttl b)) = Some line"
    using fst_handleLock [OF assms(4,5), of memory_backend e b] by (simp add: hl)
  with assms(7) have "fst (Acquire e (fs ! 1) (fs ! 2) (lock_site fs) ttl b) = Inr i"
    by (blast intro: reply_acquire_OK)
  moreover have b1: "b1 = snd (Acquire e (fs ! 1) (fs ! 2) (lock_site fs) ttl b)"
    using assms(4,5) snd_handleLock [of memory_backend e fs b] by (auto simp: hl split: if_splits)
  moreover note A = Acquire_refines [OF assms(1,2), of "fs ! 1" "fs ! 2" "lock_site fs" ttl]
  ultimately have m: "meets (live (le_now e) (table b)) (fs ! 1)
      (fst (spec_acquire False e (fs ! 1) (fs ! 2) (lock_site fs) ttl (table b))) (Inr i)"
    by simp
  then have sp: "spec_acquire False e (fs ! 1) (fs ! 2) (lock_site fs) ttl (table b) =
      (Granted i, (live (le_now e) (table b))(i \<mapsto> \<lparr> ml_ID = i, ml_Resource = fs ! 1, ml_Owner = fs ! 2,
        ml_Site = lock_site fs, ml_ExpiresAt = le_now2 e + ttl, ml_Shared = False \<rparr>))
      \<and> randID e = Some i \<and> fs ! 1 \<noteq> [] \<and> fs ! 2 \<noteq> []"
    by (auto simp: spec_acquire_def Let_def split: if_splits option.splits)
  then show ?thesis
    using A(2,3) b1 live_dom [of "le_now e" "table b"] by auto
qed

text \<open>Concrete clients for the examples below.\<close>

definition demo_env :: "instant \<Rightarrow> string \<Rightarrow> lock_env" where
  "demo_env t rnd = \<lparr> le_now = t, le_now2 = t, le_rand = Some rnd, le_pick = 0 \<rparr>"

definition demo_lock :: "string \<Rightarrow> string list" where
  "demo_lock owner = [''LOCK'', ''mbox:a:INBOX'', owner, ''5000'', ''append'']"

lemma demo_env_sel [simp]: "le_now (demo_env t rnd) = t" "le_now2 (demo_env t rnd) = t"
  by (simp_all add: demo_env_def)

lemma demo_id: "randID (demo_env t ''aaaaaaaaaaaaaaaa'') = Some ''61616161616161616161616161616161''"
  "randID (demo_env t ''bbbbbbbbbbbbbbbb'') = Some ''62626262626262626262626262626262''"
  by (simp_all add: randID_def demo_env_def hex_encode_def hex_digit_def char_of_def bit_iff_odd)

lemma demo_ttl: "parseTTL ''5000'' = Inr 5000000000"
  by (simp add: parseTTL_def atoi_def has_prefix_def digits_val_def is_digit_def Let_def millisecond_def)

lemma demo_grant: "handle_command memory_backend (demo_env 0 ''aaaaaaaaaaaaaaaa'') (demo_lock ''imap/1/a/s1'') NewMemoryBackend =
   (writeFields [''OK'', ''61616161616161616161616161616161''], 
    NewMemoryBackend\<lparr> mb_locks := [(''61616161616161616161616161616161'',
       \<lparr> ml_ID = ''61616161616161616161616161616161'', ml_Resource = ''mbox:a:INBOX'', ml_Owner = ''imap/1/a/s1'', ml_Site = ''append'',
         ml_ExpiresAt = 5000000000, ml_Shared = False \<rparr>)],
       mb_byRes := [(''mbox:a:INBOX'', ''61616161616161616161616161616161'')] \<rparr>)"
  by (simp add: handle_command_def handleLock_def demo_lock_def demo_ttl memory_backend_def Acquire_def
     expireLocked_def NewMemoryBackend_def Let_def shared_of_def demo_id lock_site_def)

subsection \<open>Properties\<close>

text \<open>
  C9. Mutual exclusion, through the server: after a \<^verbatim>\<open>LOCK\<close> command has been answered
  \<^verbatim>\<open>OK\<close>, and until its TTL has run out, whatever commands of whatever connections and
  sweeper ticks come in between, as long as none of them is an \<^verbatim>\<open>UNLOCK\<close> or \<^verbatim>\<open>RENEW\<close> of
  that lock, every \<^verbatim>\<open>LOCK\<close> and \<^verbatim>\<open>LOCK-SHARED\<close> command on the resource is answered
  \<^verbatim>\<open>BUSY\<close> with the owner and the site of the holder. The identifiers drawn at random are
  taken to be fresh.
\<close>

theorem lock_excludes:
  assumes "wf_backend b"
    and "fresh_draws (Command e fs # evs @ [Command e' fs']) (table b)"
    and "fs ! 0 = ''LOCK''" and "length fs = 4 \<or> length fs = 5" and "parseTTL (fs ! 3) = Inr ttl"
    and "handle_command memory_backend e fs b = (Some line, b1)" and "writeFields [''OK'', i] = Some line"
    and "\<forall>ev \<in> set evs. reads_before (le_now2 e + ttl) ev \<and> \<not> names_lock i ev"
    and "fs' ! 0 = ''LOCK'' \<or> fs' ! 0 = ''LOCK-SHARED''" and "length fs' = 4 \<or> length fs' = 5"
    and "fs' ! 1 = fs ! 1" and "fs' ! 2 \<noteq> []" and "parseTTL (fs' ! 3) = Inr ttl'"
    and "le_now e' < le_now2 e + ttl"
  shows "fst (handle_command memory_backend e' fs' (run memory_backend expireLocked evs b1)) =
    writeFields [''BUSY'', fs ! 2, lock_site fs]"
proof -
  let ?l = "\<lparr> ml_ID = i, ml_Resource = fs ! 1, ml_Owner = fs ! 2, ml_Site = lock_site fs,
      ml_ExpiresAt = le_now2 e + ttl, ml_Shared = False \<rparr>"
  let ?b = "run memory_backend expireLocked evs b1"
  note g = granted_lock [OF assms(1) fresh_draws_id [OF assms(2)] assms(3-7)]
  then have l: "table b1 i = Some ?l" and wf: "wf_backend b1" by simp_all
  have fr: "fresh_draws (evs @ [Command e' fs']) (table b1)"
  proof (rule fresh_draws_after)
    show "fresh_draws ([Command e fs] @ evs @ [Command e' fs']) (table b)" using assms(2) by simp
    show "dom (table b1) \<subseteq> dom (table b) \<union> set (concat (map drawn [Command e fs]))" using g by simp
  qed
  have k: "wf_backend ?b \<and> table ?b i = Some ?l \<and> dom (table ?b) \<subseteq> dom (table b1) \<union> set (concat (map drawn evs))"
    using mem.run_keep [OF wf fresh_draws_prefix [OF fr] l] assms(8) by simp
  then have "fresh_draws [Command e' fs'] (table ?b)"
    using fresh_draws_after [OF fr] by blast
  then have "fresh_id e' (table ?b)" by (rule fresh_draws_id)
  then have "fst (handle_command memory_backend e' fs' ?b) = writeFields [''BUSY'', ml_Owner ?l, ml_Site ?l]"
    using k g assms(9-14) by (intro mem.lock_refused [of _ _ i ?l _ ttl']) simp_all
  then show ?thesis by simp
qed

theorem lock_excludes_witness:
  "fst (handle_command memory_backend (demo_env 2000 ''bbbbbbbbbbbbbbbb'') (demo_lock ''lmtp/2/a/s2'')
     (run memory_backend expireLocked [Sweep 1000]
       (snd (handle_command memory_backend (demo_env 0 ''aaaaaaaaaaaaaaaa'') (demo_lock ''imap/1/a/s1'')
          NewMemoryBackend)))) =
   writeFields [''BUSY'', ''imap/1/a/s1'', ''append'']"
  using lock_excludes [OF wf_new, of "demo_env 0 ''aaaaaaaaaaaaaaaa''" "demo_lock ''imap/1/a/s1''" "[Sweep 1000]"
      "demo_env 2000 ''bbbbbbbbbbbbbbbb''" "demo_lock ''lmtp/2/a/s2''" 5000000000 _ _
      "''61616161616161616161616161616161''" 5000000000]
  unfolding demo_grant
  by (simp add: fresh_draws_def demo_id NewMemoryBackend_def demo_lock_def demo_ttl lock_site_def
      writeFields_def contains_any_def tab_def lf_def)


text \<open>A command for a resource with no live lock on it is granted.\<close>

lemma granted_when_free:
  assumes "wf_backend b" and "fresh_id e (table b)" and "randID e = Some i"
    and "fs ! 0 = ''LOCK''" and "length fs = 4 \<or> length fs = 5"
    and "fs ! 1 \<noteq> []" "fs ! 2 \<noteq> []" and "parseTTL (fs ! 3) = Inr ttl"
    and "\<And>sh. locks_on (live (le_now e) (table b)) sh (fs ! 1) = {}"
  shows "fst (handle_command memory_backend e fs b) = writeFields [''OK'', i]"
proof -
  have "fst (spec_acquire False e (fs ! 1) (fs ! 2) (lock_site fs) ttl (table b)) = Granted i"
    using assms(3,6,7,9) by (simp add: spec_acquire_def blocked_def Let_def)
  with Acquire_refines(1) [OF assms(1,2), of "fs ! 1" "fs ! 2" "lock_site fs" ttl]
  have "fst (Acquire e (fs ! 1) (fs ! 2) (lock_site fs) ttl b) = Inr i" by simp
  moreover have "fs \<noteq> []" using assms(5) by auto
  ultimately show ?thesis
    using fst_handleLock [OF assms(5,8), of memory_backend e b] assms(4) by (simp add: handle_command_def)
qed

lemma locks_on_exclusive:
  assumes "exclusion T" and "T i = Some l" and "\<not> ml_Shared l"
  shows "locks_on T sh (ml_Resource l) \<subseteq> {i}"
  using assms by (auto simp: locks_on_def exclusion_def)

lemma locks_on_mono: "(\<And>i l. T' i = Some l \<Longrightarrow> T i = Some l) \<Longrightarrow> locks_on T' sh r \<subseteq> locks_on T sh r"
  by (auto simp: locks_on_def)

lemma freed_lock:
  assumes "wf_backend b" and "table b i = Some l" and "\<not> ml_Shared l"
    and "(\<forall>j k. T j = Some k \<longrightarrow> table b j = Some k) \<and> T i = None"
  shows "locks_on T sh (ml_Resource l) = {}"
proof -
  have "exclusion (table b)" using assms(1) by (simp add: wf_backend_def consistent_def)
  from locks_on_exclusive [OF this assms(2,3), of sh] have "locks_on T sh (ml_Resource l) \<subseteq> {i}"
    using locks_on_mono [of T "table b" sh "ml_Resource l"] assms(4)
    by blast
  moreover have "i \<notin> locks_on T sh (ml_Resource l)" using assms(4) by (simp add: locks_on_def)
  ultimately show ?thesis by blast
qed

text \<open>
  C10. A lock does not outlive its holder: once the holder has sent \<^verbatim>\<open>UNLOCK\<close>, or once the
  TTL has run out, the next well-formed \<^verbatim>\<open>LOCK\<close> on the resource is answered \<^verbatim>\<open>OK\<close> with the
  identifier drawn for it.
\<close>

theorem lock_freed:
  assumes "wf_backend b" and "table b i = Some l" and "\<not> ml_Shared l"
    and "b1 = snd (handle_command memory_backend e0 [''UNLOCK'', i] b) \<or> b1 = b \<and> ml_ExpiresAt l \<le> le_now e"
    and "fresh_id e (table b)" and "randID e = Some j"
    and "fs ! 0 = ''LOCK''" and "length fs = 4 \<or> length fs = 5"
    and "fs ! 1 = ml_Resource l" and "fs ! 1 \<noteq> []" "fs ! 2 \<noteq> []" and "parseTTL (fs ! 3) = Inr ttl"
  shows "fst (handle_command memory_backend e fs b1) = writeFields [''OK'', j]"
proof -
  have "wf_backend b1 \<and> (\<forall>j k. live (le_now e) (table b1) j = Some k \<longrightarrow> table b j = Some k) \<and>
      live (le_now e) (table b1) i = None \<and> fresh_id e (table b1)"
    using assms(4)
  proof
    assume "b1 = snd (handle_command memory_backend e0 [''UNLOCK'', i] b)"
    then have b1: "b1 = snd (Release e0 i b)" by (simp add: handle_command_def snd_handleUnlock)
    have none: "table b1 i = None" and sub: "\<forall>j k. table b1 j = Some k \<longrightarrow> table b j = Some k"
      using Release_refines(2) [OF assms(1), of e0 i]
      by (auto simp: b1 spec_release_def Let_def split: option.splits if_splits dest: live_sub)
    have "fresh_id e (table b1)"
    proof (intro allI impI)
      fix k assume "randID e = Some k"
      then have "table b k = None" using assms(5) by simp
      then show "table b1 k = None" using sub by (cases "table b1 k") auto
    qed
    moreover have "wf_backend b1" unfolding b1 by (rule Release_refines(3) [OF assms(1)])
    ultimately show ?thesis using none sub live_sub [of "le_now e" "table b1"] by (auto simp: live_def)
  next
    assume "b1 = b \<and> ml_ExpiresAt l \<le> le_now e"
    then show ?thesis
      using assms(1,2,5) live_sub [of "le_now e" "table b"] by (auto simp: live_def)
  qed
  then show ?thesis
    using freed_lock [OF assms(1-3), of "live (le_now e) (table b1)"] assms(6-12)
    by (intro granted_when_free [where ttl = ttl]) simp_all
qed

theorem lock_freed_witness:
  "fst (handle_command memory_backend (demo_env 2000 ''bbbbbbbbbbbbbbbb'') (demo_lock ''lmtp/2/a/s2'')
     (snd (handle_command memory_backend (demo_env 1000 ''cccccccccccccccc'')
        [''UNLOCK'', ''61616161616161616161616161616161'']
       (snd (handle_command memory_backend (demo_env 0 ''aaaaaaaaaaaaaaaa'') (demo_lock ''imap/1/a/s1'')
          NewMemoryBackend))))) =
   writeFields [''OK'', ''62626262626262626262626262626262'']"
proof (rule lock_freed [where ttl = 5000000000])
  have "wf_backend (snd (handle_command memory_backend (demo_env 0 ''aaaaaaaaaaaaaaaa'')
      (demo_lock ''imap/1/a/s1'') NewMemoryBackend))"
    by (intro mem.command_ok wf_new) (simp add: NewMemoryBackend_def)
  then show "wf_backend (snd (handle_command memory_backend (demo_env 0 ''aaaaaaaaaaaaaaaa'')
      (demo_lock ''imap/1/a/s1'') NewMemoryBackend))" .
  show "table (snd (handle_command memory_backend (demo_env 0 ''aaaaaaaaaaaaaaaa'')
      (demo_lock ''imap/1/a/s1'') NewMemoryBackend)) ''61616161616161616161616161616161'' =
    Some \<lparr> ml_ID = ''61616161616161616161616161616161'', ml_Resource = ''mbox:a:INBOX'',
      ml_Owner = ''imap/1/a/s1'', ml_Site = ''append'', ml_ExpiresAt = 5000000000, ml_Shared = False \<rparr>"
    by (simp add: demo_grant)
  show "fresh_id (demo_env 2000 ''bbbbbbbbbbbbbbbb'') (table (snd (handle_command memory_backend
      (demo_env 0 ''aaaaaaaaaaaaaaaa'') (demo_lock ''imap/1/a/s1'') NewMemoryBackend)))"
    by (simp add: demo_grant demo_id)
qed (simp_all add: demo_id demo_lock_def demo_ttl)


subsection \<open>The server always answers\<close>

text \<open>
  Owners and sites travel back to clients in \<^verbatim>\<open>BUSY\<close> lines, so they must stay free of the
  separators; and a publication must meet no closed channel.
\<close>

definition clean_table :: "(string \<Rightarrow> memLock option) \<Rightarrow> bool" where
  "clean_table T \<longleftrightarrow> (\<forall>i l. T i = Some l \<longrightarrow> clean (ml_Owner l) \<and> clean (ml_Site l))"

definition server_inv :: "MemoryBackend \<Rightarrow> bool" where
  "server_inv b \<longleftrightarrow> wf_backend b \<and> wf_bus b \<and> clean_table (table b)"

lemma bus_unchanged: "mb_subs b' = mb_subs b \<Longrightarrow> mb_chans b' = mb_chans b \<Longrightarrow> wf_bus b' \<longleftrightarrow> wf_bus b"
  by (simp add: wf_bus_def publish_snapshot_def)

lemma drop_lock_bus [simp]:
  "mb_subs (drop_lock i l b) = mb_subs b" "mb_chans (drop_lock i l b) = mb_chans b"
  by (simp_all add: drop_lock_def releaseFromIndexLocked_def Let_def split: option.splits)

lemma expire_step_bus [simp]:
  "mb_subs (expire_step now e b) = mb_subs b" "mb_chans (expire_step now e b) = mb_chans b"
  by (simp_all add: expire_step_def)

lemma expireLocked_bus [simp]:
  "mb_subs (expireLocked now b) = mb_subs b" "mb_chans (expireLocked now b) = mb_chans b"
proof -
  have "mb_subs (fold (expire_step now) xs b) = mb_subs b \<and> mb_chans (fold (expire_step now) xs b) = mb_chans b" for xs
    by (induction xs arbitrary: b) simp_all
  then show "mb_subs (expireLocked now b) = mb_subs b" "mb_chans (expireLocked now b) = mb_chans b"
    by (simp_all add: expireLocked_def)
qed

lemma lock_ops_bus [simp]:
  "wf_bus (snd (Acquire e r ow st ttl b)) \<longleftrightarrow> wf_bus b"
  "wf_bus (snd (AcquireShared e r ow st ttl b)) \<longleftrightarrow> wf_bus b"
  "wf_bus (snd (Release e i b)) \<longleftrightarrow> wf_bus b"
  "wf_bus (snd (Renew e i ttl b)) \<longleftrightarrow> wf_bus b"
  "wf_bus (snd (IncrementCounter k d b)) \<longleftrightarrow> wf_bus b"
  "wf_bus (expireLocked now b) \<longleftrightarrow> wf_bus b"
  by (rule bus_unchanged;
      simp add: Acquire_def AcquireShared_def Release_def Renew_def IncrementCounter_def Let_def
      split: option.split)+

lemma send_all_chans:
  assumes "\<forall>c \<in> set cs. is_open b c" and "send_all cs evt b = Some b'"
  shows "mb_subs b' = mb_subs b \<and> keys (mb_chans b') = keys (mb_chans b) \<and>
    length (mb_chans b') = length (mb_chans b) \<and> (\<forall>c. is_open b' c \<longleftrightarrow> is_open b c)"
  using assms
proof (induction cs arbitrary: b)
  case (Cons c cs)
  then obtain ch where ch: "map_of (mb_chans b) c = Some ch" "\<not> ch_closed ch" by auto
  obtain b1 where b1: "send_event c evt b = Some b1" using Cons.prems(2) by (auto split: option.splits)
  have "c \<in> keys (mb_chans b)" using map_of_SomeD [OF ch(1)] by force
  then have "keys (AList.update c v (mb_chans b)) = keys (mb_chans b)"
    and "length (AList.update c v (mb_chans b)) = length (mb_chans b)" for v
    by (simp_all add: dom_update insert_absorb length_update)
  then have s: "mb_subs b1 = mb_subs b \<and> keys (mb_chans b1) = keys (mb_chans b) \<and>
    length (mb_chans b1) = length (mb_chans b) \<and> (\<forall>c. is_open b1 c \<longleftrightarrow> is_open b c)"
    using b1 ch by (cases "length (ch_buf ch) < chan_cap") (clarsimp simp: send_event_def gomap_simps)+
  then have "\<forall>d \<in> set cs. is_open b1 d" using Cons.prems(1) by simp
  moreover have "send_all cs evt b1 = Some b'" using Cons.prems(2) b1 by simp
  ultimately show ?case using Cons.IH [of b1] s by simp
qed simp

lemma Publish_bus: "wf_bus b \<Longrightarrow> wf_bus (snd (Publish r t p b))"
proof -
  assume wf: "wf_bus b"
  then have o: "\<forall>c \<in> set (publish_snapshot r b). is_open b c" by (simp add: wf_bus_def)
  from wf obtain b' where b': "Publish r t p b = (Inr (), b')" by (rule Publish_ok)
  then have "send_all (publish_snapshot r b) \<lparr> ev_Resource = r, ev_Type = t, ev_Payload = p \<rparr> b = Some b'"
    by (simp add: Publish_def split: option.splits)
  from send_all_chans [OF o this] wf b' show ?thesis by (simp add: wf_bus_def publish_snapshot_def)
qed

lemma Subscribe_bus: "wf_bus b \<Longrightarrow> wf_bus (snd (Subscribe r b))"
proof -
  assume wf: "wf_bus b"
  let ?c = "length (mb_chans b)" and ?b = "snd (Subscribe r b)"
  have new: "?c \<notin> keys (mb_chans b)" using wf by (simp add: wf_bus_def)
  then have none: "map_of (mb_chans b) ?c = None" by (simp add: map_of_eq_None_iff)
  have sn: "publish_snapshot q ?b = publish_snapshot q b @ (if q = r then [?c] else [])" for q
    by (simp add: publish_snapshot_def Subscribe_def Let_def gomap_simps)
  have ch: "map_of (mb_chans ?b) = (map_of (mb_chans b))(?c \<mapsto> \<lparr> ch_buf = [], ch_closed = False \<rparr>)"
    by (simp add: Subscribe_def Let_def gomap_simps)
  have "?c \<notin> set (publish_snapshot q b)" for q using wf none by (fastforce simp: wf_bus_def)
  moreover have "keys (mb_chans ?b) = {..< length (mb_chans ?b)}"
    using wf new by (auto simp: Subscribe_def Let_def length_update dom_update wf_bus_def)
  ultimately show ?thesis using wf unfolding wf_bus_def sn ch by auto
qed

lemma clean_acquire:
  assumes "clean_table T" and "clean ow" and "clean st"
  shows "clean_table (snd (spec_acquire sh e r ow st ttl T))"
  using assms live_sub [of "le_now e" T]
  by (auto simp: clean_table_def spec_acquire_def Let_def split: option.splits if_splits)

lemma clean_release: "clean_table T \<Longrightarrow> clean_table (snd (spec_release e i T))"
  using live_sub [of "le_now e" T]
  by (auto simp: clean_table_def spec_release_def Let_def split: option.splits if_splits)

lemma clean_renew: "clean_table T \<Longrightarrow> clean_table (snd (spec_renew e i ttl T))"
  using live_sub [of "le_now e" T]
  by (auto simp: clean_table_def spec_renew_def Let_def split: option.splits if_splits)

lemma clean_live: "clean_table T \<Longrightarrow> clean_table (live now T)"
  using live_sub [of now T] by (auto simp: clean_table_def)

lemma clean_unknown: "clean SiteUnknown"
  by (simp add: SiteUnknown_def tab_def lf_def)

lemma clean_site: "list_all clean fs \<Longrightarrow> clean (lock_site fs)"
  by (simp add: lock_site_def clean_unknown list_all_length)

abbreviation clean_cmd :: "string list \<Rightarrow> bool" where
  "clean_cmd fs \<equiv> fs \<noteq> [] \<and> list_all clean fs"

lemma clean_nth: "list_all clean fs \<Longrightarrow> i < length fs \<Longrightarrow> clean (fs ! i)"
  by (simp add: list_all_length)

lemma command_inv:
  assumes "server_inv b" and "fresh_id e (table b)" and "list_all clean fs"
  shows "server_inv (snd (handle_command memory_backend e fs b))"
proof -
  have wf: "wf_backend b" and bus: "wf_bus b" and cl: "clean_table (table b)"
    using assms(1) by (simp_all add: server_inv_def)
  have "wf_backend (snd (handle_command memory_backend e fs b))" by (rule mem.command_ok [OF wf assms(2)])
  moreover have "wf_bus (snd (handle_command memory_backend e fs b))"
    by (rule command_rule) (simp_all add: bus Publish_bus Subscribe_bus)
  moreover have "clean_table (table (snd (handle_command memory_backend e fs b)))"
  proof (cases "2 < length fs")
    case True
    then show ?thesis
      using cl clean_nth [OF assms(3), of 2] clean_site [OF assms(3)] wf assms(2)
      by (rule_tac command_rule) (simp_all add: Acquire_refines AcquireShared_refines Release_refines
        Renew_refines Publish_fields clean_acquire clean_release clean_renew,
        simp_all add: Subscribe_def IncrementCounter_def Let_def)
  next
    case False
    then have "\<not> (length fs = 4 \<or> length fs = 5)" by linarith
    then show ?thesis
      using cl wf unfolding handle_command_def
      by (simp add: snd_handleLock snd_handleLockShared snd_handleUnlock snd_handleRenew snd_handleEmit
          snd_handleSubscribe snd_handleCounterInc Release_refines Renew_refines Publish_fields
          clean_release clean_renew Subscribe_def IncrementCounter_def Let_def split: sum.split option.split)
  qed
  ultimately show ?thesis by (simp add: server_inv_def)
qed

lemma reply_clean: "list_all clean fs \<Longrightarrow> writeFields fs \<noteq> None"
  using writeFields_Some [of fs "join_byte tab fs @ [lf]"] by simp

lemma respError_Some: "clean what \<Longrightarrow> respError what \<noteq> None"
  unfolding respError_def by (rule reply_clean) (simp add: tab_def lf_def)

lemma digit_clean: "is_digit c \<Longrightarrow> c \<noteq> tab \<and> c \<noteq> lf"
  by (auto simp: is_digit_def tab_def lf_def)

lemma itoa_clean: "clean (itoa n)"
  using itoa_set digit_clean by blast

lemma format_int_clean: "clean (format_int v)"
  using itoa_clean by (simp add: format_int_def tab_def lf_def)

lemma reports_clean: "reports T r h \<Longrightarrow> clean_table T \<Longrightarrow> clean (h_Owner h) \<and> clean (h_Site h)"
  using itoa_clean by (auto simp: reports_def clean_table_def) (auto simp: tab_def lf_def)

lemma acquire_answers:
  assumes "meets L r (fst (spec_acquire sh e q ow st ttl T)) res" and "clean_table L"
  shows "reply_acquire res \<noteq> None"
proof (cases "fst (spec_acquire sh e q ow st ttl T)")
  case (Refused x)
  then have "x = EmptyArgument \<or> x = RandFailed"
    by (auto simp: spec_acquire_def Let_def split: if_splits option.splits)
  then have "reply_internal x \<noteq> None" "reply_acquire (Inl x) = reply_internal x"
    using respError_Some [of "''internal''"] by (auto simp: tab_def lf_def)
  with assms(1) Refused show ?thesis by simp
next
  case Blocked
  with assms obtain h where "res = Inl (ErrBusy h)" "reports L r h" by auto
  with reports_clean [OF _ assms(2)] show ?thesis
    using reply_clean [of "[''BUSY'', h_Owner h, h_Site h]"] by (simp add: tab_def lf_def)
next
  case (Granted i)
  then have "clean i"
    using hex_clean by (auto simp: spec_acquire_def Let_def randID_def split: if_splits option.splits)
  with assms(1) Granted show ?thesis
    using reply_clean [of "[''OK'', i]"] by (simp add: tab_def lf_def)
qed

lemma words_answer:
  "writeFields [''OK''] \<noteq> None" "writeFields [''NOT_FOUND''] \<noteq> None" "writeFields [''EXPIRED''] \<noteq> None"
  "writeFields [''OK'', format_int v] \<noteq> None"
  "respError ''bad_lock'' \<noteq> None" "respError ''bad_ttl'' \<noteq> None" "respError ''bad_unlock'' \<noteq> None"
  "respError ''bad_renew'' \<noteq> None" "respError ''bad_counter_inc'' \<noteq> None" "respError ''bad_delta'' \<noteq> None"
  "respError ''bad_emit'' \<noteq> None" "respError ''bad_subscribe'' \<noteq> None"
  "respError ''unknown_command'' \<noteq> None" "respError ''internal'' \<noteq> None"
  by (rule reply_clean respError_Some; use format_int_clean in \<open>simp add: tab_def lf_def\<close>)+

lemma command_answers:
  assumes "server_inv b" and "fresh_id e (table b)" and "fs \<noteq> []"
  shows "fst (handle_command memory_backend e fs b) \<noteq> None"
proof -
  have wf: "wf_backend b" and bus: "wf_bus b" and cl: "clean_table (live (le_now e) (table b))"
    using assms(1) clean_live by (auto simp: server_inv_def)
  note A = acquire_answers [OF Acquire_refines(1) [OF wf assms(2)] cl]
    acquire_answers [OF AcquireShared_refines(1) [OF wf assms(2)] cl]
  obtain p where p: "Publish (fs ! 1) (fs ! 2) (fs ! 3) b = (Inr (), p)" using bus by (rule Publish_ok)
  have "fst (handleLock memory_backend e fs b) \<noteq> None"
    using words_answer A(1) [of "fs ! 1" "fs ! 2" "lock_site fs"]
    by (simp add: handleLock_def split: sum.split prod.split) (metis fst_conv)
  moreover have "fst (handleLockShared memory_backend e fs b) \<noteq> None"
    using words_answer A(2) [of "fs ! 1" "fs ! 2" "lock_site fs"]
    by (simp add: handleLockShared_def split: sum.split prod.split) (metis fst_conv)
  moreover have "fst (handleUnlock memory_backend e fs b) \<noteq> None"
    using words_answer by (simp add: handleUnlock_def Release_def Let_def split: option.split)
  moreover have "fst (handleRenew memory_backend e fs b) \<noteq> None"
    using words_answer by (simp add: handleRenew_def Renew_def Let_def split: option.split sum.split)
  moreover have "fst (handleEmit memory_backend fs b) \<noteq> None"
    using words_answer p by (simp add: handleEmit_def)
  moreover have "fst (handleSubscribe memory_backend fs b) \<noteq> None"
    using words_answer by (simp add: handleSubscribe_def Subscribe_def Let_def)
  moreover have "fst (handleCounterInc memory_backend fs b) \<noteq> None"
    using words_answer by (simp add: handleCounterInc_def IncrementCounter_def Let_def split: option.split)
  ultimately show ?thesis
    using assms(3) words_answer unfolding handle_command_def by simp
qed

fun clean_event :: "server_event \<Rightarrow> bool" where
  "clean_event (Command e fs) \<longleftrightarrow> fs \<noteq> [] \<and> list_all clean fs"
| "clean_event _ \<longleftrightarrow> True"

text \<open>The handler that made a subscription ends it, and it does so once.\<close>

fun ends_once :: "server_event list \<Rightarrow> MemoryBackend \<Rightarrow> bool" where
  "ends_once [] b \<longleftrightarrow> True"
| "ends_once (ev # evs) b \<longleftrightarrow>
    (case ev of StreamEnd r c \<Rightarrow> c \<in> set (publish_snapshot r b) | _ \<Rightarrow> True) \<and>
    ends_once evs (snd (exec memory_backend expireLocked ev b))"

lemma run_inv:
  assumes "server_inv b" and "fresh_draws evs (table b)" and "list_all clean_event evs" and "ends_once evs b"
  shows "server_inv (run memory_backend expireLocked evs b) \<and>
    dom (table (run memory_backend expireLocked evs b)) \<subseteq> dom (table b) \<union> set (concat (map drawn evs))"
  using assms
proof (induction evs arbitrary: b)
  case (Cons ev evs)
  let ?b = "snd (exec memory_backend expireLocked ev b)"
  have step: "server_inv ?b \<and> dom (table ?b) \<subseteq> dom (table b) \<union> set (drawn ev)"
  proof (cases ev)
    case (Command e fs)
    then have f: "fresh_id e (table b)" using Cons.prems(2) fresh_draws_id by simp
    have "set (drawn ev) = set_option (randID e)" using Command by (cases "randID e") simp_all
    then show ?thesis
      using command_inv [OF Cons.prems(1) f] mem.command_dom [OF _ f] Cons.prems(1,3) Command
      by (simp add: server_inv_def)
  next
    case (Sweep now)
    then show ?thesis
      using Cons.prems(1) live_dom [of now "table b"]
      by (simp add: server_inv_def expireLocked_spec clean_live)
  next
    case (StreamNext c)
    then show ?thesis
      using Cons.prems(1) stream_fields(1) [of c b]
      by (simp add: server_inv_def snd_StreamNext receive_bus wf_other_fields del: exec.simps)
  next
    case (StreamEnd r c)
    then show ?thesis
      using Cons.prems(1,4) stream_fields(2) [of r c b] cancel_registered [of b c r]
      by (simp add: server_inv_def wf_other_fields)
  qed
  then have "fresh_draws evs (table ?b)"
    using fresh_draws_after [of "[ev]" evs "table b" "table ?b"] Cons.prems(2) by simp
  from Cons.IH [OF _ this] step Cons.prems(3,4)
  have IH: "server_inv (run memory_backend expireLocked evs ?b)"
    "dom (table (run memory_backend expireLocked evs ?b)) \<subseteq> dom (table ?b) \<union> set (concat (map drawn evs))"
    by simp_all
  then have "dom (table (run memory_backend expireLocked evs ?b)) \<subseteq>
      dom (table b) \<union> set (drawn ev) \<union> set (concat (map drawn evs))"
    using step by blast
  with IH(1) show ?case by (simp add: Un_assoc)
qed simp

text \<open>
  C11. Whatever commands the connections have sent so far, in whatever order, with sweeper
  ticks, deliveries to subscribers and ends of subscriptions in between, each of these run
  to its end before the next: the state is well formed (the indexes agree with the table,
  no resource has an exclusive lock beside another lock); the next command line is
  answered, with no panic and no reply that the framing refuses to write; and every
  subscription that is still registered can end without a panic. The identifiers drawn are
  taken to be fresh, and each subscription to be ended once, by the handler that made it.
  That the commands do not overlap matters: an \<^verbatim>\<open>EMIT\<close> that overlaps the end of a
  subscription can panic, which is the interleaving \<open>bus_step\<close> shows.
\<close>

theorem server_answers:
  assumes "fresh_draws (evs @ [Command e fs]) Map.empty" and "list_all clean_event (evs @ [Command e fs])"
    and "ends_once evs NewMemoryBackend"
  shows "wf_backend (run memory_backend expireLocked evs NewMemoryBackend) \<and>
    exclusion (table (run memory_backend expireLocked evs NewMemoryBackend)) \<and>
    (\<exists>line. fst (handle_command memory_backend e fs
        (run memory_backend expireLocked evs NewMemoryBackend)) = Some line) \<and>
    (\<forall>r. \<forall>c \<in> set (publish_snapshot r (run memory_backend expireLocked evs NewMemoryBackend)).
        fst (cancel r c (run memory_backend expireLocked evs NewMemoryBackend)) = Inr ())"
proof -
  let ?b = "run memory_backend expireLocked evs NewMemoryBackend"
  have init: "server_inv NewMemoryBackend"
    using wf_new by (simp add: server_inv_def wf_bus_def publish_snapshot_def clean_table_def NewMemoryBackend_def)
  have e: "table NewMemoryBackend = Map.empty" by (simp add: NewMemoryBackend_def)
  have "fresh_draws evs (table NewMemoryBackend)" using fresh_draws_prefix [OF assms(1)] e by simp
  from run_inv [OF init this _ assms(3)] assms(2) have inv: "server_inv ?b"
    and d: "dom (table ?b) \<subseteq> dom (Map.empty :: string \<Rightarrow> memLock option) \<union> set (concat (map drawn evs))"
    by (simp_all add: e)
  then have "wf_backend ?b" and "exclusion (table ?b)" and bus: "wf_bus ?b"
    by (simp_all add: server_inv_def wf_backend_def consistent_def)
  moreover have "fresh_id e (table ?b)"
    using fresh_draws_id [OF fresh_draws_after [OF assms(1) d]] .
  ultimately show ?thesis
    using command_answers [OF inv, of e fs] cancel_registered [OF bus] assms(2) by auto
qed

text \<open>A subscription is made, an event is sent to it and delivered, and it ends, between two locks.\<close>

definition demo_events :: "server_event list" where
  "demo_events =
    [Command (demo_env 0 ''aaaaaaaaaaaaaaaa'') (demo_lock ''imap/1/a/s1''),
     Command (demo_env 1 ''cccccccccccccccc'') [''SUBSCRIBE'', ''mbox:a''],
     Command (demo_env 2 ''dddddddddddddddd'') [''EMIT'', ''mbox:a'', ''changed'', []],
     StreamNext 0, StreamEnd ''mbox:a'' 0, Sweep 1000]"

lemma demo_events_ok:
  "fresh_draws (demo_events @ [Command (demo_env 2000 ''bbbbbbbbbbbbbbbb'') (demo_lock ''lmtp/2/a/s2'')]) Map.empty"
  "list_all clean_event (demo_events @ [Command (demo_env 2000 ''bbbbbbbbbbbbbbbb'') (demo_lock ''lmtp/2/a/s2'')])"
  "ends_once demo_events NewMemoryBackend"
proof -
  show "fresh_draws (demo_events @ [Command (demo_env 2000 ''bbbbbbbbbbbbbbbb'') (demo_lock ''lmtp/2/a/s2'')]) Map.empty"
    unfolding fresh_draws_def dom_empty by code_simp
qed code_simp+

theorem server_answers_witness:
  "wf_backend (run memory_backend expireLocked demo_events NewMemoryBackend) \<and>
   (\<exists>line. fst (handle_command memory_backend (demo_env 2000 ''bbbbbbbbbbbbbbbb'') (demo_lock ''lmtp/2/a/s2'')
      (run memory_backend expireLocked demo_events NewMemoryBackend)) = Some line)"
  using server_answers [OF demo_events_ok] by blast

subsection \<open>The wire\<close>

lemma readFields_written:
  assumes "writeFields fs = Some w"
  shows "readFields (w @ rest) =
    (if maxLineLen < length w then (Inl LineTooLong, rest)
     else if fs = [] \<or> fs = [[]] then (Inl EmptyLine, rest)
     else (Inr fs, rest))"
proof -
  from assms have c: "list_all clean fs" and w: "w = join_byte tab fs @ [lf]"
    by (simp_all add: writeFields_Some)
  have n: "lf \<notin> set (join_byte tab fs)"
    using c join_byte_set [of lf tab fs] by (auto simp: list_all_iff)
  have tw: "takeWhile (\<lambda>c. c \<noteq> lf) (w @ rest) = join_byte tab fs"
    "dropWhile (\<lambda>c. c \<noteq> lf) (w @ rest) = lf # rest"
    using n by (auto simp: w takeWhile_append dropWhile_append)
  show ?thesis
  proof (cases "maxLineLen < length w \<or> fs = [] \<or> fs = [[]]")
    case True
    then show ?thesis
      using tw n by (auto simp: readFields_def Let_def trim_lf w join_byte_Nil)
  next
    case False
    then show ?thesis using readFields_writeFields [OF assms] by simp
  qed
qed

text \<open>
  C12. What the wire carries, exactly. A line \<^verbatim>\<open>writeFields\<close> agrees to write is read back by
  \<^verbatim>\<open>readFields\<close> as the same fields, whatever follows it on the connection, when it has at
  most 8192 bytes and is not the empty line of no field or of one empty field. Nothing in
  \<^verbatim>\<open>writeFields\<close> enforces that: a longer line is written and then refused by the reader, and
  so is the empty line; in each case the reader is left at the next line. A TTL of at least a
  millisecond comes back rounded down to whole milliseconds.
\<close>

theorem wire_roundtrip:
  assumes "writeFields fs = Some w" and "millisecond \<le> ttl" and "in_int64 ttl"
  shows "readFields (w @ rest) =
      (if maxLineLen < length w then (Inl LineTooLong, rest)
       else if fs = [] \<or> fs = [[]] then (Inl EmptyLine, rest)
       else (Inr fs, rest)) \<and>
    (\<exists>t. formatTTL ttl = Inr t \<and> parseTTL t = Inr (ttl - ttl mod millisecond))"
  using readFields_written [OF assms(1)] TTL_wire [OF assms(2,3)] by blast

theorem wire_roundtrip_witness:
  "readFields (''UNLOCK'' @ [tab] @ ''ab12'' @ [lf] @ ''rest'') = (Inr [''UNLOCK'', ''ab12''], ''rest'') \<and>
   (\<exists>t. formatTTL 30000500000 = Inr t \<and> parseTTL t = Inr 30000000000)"
  using wire_roundtrip [of "[''UNLOCK'', ''ab12'']" "''UNLOCK'' @ [tab] @ ''ab12'' @ [lf]" 30000500000 "''rest''"]
  by (simp add: writeFields_def contains_any_def tab_def lf_def maxLineLen_def millisecond_def)

lemma granted_table:
  assumes "wf_backend b" and "fresh_id e (table b)" and "randID e = Some i"
    and "r \<noteq> []" "ow \<noteq> []" and "parseTTL t = Inr ttl"
    and "\<And>sh. locks_on (live (le_now e) (table b)) sh r = {}"
  obtains b1 where "handle_command memory_backend e [''LOCK'', r, ow, t] b = (writeFields [''OK'', i], b1)"
    and "wf_backend b1"
    and "table b1 = (live (le_now e) (table b))(i \<mapsto> \<lparr> ml_ID = i, ml_Resource = r, ml_Owner = ow,
           ml_Site = SiteUnknown, ml_ExpiresAt = le_now2 e + ttl, ml_Shared = False \<rparr>)"
proof -
  let ?fs = "[''LOCK'', r, ow, t]" and ?b1 = "snd (Acquire e r ow SiteUnknown ttl b)"
  have s: "lock_site ?fs = SiteUnknown" by (simp add: lock_site_def)
  have "fst (handle_command memory_backend e ?fs b) = writeFields [''OK'', i]"
    by (rule granted_when_free [OF assms(1-3)]) (use assms(4-7) in simp_all)
  moreover have "snd (handle_command memory_backend e ?fs b) = ?b1"
    using assms(6) by (simp add: handle_command_def snd_handleLock s)
  ultimately have "handle_command memory_backend e ?fs b = (writeFields [''OK'', i], ?b1)"
    by (metis prod.collapse)
  moreover have "table ?b1 = (live (le_now e) (table b))(i \<mapsto> \<lparr> ml_ID = i, ml_Resource = r, ml_Owner = ow,
           ml_Site = SiteUnknown, ml_ExpiresAt = le_now2 e + ttl, ml_Shared = False \<rparr>)"
    using assms(3-5,7) Acquire_refines(2) [OF assms(1,2), of r ow SiteUnknown ttl]
    by (simp add: spec_acquire_def blocked_def Let_def)
  ultimately show thesis using that Acquire_refines(3) [OF assms(1,2)] by blast
qed

text \<open>
  C13. A TTL the wire cannot carry. \<^verbatim>\<open>parseTTL\<close> refuses a non-positive number of
  milliseconds, but it multiplies by a million in 64 bits afterwards and does not look at the
  product. For every number of milliseconds whose product wraps to zero or below, as that of
  \<^verbatim>\<open>9223372036855\<close> does, the TTL is accepted; on any backend with no live lock on the
  resource a \<^verbatim>\<open>LOCK\<close> with it is answered \<^verbatim>\<open>OK\<close>, and yet the next well-formed \<^verbatim>\<open>LOCK\<close> on the
  resource, at no later an instant than the clock has reached, is answered \<^verbatim>\<open>OK\<close> as well. And
  every positive TTL below a millisecond is sent as \<^verbatim>\<open>0\<close>, which the server refuses.
\<close>

theorem ttl_overflow_two_holders:
  assumes "atoi t = Some ms" and "0 < ms" and "int64 (ms * millisecond) \<le> 0"
    and "wf_backend b" and "\<forall>sh. locks_on (live (le_now e) (table b)) sh r = {}"
    and "randID e = Some i" and "randID e' = Some j" and "i \<noteq> j" and "table b i = None" "table b j = None"
    and "le_now2 e \<le> le_now e'" and "r \<noteq> []" "o1 \<noteq> []" "o2 \<noteq> []" and "parseTTL t' = Inr ttl'"
  shows "(\<exists>b1. handle_command memory_backend e [''LOCK'', r, o1, t] b = (writeFields [''OK'', i], b1) \<and>
      fst (handle_command memory_backend e' [''LOCK'', r, o2, t'] b1) = writeFields [''OK'', j]) \<and>
    (\<forall>u. 0 < u \<and> u < millisecond \<longrightarrow> formatTTL u = Inr ''0'') \<and> parseTTL ''0'' = Inl NonPositiveTTL"
proof -
  have p: "parseTTL t = Inr (int64 (ms * millisecond))" using assms(1,2) by (simp add: parseTTL_def)
  have "formatTTL u = Inr ''0''" if "0 < u" "u < millisecond" for u
    using that by (simp add: formatTTL_def format_int_def itoa.simps char_of_def bit_iff_odd)
  moreover have "parseTTL ''0'' = Inl NonPositiveTTL"
    by (simp add: parseTTL_def atoi_def has_prefix_def digits_val_def is_digit_def Let_def)
  moreover obtain b1 where g: "handle_command memory_backend e [''LOCK'', r, o1, t] b = (writeFields [''OK'', i], b1)"
    and wf: "wf_backend b1"
    and T: "table b1 = (live (le_now e) (table b))(i \<mapsto> \<lparr> ml_ID = i, ml_Resource = r, ml_Owner = o1,
           ml_Site = SiteUnknown, ml_ExpiresAt = le_now2 e + int64 (ms * millisecond), ml_Shared = False \<rparr>)"
    by (rule granted_table [OF assms(4) _ assms(6) assms(12,13) p]) (use assms(5,6,9) in simp_all)
  have "locks_on (live (le_now e') (table b1)) sh r \<subseteq> locks_on (live (le_now e) (table b)) sh r" for sh
    using assms(3,11) by (auto simp: locks_on_def T live_def split: option.splits if_splits)
  then have "fst (handle_command memory_backend e' [''LOCK'', r, o2, t'] b1) = writeFields [''OK'', j]"
    using assms(5,7,8,10,12,14,15)
    by (intro granted_when_free [OF wf, where ttl = ttl']) (simp_all add: T live_def)
  ultimately show ?thesis using g by blast
qed

theorem ttl_overflow_two_holders_witness:
  "\<exists>b1. handle_command memory_backend (demo_env 0 ''aaaaaaaaaaaaaaaa'')
       [''LOCK'', ''r'', ''o1'', ''9223372036855''] NewMemoryBackend =
       (writeFields [''OK'', ''61616161616161616161616161616161''], b1) \<and>
     fst (handle_command memory_backend (demo_env 0 ''bbbbbbbbbbbbbbbb'') [''LOCK'', ''r'', ''o2'', ''5000''] b1)
       = writeFields [''OK'', ''62626262626262626262626262626262'']"
proof -
  have a: "atoi ''9223372036855'' = Some 9223372036855"
    by (simp add: atoi_def has_prefix_def digits_val_def is_digit_def Let_def)
  have w: "int64 (9223372036855 * millisecond) \<le> 0"
    by (simp add: millisecond_def int64_def signed_take_bit_eq_take_bit_shift take_bit_eq_mod)
  have n: "\<forall>sh. locks_on (live (le_now (demo_env 0 ''aaaaaaaaaaaaaaaa'')) (table NewMemoryBackend)) sh ''r'' = {}"
    by (simp add: locks_on_def live_def NewMemoryBackend_def)
  show ?thesis
    using ttl_overflow_two_holders [OF a _ w wf_new n demo_id(1) demo_id(2) _ _ _ _ _ _ _ demo_ttl,
        of 0 "''o1''" "''o2''"]
    by (simp add: NewMemoryBackend_def)
qed


subsection \<open>Keys and owners\<close>

lemma append_sep_inj:
  "c \<notin> set u \<Longrightarrow> c \<notin> set v \<Longrightarrow> u @ c # f = v @ c # g \<longleftrightarrow> u = v \<and> f = g"
proof (induction u arbitrary: v)
  case Nil
  then show ?case by (cases v) auto
next
  case (Cons a u)
  then show ?case by (cases v) auto
qed

text \<open>
  C15. Two mailboxes share a lock only when they are the same mailbox, as far as user names
  hold no colon: the mailbox, delivery and full-text keys are injective in user and
  folder; no key of one of the ten families is a key of another, whatever users, folders
  and homes they are for; and a colon in a user name does make two users' mailboxes share
  a key.
\<close>

theorem mailbox_keys_distinct:
  assumes "CHR '':'' \<notin> set u" and "CHR '':'' \<notin> set v"
  shows "(MailboxKey u f = MailboxKey v g \<longleftrightarrow> u = v \<and> f = g) \<and>
    (DeliverKey u f = DeliverKey v g \<longleftrightarrow> u = v \<and> f = g) \<and>
    (FTSKey u f = FTSKey v g \<longleftrightarrow> u = v \<and> f = g) \<and>
    sorted_wrt (\<lambda>A B. A \<inter> B = {}) [range (\<lambda>(u, f). MailboxKey u f), range (\<lambda>(u, f). DeliverKey u f),
      range (\<lambda>(u, f). FTSKey u f), range IndexKey, range MdboxMapKey, range MailboxListKey,
      range SieveScriptsKey, range ThreadsKey, range SubscriptionsKey, range ACLListKey] \<and>
    MailboxKey ''a:b'' ''c'' = MailboxKey ''a'' ''b:c''"
proof -
  note keys = MailboxKey_def DeliverKey_def FTSKey_def IndexKey_def MdboxMapKey_def MailboxListKey_def
    SieveScriptsKey_def ThreadsKey_def SubscriptionsKey_def ACLListKey_def
  have "sorted_wrt (\<lambda>A B. A \<inter> B = {}) [range (\<lambda>(u, f). MailboxKey u f), range (\<lambda>(u, f). DeliverKey u f),
      range (\<lambda>(u, f). FTSKey u f), range IndexKey, range MdboxMapKey, range MailboxListKey,
      range SieveScriptsKey, range ThreadsKey, range SubscriptionsKey, range ACLListKey]"
    unfolding keys by auto
  then show ?thesis using append_sep_inj [OF assms] by (simp add: keys)
qed

theorem mailbox_keys_distinct_witness:
  "MailboxKey ''ann'' ''INBOX'' \<noteq> MailboxKey ''bob'' ''INBOX''"
  using mailbox_keys_distinct [of "''ann''" "''bob''" "''INBOX''" "''INBOX''"] by simp

lemma split_owner:
  assumes "CHR ''/'' \<notin> set n" and "CHR ''/'' \<notin> set p"
  shows "split_byte (CHR ''/'') (n @ ''/'' @ p @ ''/'' @ rest) = n # p # split_byte (CHR ''/'') rest"
  using assms by (simp add: split_byte_append)

lemma itoa_no_slash: "CHR ''/'' \<notin> set (itoa n)"
  using itoa_set [of "CHR ''/''" n] by (auto simp: is_digit_def)

lemma split_byte_length: "length (split_byte sep s) = Suc (count_list s sep)"
proof (induction s)
  case (Cons c s)
  then show ?case by (cases "split_byte sep s") auto
qed simp

lemma split_two:
  "length (split_byte sep (u @ sep # i)) = 2 \<longleftrightarrow> sep \<notin> set u \<and> sep \<notin> set i"
  by (simp add: split_byte_length count_list_0_iff)

lemma owner_string_wf:
  assumes "CHR ''/'' \<notin> set (pr_name pr)" "pr_name pr \<noteq> []" and "pr_pid pr < 2 ^ 63"
  shows "ownerWellFormed (owner_string pr u i) \<longleftrightarrow>
    u \<noteq> [] \<and> i \<noteq> [] \<and> CHR ''/'' \<notin> set u \<and> CHR ''/'' \<notin> set i"
proof -
  have s: "split_byte (CHR ''/'') (owner_string pr u i) =
      pr_name pr # itoa (pr_pid pr) # split_byte (CHR ''/'') (u @ CHR ''/'' # i)"
    using split_owner [OF assms(1) itoa_no_slash, of "pr_pid pr"] by (simp add: owner_string_def)
  have a: "atoi (itoa (pr_pid pr)) = Some (int (pr_pid pr))"
    using atoi_format_int [of "int (pr_pid pr)"] assms(3) by (simp add: format_int_def)
  show ?thesis
  proof (cases "CHR ''/'' \<notin> set u \<and> CHR ''/'' \<notin> set i")
    case True
    then show ?thesis
      using assms(2) a by (simp add: ownerWellFormed_def s split_byte_append split_byte_clean Let_def)
  next
    case False
    then have "length (split_byte (CHR ''/'') (u @ CHR ''/'' # i)) \<noteq> 2" by (simp add: split_two)
    with False show ?thesis by (auto simp: ownerWellFormed_def s Let_def)
  qed
qed

text \<open>
  C16. What an acquisition announces is always \<^verbatim>\<open>proc/pid/user/id\<close>: \<^verbatim>\<open>CheckOwner\<close> returns a
  well-formed owner whatever string it is given, and leaves a well-formed one alone; the
  string \<^verbatim>\<open>Owner\<close> builds is well formed exactly when the user is not empty and neither the
  user nor the session id holds a slash.
\<close>

theorem owner_announced:
  assumes "CHR ''/'' \<notin> set (pr_name pr)" and "pr_name pr \<noteq> []" and "pr_pid pr < 2 ^ 63"
    and "pr_anon pr = anonID rnd"
  shows "ownerWellFormed (CheckOwner pr o1) \<and>
    (ownerWellFormed o1 \<longrightarrow> CheckOwner pr o1 = o1) \<and>
    (ownerWellFormed (Owner pr user sid) \<longleftrightarrow> user \<noteq> [] \<and> CHR ''/'' \<notin> set user \<and> CHR ''/'' \<notin> set sid)"
proof -
  have "CHR ''/'' \<notin> set (hex_encode rnd)" using hex_encode_set [of "CHR ''/''" rnd] by auto
  then have a: "pr_anon pr \<noteq> []" "CHR ''/'' \<notin> set (pr_anon pr)"
    using assms(4) by (simp_all add: anonID_def NewID_def)
  have "ownerWellFormed (repairOwner pr o1)"
    using a by (auto simp: repairOwner_def owner_string_wf [OF assms(1-3)] Let_def)
  then show ?thesis
    using a by (auto simp: CheckOwner_def Owner_def owner_string_wf [OF assms(1-3)])
qed

theorem owner_announced_witness:
  "ownerWellFormed (CheckOwner \<lparr> pr_name = ''yarilo-imap'', pr_pid = 42, pr_anon = anonID ''12345678'' \<rparr> ''a/b'') \<and>
   \<not> ownerWellFormed (Owner \<lparr> pr_name = ''yarilo-imap'', pr_pid = 42, pr_anon = anonID ''12345678'' \<rparr> ''a/b'' ''s1'')"
  using owner_announced [of "\<lparr> pr_name = ''yarilo-imap'', pr_pid = 42, pr_anon = anonID ''12345678'' \<rparr>"
      "''12345678''" "''a/b''" "''a/b''" "''s1''"] by simp

end
