(* ===== verification/Go_MD5.thy ===== *)
theory Go_MD5
  imports Go_Runtime
begin

unbundle bit_operations_syntax

text \<open>
  Package \<^verbatim>\<open>crypto/md5\<close> and the little-endian half of \<^verbatim>\<open>encoding/binary\<close>, as the hash ring
  uses them: MD5 as RFC 1321 defines it, on 32-bit words that wrap around.
\<close>

type_synonym w32 = "32 word"

definition md5_K :: "w32 list" where
  "md5_K = [
   0xD76AA478, 0xE8C7B756, 0x242070DB, 0xC1BDCEEE, 0xF57C0FAF, 0x4787C62A, 0xA8304613, 0xFD469501,
   0x698098D8, 0x8B44F7AF, 0xFFFF5BB1, 0x895CD7BE, 0x6B901122, 0xFD987193, 0xA679438E, 0x49B40821,
   0xF61E2562, 0xC040B340, 0x265E5A51, 0xE9B6C7AA, 0xD62F105D, 0x02441453, 0xD8A1E681, 0xE7D3FBC8,
   0x21E1CDE6, 0xC33707D6, 0xF4D50D87, 0x455A14ED, 0xA9E3E905, 0xFCEFA3F8, 0x676F02D9, 0x8D2A4C8A,
   0xFFFA3942, 0x8771F681, 0x6D9D6122, 0xFDE5380C, 0xA4BEEA44, 0x4BDECFA9, 0xF6BB4B60, 0xBEBFBC70,
   0x289B7EC6, 0xEAA127FA, 0xD4EF3085, 0x04881D05, 0xD9D4D039, 0xE6DB99E5, 0x1FA27CF8, 0xC4AC5665,
   0xF4292244, 0x432AFF97, 0xAB9423A7, 0xFC93A039, 0x655B59C3, 0x8F0CCC92, 0xFFEFF47D, 0x85845DD1,
   0x6FA87E4F, 0xFE2CE6E0, 0xA3014314, 0x4E0811A1, 0xF7537E82, 0xBD3AF235, 0x2AD7D2BB, 0xEB86D391]"

definition md5_shift :: "nat list" where
  "md5_shift = [7, 12, 17, 22, 5, 9, 14, 20, 4, 11, 16, 23, 6, 10, 15, 21]"

text \<open>The word of four bytes, least significant first, and back.\<close>

fun le32 :: "string \<Rightarrow> w32" where
  "le32 (b0 # b1 # b2 # b3 # _) =
     word_of_int (of_char b0 + 0x100 * of_char b1 + 0x10000 * of_char b2 + 0x1000000 * of_char b3)"
| "le32 _ = 0"

definition put_le32 :: "w32 \<Rightarrow> string" where
  "put_le32 w = map (\<lambda>i. char_of (uint w div 256 ^ i mod 256)) [0, 1, 2, 3]"

definition put_le64 :: "int \<Rightarrow> string" where
  "put_le64 n = map (\<lambda>i. char_of (n div 256 ^ i mod 256)) [0, 1, 2, 3, 4, 5, 6, 7]"

definition md5_pad :: "string \<Rightarrow> string" where
  "md5_pad s = s @ [CHR 0x80] @ replicate ((119 - length s mod 64) mod 64) (CHR 0x00) @
     put_le64 (8 * int (length s) mod 2 ^ 64)"

definition md5_mix :: "nat \<Rightarrow> w32 \<Rightarrow> w32 \<Rightarrow> w32 \<Rightarrow> w32 \<times> nat" where
  "md5_mix i b c d =
    (if i < 16 then ((b AND c) OR (NOT b AND d), i)
     else if i < 32 then ((d AND b) OR (NOT d AND c), (5 * i + 1) mod 16)
     else if i < 48 then (b XOR c XOR d, (3 * i + 5) mod 16)
     else (c XOR (b OR NOT d), 7 * i mod 16))"

definition md5_step :: "w32 list \<Rightarrow> nat \<Rightarrow> w32 \<times> w32 \<times> w32 \<times> w32 \<Rightarrow> w32 \<times> w32 \<times> w32 \<times> w32" where
  "md5_step M i st =
    (case st of (a, b, c, d) \<Rightarrow>
       (case md5_mix i b c d of (f, g) \<Rightarrow>
          (d, b + word_rotl (md5_shift ! (4 * (i div 16) + i mod 4)) (f + a + md5_K ! i + M ! g), b, c)))"

definition md5_block :: "string \<Rightarrow> w32 \<times> w32 \<times> w32 \<times> w32 \<Rightarrow> w32 \<times> w32 \<times> w32 \<times> w32" where
  "md5_block chunk st =
    (let M = map (\<lambda>j. le32 (drop (4 * j) chunk)) [0..<16]
     in case (st, fold (md5_step M) [0..<64] st) of
          ((a, b, c, d), (a', b', c', d')) \<Rightarrow> (a + a', b + b', c + c', d + d'))"

function md5_blocks :: "string \<Rightarrow> w32 \<times> w32 \<times> w32 \<times> w32 \<Rightarrow> w32 \<times> w32 \<times> w32 \<times> w32" where
  "md5_blocks s st = (if length s < 64 then st else md5_blocks (drop 64 s) (md5_block (take 64 s) st))"
  by pat_completeness auto
termination
  by (relation "measure (\<lambda>(s, st). length s)") auto

declare md5_blocks.simps [simp del]

text \<open>\<^verbatim>\<open>md5.Sum\<close>: sixteen bytes.\<close>

definition md5_Sum :: "string \<Rightarrow> string" where
  "md5_Sum s =
    (case md5_blocks (md5_pad s) (0x67452301, 0xEFCDAB89, 0x98BADCFE, 0x10325476) of
       (a, b, c, d) \<Rightarrow> put_le32 a @ put_le32 b @ put_le32 c @ put_le32 d)"

lemma md5_Sum_length: "length (md5_Sum s) = 16"
  by (simp add: md5_Sum_def put_le32_def split: prod.split)

lemma md5_pad_length: "64 dvd length (md5_pad s)"
proof -
  define q m where "q = length s div 64" and "m = length s mod 64"
  have s: "length s = 64 * q + m" and m: "m < 64" by (simp_all add: q_def m_def)
  have l: "length (md5_pad s) = 64 * q + (m + 9 + (119 - m) mod 64)"
    using s by (simp add: md5_pad_def put_le64_def m_def)
  have "(119 - m) mod 64 = (if m \<le> 55 then 55 - m else 119 - m)"
  proof (cases "m \<le> 55")
    case True
    then have "(119 - m) mod 64 = (55 - m) mod 64" by (simp add: le_mod_geq)
    with True show ?thesis by simp
  qed simp
  then have "m + 9 + (119 - m) mod 64 = 64 * (if m \<le> 55 then 1 else 2)"
    using m by simp
  then show ?thesis unfolding l by (metis dvd_add dvd_triv_left)
qed

end
