(* ===== verification/Hash_Ring.thy ===== *)
theory Hash_Ring
  imports Go_MD5
begin

text \<open>
  The director's consistent-hashing ring (\<^verbatim>\<open>internal/cluster/ring\<close>): the username template
  of \<^verbatim>\<open>hash.go\<close> and the ring of \<^verbatim>\<open>ring.go\<close>. Every method holds \<^verbatim>\<open>r.mu\<close> throughout, so a
  method is a function on the state. \<^verbatim>\<open>rebuild\<close> ranges over a Go map, whose order is the
  order of the association list, and sorts with \<^verbatim>\<open>sort.Slice\<close>, which is not stable: the
  sort is an argument \<open>srt\<close>, of which \<open>slice_sorts\<close> says what the library documents.
\<close>

subsection \<open>Username template\<close>

datatype hashField = fieldLiteral | fieldUser | fieldLocal | fieldDomain

record hashSeg =
  sg_field :: hashField
  sg_lit :: string
  sg_lower :: bool

record HashFormat =
  hf_segs :: "hashSeg list"
  hf_raw :: string

datatype format_error = EmptyFormat | DanglingPercent | DanglingLower | LowerPercent | UnsupportedVariable char

definition NormalizeUsername :: "(rune \<Rightarrow> rune) \<Rightarrow> string \<Rightarrow> string" where
  "NormalizeUsername tbl username = to_lower tbl username"

definition flushLit :: "string \<Rightarrow> hashSeg list \<Rightarrow> hashSeg list" where
  "flushLit lit segs =
    (if length lit > 0 then segs @ [\<lparr> sg_field = fieldLiteral, sg_lit = lit, sg_lower = False \<rparr>] else segs)"

definition var_seg :: "hashField \<Rightarrow> bool \<Rightarrow> string \<Rightarrow> hashSeg list \<Rightarrow> hashSeg list" where
  "var_seg f lower lit segs = flushLit lit segs @ [\<lparr> sg_field = f, sg_lit = [], sg_lower = lower \<rparr>]"

text \<open>The \<^verbatim>\<open>switch\<close> on the byte after the percent sign and its modifier.\<close>

definition parse_var :: "bool \<Rightarrow> char \<Rightarrow> string \<times> hashSeg list \<Rightarrow> format_error + (string \<times> hashSeg list)" where
  "parse_var lower c st =
    (case st of (lit, segs) \<Rightarrow>
       if c = CHR ''%'' then (if lower then Inl LowerPercent else Inr (lit @ ''%'', segs))
       else if c = CHR ''u'' then Inr ([], var_seg fieldUser lower lit segs)
       else if c = CHR ''n'' then Inr ([], var_seg fieldLocal lower lit segs)
       else if c = CHR ''d'' then Inr ([], var_seg fieldDomain lower lit segs)
       else Inl (UnsupportedVariable c))"

function parse_format_loop :: "string \<Rightarrow> string \<times> hashSeg list \<Rightarrow> format_error + hashSeg list" where
  "parse_format_loop [] (lit, segs) = Inr (flushLit lit segs)"
| "parse_format_loop (c # cs) (lit, segs) =
    (if c \<noteq> CHR ''%'' then parse_format_loop cs (lit @ [c], segs)
     else case cs of
            [] \<Rightarrow> Inl DanglingPercent
          | x # xs \<Rightarrow>
              if x = CHR ''L'' then
                (case xs of
                   [] \<Rightarrow> Inl DanglingLower
                 | y # ys \<Rightarrow> (case parse_var True y (lit, segs) of Inl e \<Rightarrow> Inl e | Inr st \<Rightarrow> parse_format_loop ys st))
              else (case parse_var False x (lit, segs) of Inl e \<Rightarrow> Inl e | Inr st \<Rightarrow> parse_format_loop xs st))"
  by pat_completeness auto
termination
  by (relation "measure (\<lambda>(s, st). length s)") auto

definition ParseHashFormat :: "string \<Rightarrow> format_error + HashFormat" where
  "ParseHashFormat fmt =
    (if fmt = [] then Inl EmptyFormat
     else case parse_format_loop fmt ([], []) of
            Inl e \<Rightarrow> Inl e
          | Inr segs \<Rightarrow> Inr \<lparr> hf_segs = segs, hf_raw = fmt \<rparr>)"

definition DefaultHashFormat :: HashFormat where
  "DefaultHashFormat =
    (case ParseHashFormat ''%Lu'' of Inl _ \<Rightarrow> \<lparr> hf_segs = [], hf_raw = [] \<rparr> | Inr hf \<Rightarrow> hf)"

text \<open>\<^verbatim>\<open>username[:at]\<close> and \<^verbatim>\<open>username[at+1:]\<close> at the first at-sign.\<close>

definition fieldValue :: "(rune \<Rightarrow> rune) \<Rightarrow> string \<Rightarrow> hashSeg \<Rightarrow> string" where
  "fieldValue tbl username s =
    (let at = takeWhile (\<lambda>c. c \<noteq> CHR ''@'') username;
         v = (case sg_field s of
                fieldLiteral \<Rightarrow> []
              | fieldUser \<Rightarrow> username
              | fieldLocal \<Rightarrow> (if CHR ''@'' \<in> set username then at else username)
              | fieldDomain \<Rightarrow> (if CHR ''@'' \<in> set username then drop (Suc (length at)) username else []))
     in if sg_lower s then NormalizeUsername tbl v else v)"

definition Key :: "(rune \<Rightarrow> rune) \<Rightarrow> HashFormat \<Rightarrow> string \<Rightarrow> string" where
  "Key tbl f username =
    (if length (hf_segs f) = 1 \<and> sg_field (hf_segs f ! 0) \<noteq> fieldLiteral
     then fieldValue tbl username (hf_segs f ! 0)
     else concat (map (\<lambda>s. if sg_field s = fieldLiteral then sg_lit s else fieldValue tbl username s) (hf_segs f)))"

definition Hash :: "string \<Rightarrow> w32" where
  "Hash key = le32 (take 4 (md5_Sum key))"

subsection \<open>Ring\<close>

definition defaultVhosts :: int where
  "defaultVhosts = 100"

record RingBackend =
  rb_IP :: string
  rb_Port :: int
  rb_Tag :: string
  rb_Up :: bool
  rb_Vhosts :: int
  rb_LastUp :: int
  rb_LastDown :: int
  rb_Hostname :: string

record vhost =
  vh_hash :: w32
  vh_ip :: string

record Ring =
  rg_backends :: "(string, RingBackend) gomap"
  rg_vhosts :: "vhost list"
  rg_tagVhosts :: "(string, vhost list) gomap"
  rg_hf :: HashFormat

type_synonym slice_sort = "vhost list \<Rightarrow> vhost list"

definition vhostHash :: "string \<Rightarrow> w32" where
  "vhostHash key = le32 (take 4 (md5_Sum key))"

definition backend_vhosts :: "string \<times> RingBackend \<Rightarrow> vhost list" where
  "backend_vhosts e =
    (if \<not> rb_Up (snd e) then []
     else let n = (if rb_Vhosts (snd e) \<le> 0 then defaultVhosts else rb_Vhosts (snd e))
          in map (\<lambda>i. \<lparr> vh_hash = vhostHash (fst e @ ''-'' @ itoa i), vh_ip = fst e \<rparr>) [0..<nat n])"

definition add_tag_vhosts ::
  "string \<times> RingBackend \<Rightarrow> (string, vhost list) gomap \<Rightarrow> (string, vhost list) gomap" where
  "add_tag_vhosts e tags =
    (if \<not> rb_Up (snd e) then tags
     else AList.update (rb_Tag (snd e))
            ((case map_of tags (rb_Tag (snd e)) of None \<Rightarrow> [] | Some vhs \<Rightarrow> vhs) @ backend_vhosts e) tags)"

definition rebuild :: "slice_sort \<Rightarrow> Ring \<Rightarrow> Ring" where
  "rebuild srt r =
    (let cleared = map (\<lambda>(t, vhs). (t, [])) (rg_tagVhosts r);
         vhs = concat (map backend_vhosts (rg_backends r));
         tags = fold add_tag_vhosts (rg_backends r) cleared
     in r\<lparr> rg_vhosts := srt vhs, rg_tagVhosts := map (\<lambda>(t, vhs). (t, srt vhs)) tags \<rparr>)"

definition NewRing :: "HashFormat \<Rightarrow> Ring" where
  "NewRing hf = \<lparr> rg_backends = [], rg_vhosts = [], rg_tagVhosts = [], rg_hf = hf \<rparr>"

definition keep_known :: "RingBackend \<Rightarrow> RingBackend \<Rightarrow> RingBackend" where
  "keep_known prev b =
    b\<lparr> rb_LastDown := (if rb_LastDown b = 0 then rb_LastDown prev else rb_LastDown b),
       rb_LastUp := (if rb_LastUp b = 0 then rb_LastUp prev else rb_LastUp b),
       rb_Hostname := (if rb_Hostname b = [] then rb_Hostname prev else rb_Hostname b) \<rparr>"

definition AddBackend :: "slice_sort \<Rightarrow> RingBackend \<Rightarrow> Ring \<Rightarrow> Ring" where
  "AddBackend srt b r =
    (let b' = (case map_of (rg_backends r) (rb_IP b) of None \<Rightarrow> b | Some prev \<Rightarrow> keep_known prev b)
     in rebuild srt (r\<lparr> rg_backends := AList.update (rb_IP b) b' (rg_backends r) \<rparr>))"

definition RemoveBackend :: "slice_sort \<Rightarrow> string \<Rightarrow> Ring \<Rightarrow> Ring" where
  "RemoveBackend srt ip r = rebuild srt (r\<lparr> rg_backends := AList.delete ip (rg_backends r) \<rparr>)"

definition mark :: "bool \<Rightarrow> int \<Rightarrow> RingBackend \<Rightarrow> RingBackend" where
  "mark up ts b =
    (let b = b\<lparr> rb_Up := up \<rparr>
     in if ts \<noteq> 0 then (if up then b\<lparr> rb_LastUp := ts \<rparr> else b\<lparr> rb_LastDown := ts \<rparr>) else b)"

definition SetUp :: "slice_sort \<Rightarrow> string \<Rightarrow> bool \<Rightarrow> int \<Rightarrow> Ring \<Rightarrow> bool \<times> Ring" where
  "SetUp srt ip up ts r =
    (case map_of (rg_backends r) ip of
       None \<Rightarrow> (False, r)
     | Some b \<Rightarrow> (True, rebuild srt (r\<lparr> rg_backends := AList.update ip (mark up ts b) (rg_backends r) \<rparr>)))"

definition Backends :: "Ring \<Rightarrow> RingBackend list" where
  "Backends r = map snd (rg_backends r)"

definition ring_Len :: "Ring \<Rightarrow> nat" where
  "ring_Len r = length (rg_backends r)"

definition CountBackendsInTag :: "string \<Rightarrow> Ring \<Rightarrow> nat" where
  "CountBackendsInTag tag r = length (filter (\<lambda>e. rb_Tag (snd e) = tag) (rg_backends r))"

definition userHash :: "(rune \<Rightarrow> rune) \<Rightarrow> Ring \<Rightarrow> string \<Rightarrow> w32" where
  "userHash tbl r username = Hash (Key tbl (rg_hf r) username)"

text \<open>The search both lookups make in a non-empty slice.\<close>

definition ring_pick :: "vhost list \<Rightarrow> w32 \<Rightarrow> vhost" where
  "ring_pick vhs h =
    (let idx = sort_search (length vhs) (\<lambda>i. vh_hash (vhs ! i) \<ge> h)
     in vhs ! (if idx = length vhs then 0 else idx))"

definition Lookup :: "(rune \<Rightarrow> rune) \<Rightarrow> Ring \<Rightarrow> string \<Rightarrow> string" where
  "Lookup tbl r username =
    (if length (rg_vhosts r) = 0 then []
     else vh_ip (ring_pick (rg_vhosts r) (userHash tbl r username)))"

definition Tags :: "Ring \<Rightarrow> string list" where
  "Tags r = map fst (filter (\<lambda>e. length (snd e) > 0) (rg_tagVhosts r))"

definition GetBackend :: "string \<Rightarrow> Ring \<Rightarrow> RingBackend option" where
  "GetBackend ip r = map_of (rg_backends r) ip"

definition lookupLocked :: "(rune \<Rightarrow> rune) \<Rightarrow> Ring \<Rightarrow> string \<Rightarrow> vhost list \<Rightarrow> RingBackend option" where
  "lookupLocked tbl r username vhs =
    (if length vhs = 0 then None
     else map_of (rg_backends r) (vh_ip (ring_pick vhs (userHash tbl r username))))"

definition LookupBackend :: "(rune \<Rightarrow> rune) \<Rightarrow> Ring \<Rightarrow> string \<Rightarrow> RingBackend option" where
  "LookupBackend tbl r username = lookupLocked tbl r username (rg_vhosts r)"

definition LookupBackendByTag :: "(rune \<Rightarrow> rune) \<Rightarrow> Ring \<Rightarrow> string \<Rightarrow> string \<Rightarrow> RingBackend option" where
  "LookupBackendByTag tbl r username tag =
    lookupLocked tbl r username (case map_of (rg_tagVhosts r) tag of None \<Rightarrow> [] | Some vhs \<Rightarrow> vhs)"


subsection \<open>The ring invariant\<close>

text \<open>What \<^verbatim>\<open>sort.Slice\<close> documents: a permutation in ascending order, not necessarily stable.\<close>

definition slice_sorts :: "slice_sort \<Rightarrow> bool" where
  "slice_sorts srt \<longleftrightarrow> (\<forall>xs. mset (srt xs) = mset xs \<and> sorted (map vh_hash (srt xs)))"

definition tag_vhosts :: "(string, vhost list) gomap \<Rightarrow> string \<Rightarrow> vhost list" where
  "tag_vhosts tags t = (case map_of tags t of None \<Rightarrow> [] | Some vhs \<Rightarrow> vhs)"

definition sorted_copy :: "vhost list \<Rightarrow> vhost list \<Rightarrow> bool" where
  "sorted_copy vs xs \<longleftrightarrow> mset vs = mset xs \<and> sorted (map vh_hash vs)"

definition in_tag :: "string \<Rightarrow> (string, RingBackend) gomap \<Rightarrow> (string, RingBackend) gomap" where
  "in_tag t bs = filter (\<lambda>e. rb_Tag (snd e) = t) bs"

definition ips_ok :: "(string, RingBackend) gomap \<Rightarrow> bool" where
  "ips_ok bs \<longleftrightarrow> list_all (\<lambda>e. rb_IP (snd e) = fst e) bs"

definition ring_ok :: "Ring \<Rightarrow> bool" where
  "ring_ok r \<longleftrightarrow> wf_map (rg_backends r) \<and> wf_map (rg_tagVhosts r) \<and>
     ips_ok (rg_backends r) \<and>
     sorted_copy (rg_vhosts r) (concat (map backend_vhosts (rg_backends r))) \<and>
     (\<forall>t. sorted_copy (tag_vhosts (rg_tagVhosts r) t)
             (concat (map backend_vhosts (in_tag t (rg_backends r)))))"

lemma slice_sorts_copy: "slice_sorts srt \<Longrightarrow> sorted_copy (srt xs) xs"
  by (simp add: slice_sorts_def sorted_copy_def)

lemma slice_sorts_Nil: "slice_sorts srt \<Longrightarrow> srt [] = []"
  unfolding slice_sorts_def by (metis mset.simps(1) mset_zero_iff)

lemma sort_key_slice_sorts: "slice_sorts (sort_key vh_hash)"
  by (simp add: slice_sorts_def sorted_wrt_key)

lemma tag_vhosts_fold:
  "tag_vhosts (fold add_tag_vhosts bs tags) t =
     tag_vhosts tags t @ concat (map backend_vhosts (in_tag t bs))"
proof (induction bs arbitrary: tags)
  case (Cons e bs)
  have "tag_vhosts (add_tag_vhosts e tags) t =
      tag_vhosts tags t @ (if rb_Tag (snd e) = t then backend_vhosts e else [])"
    by (auto simp: tag_vhosts_def add_tag_vhosts_def gomap_simps backend_vhosts_def)
  with Cons show ?case by (simp add: in_tag_def)
qed (simp add: in_tag_def)

lemma wf_fold_tags: "wf_map tags \<Longrightarrow> wf_map (fold add_tag_vhosts bs tags)"
  by (induction bs arbitrary: tags) (simp_all add: add_tag_vhosts_def)

lemma map_of_map_val: "map_of (map (\<lambda>(t, v). (t, f v)) m) k = map_option f (map_of m k)"
  by (induction m) auto

lemma keys_map_val: "map fst (map (\<lambda>(t, v). (t, f v)) m) = map fst m"
  by (induction m) auto

lemma rebuild_ok:
  assumes "slice_sorts srt" and "wf_map (rg_backends r)" and "wf_map (rg_tagVhosts r)"
    and "ips_ok (rg_backends r)"
  shows "ring_ok (rebuild srt r)"
proof -
  let ?cl = "map (\<lambda>(t, vhs). (t, [])) (rg_tagVhosts r) :: (string, vhost list) gomap"
  let ?tags = "fold add_tag_vhosts (rg_backends r) ?cl"
  have cl: "wf_map ?cl" using assms(3) unfolding keys_map_val .
  have "tag_vhosts ?cl t = []" for t
    unfolding tag_vhosts_def map_of_map_val by (cases "map_of (rg_tagVhosts r) t") simp_all
  then have t: "tag_vhosts ?tags t = concat (map backend_vhosts (in_tag t (rg_backends r)))" for t
    by (simp add: tag_vhosts_fold)
  have s: "tag_vhosts (map (\<lambda>(t, vhs). (t, srt vhs)) ?tags) t = srt (tag_vhosts ?tags t)" for t
    using slice_sorts_Nil [OF assms(1)] map_of_map_val [of srt ?tags t]
    by (simp add: tag_vhosts_def split: option.split)
  have "wf_map (map (\<lambda>(t, vhs). (t, srt vhs)) ?tags)"
    unfolding keys_map_val by (rule wf_fold_tags [OF cl])
  then show ?thesis
    using assms slice_sorts_copy [OF assms(1)] unfolding ring_ok_def rebuild_def Let_def
    by (simp add: s t del: map_map)
qed

lemma NewRing_ok: "ring_ok (NewRing hf)"
  by (simp add: ring_ok_def NewRing_def sorted_copy_def tag_vhosts_def in_tag_def ips_ok_def)

lemma ips_update: "ips_ok m \<Longrightarrow> rb_IP b = ip \<Longrightarrow> ips_ok (AList.update ip b m)"
  by (induction m) (auto simp: ips_ok_def)

lemma ips_delete: "ips_ok m \<Longrightarrow> ips_ok (AList.delete ip m)"
  by (auto simp: ips_ok_def AList.delete_eq list_all_iff)

lemma keep_known_IP [simp]: "rb_IP (keep_known prev b) = rb_IP b"
  by (simp add: keep_known_def)

lemma AddBackend_ok: "slice_sorts srt \<Longrightarrow> ring_ok r \<Longrightarrow> ring_ok (AddBackend srt b r)"
  unfolding AddBackend_def Let_def
  by (rule rebuild_ok) (simp_all add: ring_ok_def ips_update split: option.split)

lemma RemoveBackend_ok: "slice_sorts srt \<Longrightarrow> ring_ok r \<Longrightarrow> ring_ok (RemoveBackend srt ip r)"
  unfolding RemoveBackend_def by (rule rebuild_ok) (simp_all add: ring_ok_def ips_delete)

lemma mark_IP [simp]: "rb_IP (mark up ts b) = rb_IP b"
  by (simp add: mark_def Let_def)

lemma SetUp_ok:
  assumes "slice_sorts srt" and "ring_ok r"
  shows "ring_ok (snd (SetUp srt ip up ts r))"
proof (cases "map_of (rg_backends r) ip")
  case (Some b)
  then have "rb_IP b = ip" using assms(2) by (auto simp: ring_ok_def ips_ok_def list_all_iff dest!: map_of_SomeD)
  then have "ring_ok (rebuild srt (r\<lparr> rg_backends := AList.update ip (mark up ts b) (rg_backends r) \<rparr>))"
    using assms by (intro rebuild_ok) (simp_all add: ring_ok_def ips_update)
  with Some show ?thesis by (simp add: SetUp_def)
qed (simp add: SetUp_def assms)


subsection \<open>What a lookup finds\<close>

text \<open>
  The specification on the set of virtual nodes: the least hash not below the user's, or
  the least of all when there is none.
\<close>

definition target :: "vhost set \<Rightarrow> w32 \<Rightarrow> w32" where
  "target S h = (let A = {v \<in> S. h \<le> vh_hash v}
                 in Min (vh_hash ` (if A = {} then S else A)))"

lemma target_Min: "A = {v \<in> S. h \<le> vh_hash v} \<Longrightarrow> A \<noteq> {} \<Longrightarrow> target S h = Min (vh_hash ` A)"
  by (simp only: target_def Let_def if_False)

lemma target_wrap: "{v \<in> S. h \<le> vh_hash v} = {} \<Longrightarrow> target S h = Min (vh_hash ` S)"
  by (simp only: target_def Let_def simp_thms if_True)

lemma split_target:
  fixes vhs :: "vhost list"
  assumes sorted: "sorted (map vh_hash vhs)" and ne: "vhs \<noteq> []"
    and split: "splits_at (\<lambda>k. h \<le> vh_hash (vhs ! k)) (length vhs) i"
  shows "vh_hash (vhs ! (if i = length vhs then 0 else i)) = target (set vhs) h"
proof -
  let ?n = "length vhs" and ?A = "{v \<in> set vhs. h \<le> vh_hash v}"
  have mono: "vh_hash (vhs ! k) \<le> vh_hash (vhs ! l)" if "k \<le> l" "l < ?n" for k l
    using sorted that sorted_nth_mono [of "map vh_hash vhs" k l] by simp
  have lo: "\<not> h \<le> vh_hash (vhs ! k)" if "k < i" for k
    using split that unfolding splits_at_def by blast
  show ?thesis
  proof (cases "i = ?n")
    case True
    have "?A = {}" using lo True by (auto simp only: in_set_conv_nth)
    moreover have "Min (vh_hash ` set vhs) = vh_hash (vhs ! 0)"
    proof (rule Min_eqI)
      show "vh_hash (vhs ! 0) \<le> y" if "y \<in> vh_hash ` set vhs" for y
        using that mono [of 0] by (auto simp only: in_set_conv_nth image_iff)
    qed (use ne in simp_all)
    ultimately show ?thesis using True by (simp only: target_wrap simp_thms if_True)
  next
    case False
    then have lt: "i < ?n" using split unfolding splits_at_def by (blast intro: le_neq_implies_less)
    then have "h \<le> vh_hash (vhs ! i)" using split unfolding splits_at_def by blast
    with lt have mem: "vhs ! i \<in> ?A" using nth_mem by blast
    have "Min (vh_hash ` ?A) = vh_hash (vhs ! i)"
    proof (rule Min_eqI)
      fix y assume "y \<in> vh_hash ` ?A"
      then obtain k where k: "k < ?n" "y = vh_hash (vhs ! k)" "h \<le> vh_hash (vhs ! k)"
        by (auto simp only: in_set_conv_nth image_iff mem_Collect_eq)
      with lo [of k] have "i \<le> k" by (metis not_le_imp_less)
      with mono [of i k] k show "vh_hash (vhs ! i) \<le> y" by simp
    qed (use mem in simp_all)
    moreover have "?A \<noteq> {}" using mem by (rule ex_in_conv [THEN iffD1, OF exI])
    ultimately have "target (set vhs) h = vh_hash (vhs ! i)" using target_Min [OF refl] by simp
    then show ?thesis using False by (simp only: if_False)
  qed
qed

lemma pick_target:
  assumes "sorted (map vh_hash vhs)" and "vhs \<noteq> []"
  shows "ring_pick vhs h \<in> set vhs" and "vh_hash (ring_pick vhs h) = target (set vhs) h"
proof -
  let ?f = "\<lambda>k. h \<le> vh_hash (vhs ! k)" and ?n = "length vhs"
  have "up_closed ?f ?n"
    unfolding up_closed_def
  proof (intro allI impI)
    fix k l assume "?f k" and "k \<le> l" and "l < ?n"
    moreover have "vh_hash (vhs ! k) \<le> vh_hash (vhs ! l)"
      using assms(1) \<open>k \<le> l\<close> \<open>l < ?n\<close> sorted_nth_mono [of "map vh_hash vhs" k l] by simp
    ultimately show "?f l" by (rule_tac order_trans)
  qed
  then have sp: "splits_at ?f ?n (sort_search ?n ?f)" by (rule sort_search_spec)
  then have le: "sort_search ?n ?f \<le> ?n" unfolding splits_at_def by blast
  have "(if sort_search ?n ?f = ?n then 0 else sort_search ?n ?f) < ?n"
  proof (cases "sort_search ?n ?f = ?n")
    case False
    with le have "sort_search ?n ?f < ?n" by (rule le_neq_implies_less)
    with False show ?thesis by (simp only: if_False)
  qed (simp only: if_True length_greater_0_conv assms(2) simp_thms)
  then show "ring_pick vhs h \<in> set vhs" unfolding ring_pick_def Let_def by (rule nth_mem)
  show "vh_hash (ring_pick vhs h) = target (set vhs) h"
    using split_target [OF assms sp] by (simp only: ring_pick_def Let_def)
qed

text \<open>The target does not move when nodes other than the one found go away.\<close>

lemma target_subset:
  assumes "finite S" and "S' \<subseteq> S" and "v \<in> S'" and "vh_hash v = target S h"
  shows "target S' h = target S h"
proof -
  let ?A = "{v \<in> S. h \<le> vh_hash v}" and ?A' = "{v \<in> S'. h \<le> vh_hash v}"
  have fin: "finite S'" using assms(1,2) finite_subset by blast
  show ?thesis
  proof (cases "?A = {}")
    case True
    then have A': "?A' = {}" using assms(2) by blast
    have "Min (vh_hash ` S') = vh_hash v"
    proof (rule Min_eqI)
      fix y assume "y \<in> vh_hash ` S'"
      then have "y \<in> vh_hash ` S" using assms(2) by blast
      then show "vh_hash v \<le> y" unfolding assms(4) target_wrap [OF True] by (intro Min_le finite_imageI assms(1))
    qed (use fin assms(3) in \<open>blast+\<close>)
    then show ?thesis unfolding target_wrap [OF A'] assms(4) .
  next
    case False
    note t = target_Min [OF refl False]
    have fA: "finite ?A" "finite ?A'"
      by (rule finite_subset [OF _ assms(1)], blast) (rule finite_subset [OF _ fin], blast)
    have "Min (vh_hash ` ?A) \<in> vh_hash ` ?A" by (rule Min_in) (use fA False in blast)+
    then have "vh_hash v \<in> vh_hash ` ?A" unfolding assms(4) t .
    then have v: "v \<in> ?A'" using assms(3) by fastforce
    then have ne: "?A' \<noteq> {}" by blast
    have "Min (vh_hash ` ?A') = vh_hash v"
    proof (rule Min_eqI)
      fix y assume "y \<in> vh_hash ` ?A'"
      then have "y \<in> vh_hash ` ?A" using assms(2) by blast
      then show "vh_hash v \<le> y" unfolding assms(4) t by (intro Min_le finite_imageI fA)
    qed (use fA v in \<open>blast+\<close>)
    then show ?thesis unfolding target_Min [OF refl ne] assms(4) .
  qed
qed

text \<open>No two backends share a hash among the nodes.\<close>

definition collision_free :: "vhost set \<Rightarrow> bool" where
  "collision_free S \<longleftrightarrow> (\<forall>v \<in> S. \<forall>w \<in> S. vh_hash v = vh_hash w \<longrightarrow> vh_ip v = vh_ip w)"

definition active :: "Ring \<Rightarrow> vhost set" where
  "active r = (\<Union>e \<in> set (rg_backends r). set (backend_vhosts e))"

lemma sorted_copy_set: "sorted_copy vs xs \<Longrightarrow> set vs = set xs"
  unfolding sorted_copy_def by (metis set_mset_mset)

lemma ring_ok_set: "ring_ok r \<Longrightarrow> set (rg_vhosts r) = active r"
  by (auto simp: ring_ok_def active_def dest!: sorted_copy_set)

lemma finite_active: "finite (active r)"
  by (simp add: active_def)

lemma Lookup_empty: "ring_ok r \<Longrightarrow> active r = {} \<Longrightarrow> Lookup tbl r u = []"
  using ring_ok_set [of r] by (simp add: Lookup_def)

lemma Lookup_finds:
  assumes "ring_ok r" and "active r \<noteq> {}"
  obtains v where "v \<in> active r" and "vh_hash v = target (active r) (userHash tbl r u)"
    and "Lookup tbl r u = vh_ip v"
proof -
  let ?v = "ring_pick (rg_vhosts r) (userHash tbl r u)"
  have ne: "rg_vhosts r \<noteq> []" using assms ring_ok_set [of r] by auto
  have "sorted (map vh_hash (rg_vhosts r))" using assms by (simp add: ring_ok_def sorted_copy_def)
  note pick_target [OF this ne, of "userHash tbl r u"]
  then have "?v \<in> active r" "vh_hash ?v = target (active r) (userHash tbl r u)"
    by (simp_all add: ring_ok_set [OF assms(1)])
  moreover have "Lookup tbl r u = vh_ip ?v" using ne by (simp add: Lookup_def)
  ultimately show thesis by (rule that)
qed

lemma collision_freeD: "collision_free S \<Longrightarrow> v \<in> S \<Longrightarrow> w \<in> S \<Longrightarrow> vh_hash v = vh_hash w \<Longrightarrow> vh_ip v = vh_ip w"
  unfolding collision_free_def by blast

lemma Lookup_unique:
  assumes "ring_ok r" and "collision_free (active r)" and "v \<in> active r"
    and "vh_hash v = target (active r) (userHash tbl r u)"
  shows "Lookup tbl r u = vh_ip v"
proof -
  have "active r \<noteq> {}" using assms(3) by (rule ex_in_conv [THEN iffD1, OF exI])
  from Lookup_finds [OF assms(1) this, of tbl u]
  obtain w where w: "w \<in> active r" "vh_hash w = target (active r) (userHash tbl r u)" "Lookup tbl r u = vh_ip w" .
  from w(2) assms(4) have "vh_hash w = vh_hash v" by (rule trans [OF _ sym])
  with collision_freeD [OF assms(2) w(1) assms(3)] w(3) show ?thesis by simp
qed

text \<open>Shrinking the ring keeps every user whose backend stays.\<close>

lemma Lookup_shrink:
  assumes "ring_ok r" and "ring_ok r'" and "rg_hf r' = rg_hf r" and "collision_free (active r')"
    and "active r' \<subseteq> active r" and "{v \<in> active r. vh_ip v = Lookup tbl r u} \<subseteq> active r'"
  shows "Lookup tbl r' u = Lookup tbl r u"
proof (cases "active r = {}")
  case True
  then have "active r' = {}" using assms(5) by simp
  then show ?thesis using True Lookup_empty [OF assms(1)] Lookup_empty [OF assms(2)] by simp
next
  case False
  from Lookup_finds [OF assms(1) this, of tbl u]
  obtain v where v: "v \<in> active r" "vh_hash v = target (active r) (userHash tbl r u)" "Lookup tbl r u = vh_ip v" .
  with assms(6) have v': "v \<in> active r'" by auto
  have h: "userHash tbl r' u = userHash tbl r u" using assms(3) by (simp add: userHash_def)
  have "target (active r') (userHash tbl r u) = target (active r) (userHash tbl r u)"
    by (rule target_subset [OF finite_active assms(5) v' v(2)])
  then have "vh_hash v = target (active r') (userHash tbl r' u)" using v(2) by (simp only: h)
  from Lookup_unique [OF assms(2,4) v' this] v(3) show ?thesis by simp
qed


subsection \<open>Reachable rings\<close>

text \<open>The rings a director can hold: any sequence of updates, each sorted in any way.\<close>

inductive ring_reach :: "HashFormat \<Rightarrow> Ring \<Rightarrow> bool" for hf where
  new: "ring_reach hf (NewRing hf)"
| add: "ring_reach hf r \<Longrightarrow> slice_sorts srt \<Longrightarrow> ring_reach hf (AddBackend srt b r)"
| remove: "ring_reach hf r \<Longrightarrow> slice_sorts srt \<Longrightarrow> ring_reach hf (RemoveBackend srt ip r)"
| set_up: "ring_reach hf r \<Longrightarrow> slice_sorts srt \<Longrightarrow> ring_reach hf (snd (SetUp srt ip up ts r))"

lemma rebuild_fields [simp]:
  "rg_hf (rebuild srt r) = rg_hf r" "rg_backends (rebuild srt r) = rg_backends r"
  by (simp_all add: rebuild_def Let_def)

lemma op_hf [simp]:
  "rg_hf (AddBackend srt b r) = rg_hf r" "rg_hf (RemoveBackend srt ip r) = rg_hf r"
  "rg_hf (snd (SetUp srt ip up ts r)) = rg_hf r"
  by (simp_all add: AddBackend_def RemoveBackend_def SetUp_def Let_def split: option.split)

lemma ring_reach_ok: "ring_reach hf r \<Longrightarrow> ring_ok r \<and> rg_hf r = hf"
  by (induction rule: ring_reach.induct)
     (simp_all add: NewRing_ok AddBackend_ok RemoveBackend_ok SetUp_ok, simp add: NewRing_def)

lemma backend_vhosts_ip: "v \<in> set (backend_vhosts e) \<Longrightarrow> vh_ip v = fst e \<and> rb_Up (snd e)"
  by (auto simp: backend_vhosts_def Let_def split: if_splits)

lemma backend_vhosts_ne: "rb_Up b \<Longrightarrow> set (backend_vhosts (ip, b)) \<noteq> {}"
  by (simp add: backend_vhosts_def Let_def defaultVhosts_def)

lemma active_iff:
  "wf_map (rg_backends r) \<Longrightarrow>
    v \<in> active r \<longleftrightarrow> (\<exists>b. map_of (rg_backends r) (vh_ip v) = Some b \<and> v \<in> set (backend_vhosts (vh_ip v, b)))"
proof (rule iffI)
  assume wf: "wf_map (rg_backends r)" and "v \<in> active r"
  then obtain ip b where e: "(ip, b) \<in> set (rg_backends r)" "v \<in> set (backend_vhosts (ip, b))"
    by (auto simp: active_def)
  then have "ip = vh_ip v" using backend_vhosts_ip by fastforce
  with e wf show "\<exists>b. map_of (rg_backends r) (vh_ip v) = Some b \<and> v \<in> set (backend_vhosts (vh_ip v, b))"
    by (auto simp: map_of_Some_iff)
next
  assume "\<exists>b. map_of (rg_backends r) (vh_ip v) = Some b \<and> v \<in> set (backend_vhosts (vh_ip v, b))"
  then show "v \<in> active r" by (auto simp: active_def dest: map_of_SomeD)
qed

lemma active_empty: "wf_map (rg_backends r) \<Longrightarrow>
    active r = {} \<longleftrightarrow> (\<forall>ip b. map_of (rg_backends r) ip = Some b \<longrightarrow> \<not> rb_Up b)"
proof -
  assume wf: "wf_map (rg_backends r)"
  have "active r = {} \<longleftrightarrow> (\<forall>e \<in> set (rg_backends r). \<not> rb_Up (snd e))"
  proof (rule iffI)
    assume "active r = {}"
    then show "\<forall>e \<in> set (rg_backends r). \<not> rb_Up (snd e)"
      using backend_vhosts_ne by (auto simp: active_def)
  next
    assume "\<forall>e \<in> set (rg_backends r). \<not> rb_Up (snd e)"
    then show "active r = {}" by (auto simp: active_def backend_vhosts_def)
  qed
  then show ?thesis using wf by (auto simp: map_of_Some_iff)
qed

lemma active_up:
  assumes "ring_ok r" and "v \<in> active r"
  obtains b where "map_of (rg_backends r) (vh_ip v) = Some b" and "rb_Up b" and "rb_IP b = vh_ip v"
proof -
  have wf: "wf_map (rg_backends r)" and ips: "ips_ok (rg_backends r)" using assms(1) by (simp_all add: ring_ok_def)
  from active_iff [OF wf, THEN iffD1, OF assms(2)] obtain b
    where b: "map_of (rg_backends r) (vh_ip v) = Some b" "v \<in> set (backend_vhosts (vh_ip v, b))" by blast
  then have "rb_Up b" using backend_vhosts_ip [OF b(2)] by simp
  moreover have "rb_IP b = vh_ip v"
    using ips map_of_SomeD [OF b(1)] by (auto simp: ips_ok_def list_all_iff)
  ultimately show thesis using that b(1) by blast
qed

lemma LookupBackend_Lookup:
  "LookupBackend tbl r u = (if rg_vhosts r = [] then None else map_of (rg_backends r) (Lookup tbl r u))"
  by (simp add: LookupBackend_def lookupLocked_def Lookup_def)

text \<open>
  C17. Routing is the successor on the ring: in every ring a director can reach, a lookup
  finds no backend exactly when none is up; otherwise the backend it returns is registered
  and up, and owns a virtual node whose hash is the least one not below the user's hash,
  or the least of all when the user's hash is above them all. The binary search is
  correct, the wrap-around included.
\<close>

theorem Lookup_successor:
  assumes "ring_reach hf r"
  shows "if \<exists>ip b. GetBackend ip r = Some b \<and> rb_Up b
    then \<exists>v b. v \<in> active r \<and> vh_hash v = target (active r) (Hash (Key tbl hf u)) \<and>
           Lookup tbl r u = vh_ip v \<and> LookupBackend tbl r u = Some b \<and>
           GetBackend (vh_ip v) r = Some b \<and> rb_Up b \<and> rb_IP b = vh_ip v
    else Lookup tbl r u = [] \<and> LookupBackend tbl r u = None"
proof -
  have ok: "ring_ok r" and hf: "rg_hf r = hf" using ring_reach_ok [OF assms] by simp_all
  have wf: "wf_map (rg_backends r)" using ok by (simp add: ring_ok_def)
  have up: "(\<exists>ip b. GetBackend ip r = Some b \<and> rb_Up b) \<longleftrightarrow> active r \<noteq> {}"
    by (auto simp: GetBackend_def active_empty [OF wf])
  show ?thesis
  proof (cases "active r = {}")
    case True
    then have "rg_vhosts r = []" using ring_ok_set [OF ok] by simp
    then show ?thesis using True up by (simp add: Lookup_def LookupBackend_Lookup)
  next
    case False
    from Lookup_finds [OF ok False, of tbl u] obtain v where v: "v \<in> active r"
      "vh_hash v = target (active r) (userHash tbl r u)" "Lookup tbl r u = vh_ip v" .
    from active_up [OF ok v(1)] obtain b where b: "map_of (rg_backends r) (vh_ip v) = Some b" "rb_Up b" "rb_IP b = vh_ip v" .
    have "rg_vhosts r \<noteq> []" using ring_ok_set [OF ok] False by auto
    then have "LookupBackend tbl r u = Some b" by (simp add: LookupBackend_Lookup v(3) b(1))
    moreover have "userHash tbl r u = Hash (Key tbl hf u)" by (simp add: userHash_def hf)
    ultimately have "\<exists>v b. v \<in> active r \<and> vh_hash v = target (active r) (Hash (Key tbl hf u)) \<and>
           Lookup tbl r u = vh_ip v \<and> LookupBackend tbl r u = Some b \<and>
           GetBackend (vh_ip v) r = Some b \<and> rb_Up b \<and> rb_IP b = vh_ip v"
      using v b unfolding GetBackend_def by metis
    then show ?thesis using up False by presburger
  qed
qed


text \<open>A ring of one backend with one virtual node, for the examples.\<close>

definition demo_backend :: "string \<Rightarrow> RingBackend" where
  "demo_backend ip = \<lparr> rb_IP = ip, rb_Port = 143, rb_Tag = ''eu'', rb_Up = True, rb_Vhosts = 1,
     rb_LastUp = 0, rb_LastDown = 0, rb_Hostname = [] \<rparr>"

definition demo_ring :: Ring where
  "demo_ring = AddBackend (sort_key vh_hash) (demo_backend ''10.0.0.1'') (NewRing DefaultHashFormat)"

lemma demo_ring_backends: "rg_backends demo_ring = [(''10.0.0.1'', demo_backend ''10.0.0.1'')]"
  by (simp add: demo_ring_def AddBackend_def NewRing_def demo_backend_def Let_def)

lemma demo_ring_reach: "ring_reach DefaultHashFormat demo_ring"
  unfolding demo_ring_def by (intro ring_reach.intros sort_key_slice_sorts)

lemma demo_ring_active: "active demo_ring = {\<lparr> vh_hash = vhostHash ''10.0.0.1-0'', vh_ip = ''10.0.0.1'' \<rparr>}"
  by (simp add: active_def demo_ring_backends backend_vhosts_def demo_backend_def Let_def
      itoa.simps char_of_def bit_iff_odd)

theorem Lookup_successor_witness: "Lookup (\<lambda>r. r) demo_ring ''ann'' = ''10.0.0.1''"
proof -
  have "\<exists>ip b. GetBackend ip demo_ring = Some b \<and> rb_Up b"
    by (simp add: GetBackend_def demo_ring_backends demo_backend_def)
  then show ?thesis
    using Lookup_successor [OF demo_ring_reach, of "\<lambda>r. r" "''ann''"] unfolding demo_ring_active by auto
qed

text \<open>
  C18. Directors agree: two rings that hold the same backends and the same template, built
  by any sequences of updates with any iteration order and any behaviour of the unstable
  sort, route every user to the same backend, provided no two backends collide on a hash.
\<close>

theorem Lookup_agrees:
  assumes "ring_reach hf r" and "ring_reach hf r'" and "\<forall>ip. GetBackend ip r = GetBackend ip r'"
    and "collision_free (active r)"
  shows "Lookup tbl r u = Lookup tbl r' u \<and> LookupBackend tbl r u = LookupBackend tbl r' u"
proof -
  have ok: "ring_ok r" "ring_ok r'" and hf: "rg_hf r = rg_hf r'"
    using ring_reach_ok [OF assms(1)] ring_reach_ok [OF assms(2)] by simp_all
  then have wf: "wf_map (rg_backends r)" "wf_map (rg_backends r')" by (simp_all add: ring_ok_def)
  have m: "map_of (rg_backends r) ip = map_of (rg_backends r') ip" for ip
    using assms(3) by (simp add: GetBackend_def)
  have a: "active r = active r'"
    by (rule set_eqI) (simp only: active_iff [OF wf(1)] active_iff [OF wf(2)] m)
  have L: "Lookup tbl r u = Lookup tbl r' u"
    by (rule Lookup_shrink [OF ok(2,1) hf assms(4)]) (simp_all add: a)
  have "rg_vhosts r = [] \<longleftrightarrow> rg_vhosts r' = []"
    using ring_ok_set [OF ok(1)] ring_ok_set [OF ok(2)] a by (metis set_empty)
  then show ?thesis by (simp add: L LookupBackend_Lookup m)
qed

theorem Lookup_agrees_witness:
  "Lookup (\<lambda>r. r) demo_ring ''ann'' =
     Lookup (\<lambda>r. r) (snd (SetUp (sort_key vh_hash) ''10.0.0.1'' True 0 demo_ring)) ''ann''"
  using Lookup_agrees [OF demo_ring_reach ring_reach.set_up [OF demo_ring_reach sort_key_slice_sorts,
        of "''10.0.0.1''" True 0], of "\<lambda>r. r" "''ann''"]
  by (simp add: SetUp_def demo_ring_backends demo_ring_active collision_free_def GetBackend_def mark_def
      demo_backend_def)

text \<open>The example's ring with its backend marked down.\<close>

definition demo_down :: Ring where
  "demo_down = snd (SetUp (sort_key vh_hash) ''10.0.0.1'' False 3 demo_ring)"

lemma demo_down_reach: "ring_reach DefaultHashFormat demo_down"
  unfolding demo_down_def by (intro ring_reach.set_up demo_ring_reach sort_key_slice_sorts)

lemma demo_down_backends: "rg_backends demo_down = [(''10.0.0.1'', mark False 3 (demo_backend ''10.0.0.1''))]"
  by (simp add: demo_down_def SetUp_def demo_ring_backends)

lemma demo_down_active: "active demo_down = {}"
  by (simp add: active_def demo_down_backends backend_vhosts_def mark_def)

text \<open>Taking a backend out, or bringing one in, as a change of the set of nodes.\<close>

lemma active_without:
  assumes "wf_map (rg_backends r)" and "wf_map (rg_backends r')"
    and "\<And>q. q \<noteq> ip \<Longrightarrow> map_of (rg_backends r') q = map_of (rg_backends r) q"
    and "\<And>b. map_of (rg_backends r') ip = Some b \<Longrightarrow> \<not> rb_Up b"
  shows "active r' = {v \<in> active r. vh_ip v \<noteq> ip}"
proof (rule set_eqI)
  fix v
  show "v \<in> active r' \<longleftrightarrow> v \<in> {v \<in> active r. vh_ip v \<noteq> ip}"
  proof (cases "vh_ip v = ip")
    case True
    have "v \<notin> active r'"
    proof
      assume "v \<in> active r'"
      with active_iff [OF assms(2), THEN iffD1, OF this] True obtain b
        where "map_of (rg_backends r') ip = Some b" "v \<in> set (backend_vhosts (ip, b))" by auto
      with assms(4) backend_vhosts_ip [of v "(ip, b)"] show False by simp
    qed
    with True show ?thesis by simp
  next
    case False
    then show ?thesis using assms(3) by (simp add: active_iff [OF assms(1)] active_iff [OF assms(2)])
  qed
qed

lemma Lookup_without:
  assumes "ring_ok r" and "ring_ok r'" and "rg_hf r' = rg_hf r" and "collision_free (active r)"
    and "\<And>q. q \<noteq> ip \<Longrightarrow> map_of (rg_backends r') q = map_of (rg_backends r) q"
    and "\<And>b. map_of (rg_backends r') ip = Some b \<Longrightarrow> \<not> rb_Up b"
    and "Lookup tbl r u \<noteq> ip"
  shows "Lookup tbl r' u = Lookup tbl r u"
proof -
  have wf: "wf_map (rg_backends r)" "wf_map (rg_backends r')" using assms(1,2) by (simp_all add: ring_ok_def)
  have a: "active r' = {v \<in> active r. vh_ip v \<noteq> ip}" by (rule active_without [OF wf assms(5,6)])
  show ?thesis
  proof (rule Lookup_shrink [OF assms(1-3)])
    show "collision_free (active r')" using assms(4) unfolding collision_free_def a by blast
    show "active r' \<subseteq> active r" unfolding a by blast
    show "{v \<in> active r. vh_ip v = Lookup tbl r u} \<subseteq> active r'" unfolding a using assms(7) by auto
  qed
qed

lemma Lookup_with:
  assumes "ring_ok r" and "ring_ok r'" and "rg_hf r' = rg_hf r" and "collision_free (active r')"
    and "\<And>q. q \<noteq> ip \<Longrightarrow> map_of (rg_backends r') q = map_of (rg_backends r) q"
    and "\<And>b. map_of (rg_backends r) ip = Some b \<Longrightarrow> \<not> rb_Up b"
  shows "Lookup tbl r' u = Lookup tbl r u \<or> Lookup tbl r' u = ip"
proof (cases "Lookup tbl r' u = ip")
  case False
  have "Lookup tbl r u = Lookup tbl r' u"
    by (rule Lookup_without [OF assms(2,1) _ assms(4) _ assms(6) False]) (simp_all add: assms(3,5))
  then show ?thesis by simp
qed simp

text \<open>
  C19. Consistent hashing, where no two backends have virtual nodes of the same hash (the
  hash is 32 bits of MD5, so this is a condition on the backends and not a fact): when a
  backend is removed or marked down, only the users it served move; when a backend joins
  or one that was down comes back up, and the ring it gives has no such collision either,
  the users that move all move to it.
\<close>

theorem Lookup_minimal_disruption:
  assumes "ring_reach hf r" and "slice_sorts srt" and "collision_free (active r)"
  shows "(Lookup tbl r u \<noteq> ip \<longrightarrow>
        Lookup tbl (RemoveBackend srt ip r) u = Lookup tbl r u \<and>
        Lookup tbl (snd (SetUp srt ip False ts r)) u = Lookup tbl r u) \<and>
    (\<forall>b. GetBackend (rb_IP b) r = None \<longrightarrow> collision_free (active (AddBackend srt b r)) \<longrightarrow>
        Lookup tbl (AddBackend srt b r) u = Lookup tbl r u \<or> Lookup tbl (AddBackend srt b r) u = rb_IP b) \<and>
    (\<forall>b. GetBackend ip r = Some b \<longrightarrow> \<not> rb_Up b \<longrightarrow> collision_free (active (snd (SetUp srt ip True ts r))) \<longrightarrow>
        Lookup tbl (snd (SetUp srt ip True ts r)) u = Lookup tbl r u \<or>
        Lookup tbl (snd (SetUp srt ip True ts r)) u = ip)"
proof -
  have ok: "ring_ok r" using ring_reach_ok [OF assms(1)] by simp
  note ops = RemoveBackend_ok [OF assms(2) ok] SetUp_ok [OF assms(2) ok] AddBackend_ok [OF assms(2) ok]
  have "Lookup tbl (RemoveBackend srt ip r) u = Lookup tbl r u" if "Lookup tbl r u \<noteq> ip"
    by (rule Lookup_without [OF ok ops(1) _ assms(3) _ _ that]) (simp_all add: RemoveBackend_def gomap_simps)
  moreover have "Lookup tbl (snd (SetUp srt ip False ts r)) u = Lookup tbl r u" if "Lookup tbl r u \<noteq> ip"
    by (rule Lookup_without [OF ok ops(2) _ assms(3) _ _ that])
       (auto simp: SetUp_def gomap_simps mark_def Let_def split: option.splits if_splits)
  moreover have "Lookup tbl (AddBackend srt b r) u = Lookup tbl r u \<or> Lookup tbl (AddBackend srt b r) u = rb_IP b"
    if "GetBackend (rb_IP b) r = None" "collision_free (active (AddBackend srt b r))" for b
    by (rule Lookup_with [OF ok ops(3) _ that(2)])
       (use that(1) in \<open>simp_all add: AddBackend_def GetBackend_def gomap_simps Let_def\<close>)
  moreover have "Lookup tbl (snd (SetUp srt ip True ts r)) u = Lookup tbl r u \<or>
      Lookup tbl (snd (SetUp srt ip True ts r)) u = ip"
    if "GetBackend ip r = Some b" "\<not> rb_Up b" "collision_free (active (snd (SetUp srt ip True ts r)))" for b
    by (rule Lookup_with [OF ok ops(2) _ that(3)])
       (use that(1,2) in \<open>simp_all add: SetUp_def GetBackend_def gomap_simps\<close>)
  ultimately show ?thesis by blast
qed

theorem Lookup_minimal_disruption_witness:
  "Lookup (\<lambda>r. r) (RemoveBackend (sort_key vh_hash) ''10.0.0.9'' demo_ring) ''ann'' = ''10.0.0.1'' \<and>
   Lookup (\<lambda>r. r) (snd (SetUp (sort_key vh_hash) ''10.0.0.1'' True 5 demo_down)) ''ann'' \<in> {[], ''10.0.0.1''}"
proof -
  have a: "collision_free (active demo_ring)" by (simp add: demo_ring_active collision_free_def)
  have "rg_vhosts demo_ring = [\<lparr> vh_hash = vhostHash ''10.0.0.1-0'', vh_ip = ''10.0.0.1'' \<rparr>]"
    by (simp add: demo_ring_def AddBackend_def rebuild_def NewRing_def demo_backend_def Let_def
        backend_vhosts_def itoa.simps char_of_def bit_iff_odd)
  then have "Lookup (\<lambda>r. r) demo_ring ''ann'' = ''10.0.0.1''"
    by (simp add: Lookup_def ring_pick_def Let_def sort_search_def search_loop.simps)
  then have 1: "Lookup (\<lambda>r. r) (RemoveBackend (sort_key vh_hash) ''10.0.0.9'' demo_ring) ''ann'' = ''10.0.0.1''"
    using Lookup_minimal_disruption [OF demo_ring_reach sort_key_slice_sorts a, of "\<lambda>r. r" "''ann''" "''10.0.0.9''" 0]
    by simp
  have c: "collision_free (active demo_down)" by (simp add: demo_down_active collision_free_def)
  have e: "Lookup (\<lambda>r. r) demo_down ''ann'' = []"
    using ring_reach_ok [OF demo_down_reach] by (simp add: Lookup_empty demo_down_active)
  have "collision_free (active (snd (SetUp (sort_key vh_hash) ''10.0.0.1'' True 5 demo_down)))"
    by (simp add: collision_free_def active_def SetUp_def demo_down_backends backend_vhosts_def mark_def
        demo_backend_def Let_def)
  then have "Lookup (\<lambda>r. r) (snd (SetUp (sort_key vh_hash) ''10.0.0.1'' True 5 demo_down)) ''ann'' \<in> {[], ''10.0.0.1''}"
    using Lookup_minimal_disruption [OF demo_down_reach sort_key_slice_sorts c,
        of "\<lambda>r. r" "''ann''" "''10.0.0.1''" 5] e
    by (simp add: GetBackend_def demo_down_backends mark_def)
  with 1 show ?thesis by (rule conjI)
qed


subsection \<open>Tags\<close>

lemma tag_set:
  assumes "ring_ok r"
  shows "set (tag_vhosts (rg_tagVhosts r) t) = {v \<in> active r. \<exists>b. GetBackend (vh_ip v) r = Some b \<and> rb_Tag b = t}"
proof -
  have wf: "wf_map (rg_backends r)" using assms by (simp add: ring_ok_def)
  have "sorted_copy (tag_vhosts (rg_tagVhosts r) t) (concat (map backend_vhosts (in_tag t (rg_backends r))))"
    using assms by (simp add: ring_ok_def)
  then have "set (tag_vhosts (rg_tagVhosts r) t) = (\<Union>e \<in> set (in_tag t (rg_backends r)). set (backend_vhosts e))"
    by (simp add: sorted_copy_set)
  also have "\<dots> = {v \<in> active r. \<exists>b. GetBackend (vh_ip v) r = Some b \<and> rb_Tag b = t}"
  proof (intro set_eqI iffI)
    fix v assume "v \<in> (\<Union>e \<in> set (in_tag t (rg_backends r)). set (backend_vhosts e))"
    then obtain ip b where e: "(ip, b) \<in> set (rg_backends r)" "rb_Tag b = t" "v \<in> set (backend_vhosts (ip, b))"
      by (auto simp: in_tag_def)
    moreover have "vh_ip v = ip" using backend_vhosts_ip [OF e(3)] by simp
    ultimately show "v \<in> {v \<in> active r. \<exists>b. GetBackend (vh_ip v) r = Some b \<and> rb_Tag b = t}"
      using wf by (auto simp: GetBackend_def active_def map_of_Some_iff)
  next
    fix v assume "v \<in> {v \<in> active r. \<exists>b. GetBackend (vh_ip v) r = Some b \<and> rb_Tag b = t}"
    then obtain b where v: "v \<in> active r" and b: "map_of (rg_backends r) (vh_ip v) = Some b" "rb_Tag b = t"
      by (auto simp: GetBackend_def)
    from active_iff [OF wf, THEN iffD1, OF v] b(1) have "v \<in> set (backend_vhosts (vh_ip v, b))" by auto
    then show "v \<in> (\<Union>e \<in> set (in_tag t (rg_backends r)). set (backend_vhosts e))"
      using map_of_SomeD [OF b(1)] b(2) by (auto simp: in_tag_def)
  qed
  finally show ?thesis .
qed

lemma tag_up:
  assumes "ring_ok r"
  shows "tag_vhosts (rg_tagVhosts r) t \<noteq> [] \<longleftrightarrow> (\<exists>ip b. GetBackend ip r = Some b \<and> rb_Up b \<and> rb_Tag b = t)"
proof
  assume "tag_vhosts (rg_tagVhosts r) t \<noteq> []"
  then obtain v where "v \<in> set (tag_vhosts (rg_tagVhosts r) t)" by (cases "tag_vhosts (rg_tagVhosts r) t") auto
  then obtain b where v: "v \<in> active r" "GetBackend (vh_ip v) r = Some b" "rb_Tag b = t"
    by (auto simp: tag_set [OF assms])
  from active_up [OF assms v(1)] v show "\<exists>ip b. GetBackend ip r = Some b \<and> rb_Up b \<and> rb_Tag b = t"
    by (auto simp: GetBackend_def)
next
  assume "\<exists>ip b. GetBackend ip r = Some b \<and> rb_Up b \<and> rb_Tag b = t"
  then obtain ip b where b: "map_of (rg_backends r) ip = Some b" "rb_Up b" "rb_Tag b = t"
    by (auto simp: GetBackend_def)
  have "\<exists>v. v \<in> set (backend_vhosts (ip, b))" using backend_vhosts_ne [OF b(2), of ip] unfolding ex_in_conv .
  then obtain v where v: "v \<in> set (backend_vhosts (ip, b))" by (rule exE)
  then have "vh_ip v = ip" using backend_vhosts_ip [OF v] by simp
  with v b have "v \<in> set (tag_vhosts (rg_tagVhosts r) t)"
    using map_of_SomeD [OF b(1)] by (auto simp: tag_set [OF assms] GetBackend_def active_def)
  then show "tag_vhosts (rg_tagVhosts r) t \<noteq> []" by auto
qed

text \<open>
  C20. A tag confines a user: \<^verbatim>\<open>LookupBackendByTag\<close> finds nothing exactly when no backend
  with the tag is up, and otherwise a registered backend that is up, carries the tag and
  owns a node of the ring whose hash is the successor of the user's hash among the nodes
  of that tag. \<^verbatim>\<open>Tags\<close> lists, without
  repetition, the tags of the backends that are up, and no tag a backend has left.
\<close>

theorem LookupBackendByTag_confined:
  assumes "ring_reach hf r"
  shows "(LookupBackendByTag tbl r u tag = None \<longleftrightarrow>
      (\<nexists>ip b. GetBackend ip r = Some b \<and> rb_Up b \<and> rb_Tag b = tag)) \<and>
    (\<forall>b. LookupBackendByTag tbl r u tag = Some b \<longrightarrow>
      rb_Up b \<and> rb_Tag b = tag \<and> GetBackend (rb_IP b) r = Some b \<and>
      (\<exists>v \<in> active r. vh_ip v = rb_IP b \<and> vh_hash v =
         target {v \<in> active r. \<exists>b. GetBackend (vh_ip v) r = Some b \<and> rb_Tag b = tag} (Hash (Key tbl hf u)))) \<and>
    distinct (Tags r) \<and> set (Tags r) = {rb_Tag b | ip b. GetBackend ip r = Some b \<and> rb_Up b}"
proof -
  have ok: "ring_ok r" and hf: "rg_hf r = hf" using ring_reach_ok [OF assms] by simp_all
  let ?vs = "tag_vhosts (rg_tagVhosts r) tag"
  have L: "LookupBackendByTag tbl r u tag =
      (if ?vs = [] then None else map_of (rg_backends r) (vh_ip (ring_pick ?vs (userHash tbl r u))))"
    by (simp add: LookupBackendByTag_def lookupLocked_def tag_vhosts_def)
  have found: "\<exists>b. LookupBackendByTag tbl r u tag = Some b \<and> rb_Up b \<and> rb_Tag b = tag \<and>
      GetBackend (rb_IP b) r = Some b \<and> (\<exists>v \<in> active r. vh_ip v = rb_IP b \<and> vh_hash v = target (set ?vs) (userHash tbl r u))"
    if ne: "?vs \<noteq> []"
  proof -
    let ?v = "ring_pick ?vs (userHash tbl r u)"
    have "sorted (map vh_hash ?vs)" using ok by (simp add: ring_ok_def sorted_copy_def)
    note p = pick_target [OF this ne, of "userHash tbl r u"]
    then obtain b where v: "?v \<in> active r" and b: "GetBackend (vh_ip ?v) r = Some b" "rb_Tag b = tag"
      by (auto simp: tag_set [OF ok])
    from active_up [OF ok v] obtain b' where b': "map_of (rg_backends r) (vh_ip ?v) = Some b'"
      "rb_Up b'" "rb_IP b' = vh_ip ?v" .
    moreover have "b' = b" using b(1) b'(1) by (simp add: GetBackend_def)
    ultimately show ?thesis
      using b p(2) ne unfolding L by (intro exI [of _ b] conjI bexI [of _ ?v]) (simp_all add: v)
  qed
  have "userHash tbl r u = Hash (Key tbl hf u)" by (simp add: userHash_def hf)
  then have 1: "\<forall>b. LookupBackendByTag tbl r u tag = Some b \<longrightarrow>
      rb_Up b \<and> rb_Tag b = tag \<and> GetBackend (rb_IP b) r = Some b \<and>
      (\<exists>v \<in> active r. vh_ip v = rb_IP b \<and> vh_hash v =
         target {v \<in> active r. \<exists>b. GetBackend (vh_ip v) r = Some b \<and> rb_Tag b = tag} (Hash (Key tbl hf u)))"
    using found L unfolding tag_set [OF ok] by (cases "?vs = []") auto
  have 2: "LookupBackendByTag tbl r u tag = None \<longleftrightarrow>
      (\<nexists>ip b. GetBackend ip r = Some b \<and> rb_Up b \<and> rb_Tag b = tag)"
    using found tag_up [OF ok, of tag] L by (cases "?vs = []") auto
  have wt: "wf_map (rg_tagVhosts r)" using ok by (simp add: ring_ok_def)
  have 3: "distinct (Tags r)" unfolding Tags_def using wf_map_filter [OF wt] by blast
  have "t \<in> set (Tags r) \<longleftrightarrow> (\<exists>vhs. map_of (rg_tagVhosts r) t = Some vhs \<and> vhs \<noteq> [])" for t
    using wt by (force simp: Tags_def map_of_Some_iff)
  then have "t \<in> set (Tags r) \<longleftrightarrow> tag_vhosts (rg_tagVhosts r) t \<noteq> []" for t
    by (simp add: tag_vhosts_def split: option.split)
  then have "set (Tags r) = {rb_Tag b | ip b. GetBackend ip r = Some b \<and> rb_Up b}"
    unfolding tag_up [OF ok] by (intro set_eqI) (simp, blast)
  with 1 2 3 show ?thesis by blast
qed

theorem LookupBackendByTag_confined_witness:
  "LookupBackendByTag (\<lambda>r. r) demo_ring ''ann'' ''us'' = None \<and>
   LookupBackendByTag (\<lambda>r. r) demo_ring ''ann'' ''eu'' \<noteq> None \<and> set (Tags demo_ring) = {''eu''}"
  using LookupBackendByTag_confined [OF demo_ring_reach, of "\<lambda>r. r" "''ann''" "''us''"]
    LookupBackendByTag_confined [OF demo_ring_reach, of "\<lambda>r. r" "''ann''" "''eu''"]
  by (auto simp: GetBackend_def demo_ring_backends demo_backend_def split: if_splits)


subsection \<open>The template\<close>

text \<open>A direct reading of a template: what each of its characters contributes to the key.\<close>

definition var_value :: "(rune \<Rightarrow> rune) \<Rightarrow> string \<Rightarrow> bool \<Rightarrow> char \<Rightarrow> string option" where
  "var_value tbl u lower c =
    (let local = takeWhile (\<lambda>c. c \<noteq> CHR ''@'') u;
         domain = tl (dropWhile (\<lambda>c. c \<noteq> CHR ''@'') u);
         fold = (if lower then to_lower tbl else (\<lambda>v. v))
     in if c = CHR ''u'' then Some (fold u)
        else if c = CHR ''n'' then Some (fold local)
        else if c = CHR ''d'' then Some (fold domain)
        else if c = CHR ''%'' \<and> \<not> lower then Some ''%'' else None)"

fun expand :: "(rune \<Rightarrow> rune) \<Rightarrow> string \<Rightarrow> string \<Rightarrow> string option" where
  "expand tbl u [] = Some []"
| "expand tbl u (c # cs) =
    (if c \<noteq> CHR ''%'' then map_option ((@) [c]) (expand tbl u cs)
     else case cs of
            [] \<Rightarrow> None
          | x # xs \<Rightarrow>
              if x = CHR ''L'' then
                (case xs of
                   [] \<Rightarrow> None
                 | y # ys \<Rightarrow> (case var_value tbl u True y of
                                None \<Rightarrow> None | Some v \<Rightarrow> map_option ((@) v) (expand tbl u ys)))
              else (case var_value tbl u False x of
                      None \<Rightarrow> None | Some v \<Rightarrow> map_option ((@) v) (expand tbl u xs)))"

definition seg_value :: "(rune \<Rightarrow> rune) \<Rightarrow> string \<Rightarrow> hashSeg \<Rightarrow> string" where
  "seg_value tbl u s = (if sg_field s = fieldLiteral then sg_lit s else fieldValue tbl u s)"

lemma Key_segs: "Key tbl hf u = concat (map (seg_value tbl u) (hf_segs hf))"
proof (cases "length (hf_segs hf) = 1")
  case True
  then obtain s where "hf_segs hf = [s]" by (auto simp: length_Suc_conv)
  then show ?thesis by (simp add: Key_def seg_value_def)
next
  case False
  have "seg_value tbl u = (\<lambda>s. if sg_field s = fieldLiteral then sg_lit s else fieldValue tbl u s)"
    by (rule ext) (rule seg_value_def)
  with False show ?thesis by (simp add: Key_def)
qed

abbreviation segs_value :: "(rune \<Rightarrow> rune) \<Rightarrow> string \<Rightarrow> hashSeg list \<Rightarrow> string" where
  "segs_value tbl u segs \<equiv> concat (map (seg_value tbl u) segs)"

lemma flushLit_value: "segs_value tbl u (flushLit lit segs) = segs_value tbl u segs @ lit"
  by (simp add: flushLit_def seg_value_def)

lemma fieldValue_at:
  "fieldValue tbl u \<lparr> sg_field = fieldLocal, sg_lit = l, sg_lower = b \<rparr> =
     (if b then to_lower tbl else (\<lambda>v. v)) (takeWhile (\<lambda>c. c \<noteq> CHR ''@'') u)"
  "fieldValue tbl u \<lparr> sg_field = fieldDomain, sg_lit = l, sg_lower = b \<rparr> =
     (if b then to_lower tbl else (\<lambda>v. v)) (tl (dropWhile (\<lambda>c. c \<noteq> CHR ''@'') u))"
  "fieldValue tbl u \<lparr> sg_field = fieldUser, sg_lit = l, sg_lower = b \<rparr> =
     (if b then to_lower tbl else (\<lambda>v. v)) u"
proof -
  have l: "CHR ''@'' \<notin> set u \<Longrightarrow> takeWhile (\<lambda>c. c \<noteq> CHR ''@'') u = u" by (auto simp: takeWhile_eq_all_conv)
  have n: "CHR ''@'' \<notin> set u \<Longrightarrow> dropWhile (\<lambda>c. c \<noteq> CHR ''@'') u = []" by (auto simp: dropWhile_eq_Nil_conv)
  have d: "drop (Suc (length (takeWhile (\<lambda>c. c \<noteq> CHR ''@'') u))) u = tl (dropWhile (\<lambda>c. c \<noteq> CHR ''@'') u)"
    by (metis dropWhile_eq_drop drop_Suc tl_drop)
  show "fieldValue tbl u \<lparr> sg_field = fieldLocal, sg_lit = l, sg_lower = b \<rparr> =
     (if b then to_lower tbl else (\<lambda>v. v)) (takeWhile (\<lambda>c. c \<noteq> CHR ''@'') u)" for l
    by (cases "CHR ''@'' \<in> set u") (simp_all add: fieldValue_def NormalizeUsername_def Let_def l)
  show "fieldValue tbl u \<lparr> sg_field = fieldDomain, sg_lit = l, sg_lower = b \<rparr> =
     (if b then to_lower tbl else (\<lambda>v. v)) (tl (dropWhile (\<lambda>c. c \<noteq> CHR ''@'') u))" for l
    by (cases "CHR ''@'' \<in> set u") (simp_all add: fieldValue_def NormalizeUsername_def Let_def n d)
  show "fieldValue tbl u \<lparr> sg_field = fieldUser, sg_lit = l, sg_lower = b \<rparr> =
     (if b then to_lower tbl else (\<lambda>v. v)) u" for l
    by (simp add: fieldValue_def NormalizeUsername_def Let_def)
qed

lemma parse_var_value:
  "case parse_var lower c (lit, segs) of
     Inl e \<Rightarrow> var_value tbl u lower c = None
   | Inr (lit', segs') \<Rightarrow> \<exists>v. var_value tbl u lower c = Some v \<and>
        segs_value tbl u segs' @ lit' = segs_value tbl u segs @ lit @ v"
  by (auto simp: parse_var_def var_value_def var_seg_def flushLit_value seg_value_def fieldValue_at Let_def)

lemma parse_format_expand:
  "case parse_format_loop fmt st of
     Inl e \<Rightarrow> expand tbl u fmt = None
   | Inr segs' \<Rightarrow> \<exists>w. expand tbl u fmt = Some w \<and>
        segs_value tbl u segs' = segs_value tbl u (snd st) @ fst st @ w"
proof (induction fmt st rule: parse_format_loop.induct)
  case (1 lit segs)
  then show ?case by (simp add: flushLit_value)
next
  case (2 c cs lit segs)
  show ?case
  proof (cases "c = CHR ''%''")
    case False
    then show ?thesis using "2.IH"(1) by (auto split: sum.splits)
  next
    case pc: True
    show ?thesis
    proof (cases cs)
      case (Cons x xs)
      show ?thesis
      proof (cases "x = CHR ''L''")
        case False
        then show ?thesis
          using "2.IH"(3) [of x xs] parse_var_value [where lower = False and c = x and lit = lit and segs = segs and tbl = tbl and u = u] pc Cons
          by (cases "parse_var False x (lit, segs)") (auto split: sum.splits)
      next
        case True
        then show ?thesis
        proof (cases xs)
          case (Cons y ys)
          then show ?thesis
            using "2.IH"(2) [of x xs y ys] parse_var_value [where lower = True and c = y and lit = lit and segs = segs and tbl = tbl and u = u] pc \<open>cs = x # xs\<close> True
            by (cases "parse_var True y (lit, segs)") (auto split: sum.splits)
        qed (use pc Cons True in simp)
      qed
    qed (use pc in simp)
  qed
qed

text \<open>
  C21. The compiled template means what it says: \<^verbatim>\<open>ParseHashFormat\<close> accepts exactly the
  non-empty templates with a reading, keeps the template for display, and the key it
  expands to is that reading, the fast path for a single variable included. The default
  template lowers the whole user name.
\<close>

theorem hash_format_expands:
  "(case ParseHashFormat fmt of
      Inl e \<Rightarrow> fmt = [] \<or> expand tbl u fmt = None
    | Inr hf \<Rightarrow> fmt \<noteq> [] \<and> hf_raw hf = fmt \<and> expand tbl u fmt = Some (Key tbl hf u)) \<and>
   Key tbl DefaultHashFormat u = to_lower tbl u"
proof -
  have "case ParseHashFormat fmt of
      Inl e \<Rightarrow> fmt = [] \<or> expand tbl u fmt = None
    | Inr hf \<Rightarrow> fmt \<noteq> [] \<and> hf_raw hf = fmt \<and> expand tbl u fmt = Some (Key tbl hf u)" for fmt
    using parse_format_expand [where fmt = fmt and st = "([], [])" and tbl = tbl and u = u]
    by (auto simp: ParseHashFormat_def Key_segs split: sum.splits)
  moreover have "Key tbl DefaultHashFormat u = to_lower tbl u"
    by (simp add: DefaultHashFormat_def ParseHashFormat_def parse_var_def var_seg_def flushLit_def
        Key_segs seg_value_def fieldValue_at)
  ultimately show ?thesis by blast
qed


lemma colliding_hashes:
  "vhostHash ''10.0.17.55-0'' = 1136885229" "vhostHash ''10.0.176.6-0'' = 1136885229"
  by code_simp+

lemma demo_vhosts: "backend_vhosts (ip, demo_backend ip) = [\<lparr> vh_hash = vhostHash (ip @ ''-0''), vh_ip = ip \<rparr>]"
  by (simp add: backend_vhosts_def demo_backend_def Let_def itoa.simps char_of_def bit_iff_odd)

lemma pick_all_equal:
  assumes "vh_hash v = vh_hash w"
  shows "ring_pick [v, w] h = v"
proof (cases "h \<le> vh_hash v")
  case True
  with assms show ?thesis by (simp add: ring_pick_def Let_def sort_search_def search_loop.simps)
next
  case False
  with assms show ?thesis by (simp add: ring_pick_def Let_def sort_search_def search_loop.simps)
qed

text \<open>
  C22. Agreement does need distinct hashes: the backends 10.0.17.55 and 10.0.176.6, with one
  virtual node each, have the same 32-bit hash, and two directors that hold both, sort
  alike, and merely range over their maps in different orders send every user to
  different backends.
\<close>

theorem collision_directors_disagree:
  "\<exists>r r'. ring_reach DefaultHashFormat r \<and> ring_reach DefaultHashFormat r' \<and>
     (\<forall>ip. GetBackend ip r = GetBackend ip r') \<and> (\<forall>tbl u. Lookup tbl r u \<noteq> Lookup tbl r' u)"
proof -
  let ?s = "sort_key vh_hash" and ?a = "''10.0.17.55''" and ?b = "''10.0.176.6''"
  define r where "r = AddBackend ?s (demo_backend ?b) (AddBackend ?s (demo_backend ?a) (NewRing DefaultHashFormat))"
  define r' where "r' = AddBackend ?s (demo_backend ?a) (AddBackend ?s (demo_backend ?b) (NewRing DefaultHashFormat))"
  have reach: "ring_reach DefaultHashFormat r" "ring_reach DefaultHashFormat r'"
    unfolding r_def r'_def by (intro ring_reach.intros sort_key_slice_sorts)+
  have bs: "rg_backends r = [(?a, demo_backend ?a), (?b, demo_backend ?b)]"
    "rg_backends r' = [(?b, demo_backend ?b), (?a, demo_backend ?a)]"
    unfolding r_def r'_def by (simp_all add: AddBackend_def NewRing_def Let_def demo_backend_def)
  have vs: "rg_vhosts r = ?s (concat (map backend_vhosts (rg_backends r)))"
    "rg_vhosts r' = ?s (concat (map backend_vhosts (rg_backends r')))"
    unfolding r_def r'_def by (simp_all add: AddBackend_def rebuild_def Let_def)
  let ?v = "\<lparr> vh_hash = 1136885229, vh_ip = ?a \<rparr>" and ?w = "\<lparr> vh_hash = 1136885229, vh_ip = ?b \<rparr>"
  have "rg_vhosts r = [?v, ?w]" "rg_vhosts r' = [?w, ?v]"
    unfolding vs bs by (simp_all add: demo_vhosts colliding_hashes)
  then have "Lookup tbl r u = ?a \<and> Lookup tbl r' u = ?b" for tbl u
    by (simp add: Lookup_def pick_all_equal)
  moreover have "GetBackend ip r = GetBackend ip r'" for ip by (simp add: GetBackend_def bs)
  ultimately show ?thesis using reach by (intro exI [of _ r] exI [of _ r']) simp
qed

end
