(* ===== verification/Go_Binary.thy ===== *)
theory Go_Binary
  imports Go_Runtime
begin

unbundle bit_operations_syntax

text \<open>
  The byte-level half of the Go library the on-disk formats use: package
  \<^verbatim>\<open>encoding/binary\<close> in little-endian order, \<^verbatim>\<open>copy\<close> into a part of a buffer, slices of a
  buffer and \<^verbatim>\<open>io.ReadFull\<close> on a reader that holds the rest of a file.  Fixed-width integers are
  words; a buffer of bytes is a \<open>string\<close>.
\<close>

type_synonym uint8 = "8 word"
type_synonym uint16 = "16 word"
type_synonym uint32 = "32 word"
type_synonym uint64 = "64 word"

named_theorems buffer_simps \<open>reading back what was written into a buffer\<close>

primrec le_bytes :: "nat \<Rightarrow> int \<Rightarrow> string" where
  "le_bytes 0 v = []"
| "le_bytes (Suc n) v = char_of (v mod 256) # le_bytes n (v div 256)"

primrec le_int :: "string \<Rightarrow> int" where
  "le_int [] = 0"
| "le_int (c # s) = of_char c + 256 * le_int s"

definition enc8 :: "uint8 \<Rightarrow> string" where
  "enc8 v = le_bytes 1 (uint v)"

definition enc16 :: "uint16 \<Rightarrow> string" where
  "enc16 v = le_bytes 2 (uint v)"

definition enc32 :: "uint32 \<Rightarrow> string" where
  "enc32 v = le_bytes 4 (uint v)"

definition enc64 :: "uint64 \<Rightarrow> string" where
  "enc64 v = le_bytes 8 (uint v)"

text \<open>The bytes \<open>[k, k + n)\<close> of a buffer.\<close>

definition sub_bytes :: "nat \<Rightarrow> nat \<Rightarrow> string \<Rightarrow> string" where
  "sub_bytes k n s = take n (drop k s)"

definition dec8 :: "string \<Rightarrow> nat \<Rightarrow> uint8" where
  "dec8 s k = word_of_int (le_int (sub_bytes k 1 s))"

definition dec16 :: "string \<Rightarrow> nat \<Rightarrow> uint16" where
  "dec16 s k = word_of_int (le_int (sub_bytes k 2 s))"

definition dec32 :: "string \<Rightarrow> nat \<Rightarrow> uint32" where
  "dec32 s k = word_of_int (le_int (sub_bytes k 4 s))"

definition dec64 :: "string \<Rightarrow> nat \<Rightarrow> uint64" where
  "dec64 s k = word_of_int (le_int (sub_bytes k 8 s))"

text \<open>\<^verbatim>\<open>copy(buf[k:], bs)\<close>: never past the end of the buffer.\<close>

definition copy_at :: "nat \<Rightarrow> string \<Rightarrow> string \<Rightarrow> string" where
  "copy_at k bs buf = take (length buf) (take k buf @ bs @ drop (k + length bs) buf)"

definition zeros :: "nat \<Rightarrow> string" where
  "zeros n = replicate n (CHR 0x00)"

text \<open>\<^verbatim>\<open>io.ReadFull\<close>: the bytes read and the rest of the reader.\<close>

datatype io_error = EOF | UnexpectedEOF

definition ReadFull :: "nat \<Rightarrow> string \<Rightarrow> io_error + string \<times> string" where
  "ReadFull n r =
    (if n \<le> length r then Inr (take n r, drop n r)
     else if r = [] then Inl EOF else Inl UnexpectedEOF)"

section \<open>Little-endian integers\<close>

lemma length_le_bytes [simp]: "length (le_bytes n v) = n"
  by (induction n arbitrary: v) simp_all

lemma length_enc [simp]:
  "length (enc8 a) = 1" "length (enc16 b) = 2" "length (enc32 c) = 4" "length (enc64 d) = 8"
  by (simp_all add: enc8_def enc16_def enc32_def enc64_def)

lemma length_zeros [simp]: "length (zeros n) = n"
  by (simp add: zeros_def)

lemma of_char_char_of_int: "of_char (char_of (v mod 256) :: char) = (v mod 256 :: int)"
  by simp

lemma le_int_le_bytes: "le_int (le_bytes n v) = v mod 256 ^ n"
proof (induction n arbitrary: v)
  case (Suc n)
  have "v mod (256 * 256 ^ n) = v mod 256 + 256 * (v div 256 mod 256 ^ n)"
    using zmod_zmult2_eq [of "256 ^ n" v 256] by simp
  then show ?case using Suc by simp
qed simp

lemma of_char_range: "0 \<le> (of_char c :: int)" "(of_char c :: int) < 256"
proof -
  have "(of_char c :: int) = int (of_char c)" by (simp add: of_nat_of_char)
  moreover have "(of_char c :: nat) < 256" by simp
  ultimately show "0 \<le> (of_char c :: int)" "(of_char c :: int) < 256" by linarith+
qed

lemma le_int_range: "0 \<le> le_int s" "le_int s < 256 ^ length s"
proof (induction s)
  case (Cons c s)
  { case 1 from Cons.IH(1) of_char_range(1) [of c] show ?case by simp
  next
    case 2 from Cons.IH(2) of_char_range(2) [of c] show ?case by simp }
qed simp_all

lemma le_bytes_le_int: "le_bytes (length s) (le_int s) = s"
proof (induction s)
  case (Cons c s)
  have "(of_char c + 256 * le_int s) mod 256 = of_char c"
    using of_char_range [of c] by simp
  moreover have "(of_char c + 256 * le_int s) div 256 = le_int s"
    using of_char_range [of c] by simp
  ultimately show ?case using Cons by simp
qed simp

lemma le_int_enc:
  "le_int (enc8 a) = uint a" "le_int (enc16 b) = uint b" "le_int (enc32 c) = uint c" "le_int (enc64 d) = uint d"
  unfolding enc8_def enc16_def enc32_def enc64_def le_int_le_bytes
  using uint_bounded [of a] uint_bounded [of b] uint_bounded [of c] uint_bounded [of d]
  by (simp_all add: mod_pos_pos_trivial)

section \<open>Reading back from a buffer\<close>

lemma length_sub_bytes [simp]: "length (sub_bytes k n s) = min n (length s - k)"
  by (simp add: sub_bytes_def)

lemma length_copy_at [simp]: "length (copy_at k bs buf) = length buf"
  by (cases "k \<le> length buf") (auto simp: copy_at_def)

lemma nth_copy_at:
  "i < length buf \<Longrightarrow> copy_at k bs buf ! i = (if k \<le> i \<and> i < k + length bs then bs ! (i - k) else buf ! i)"
  by (auto simp: copy_at_def nth_append min_def)

lemma nth_sub_bytes: "i < n \<Longrightarrow> k + i < length s \<Longrightarrow> sub_bytes k n s ! i = s ! (k + i)"
  by (simp add: sub_bytes_def)

lemma sub_copy_same: "k + length bs \<le> length buf \<Longrightarrow> sub_bytes k (length bs) (copy_at k bs buf) = bs"
  by (rule nth_equalityI) (auto simp: nth_sub_bytes nth_copy_at)

lemma sub_copy_before: "k + n \<le> j \<Longrightarrow> sub_bytes k n (copy_at j bs buf) = sub_bytes k n buf"
  by (rule nth_equalityI) (auto simp: nth_sub_bytes nth_copy_at)

lemma sub_copy_after: "j + length bs \<le> k \<Longrightarrow> sub_bytes k n (copy_at j bs buf) = sub_bytes k n buf"
  by (rule nth_equalityI) (auto simp: nth_sub_bytes nth_copy_at)

lemma dec_sub:
  "sub_bytes k 1 s = enc8 a \<Longrightarrow> dec8 s k = a" "sub_bytes k 2 s = enc16 b \<Longrightarrow> dec16 s k = b"
  "sub_bytes k 4 s = enc32 c \<Longrightarrow> dec32 s k = c" "sub_bytes k 8 s = enc64 d \<Longrightarrow> dec64 s k = d"
  by (simp_all add: dec8_def dec16_def dec32_def dec64_def le_int_enc)

lemma dec_copy_same [buffer_simps]:
  "k + 1 \<le> length buf \<Longrightarrow> dec8 (copy_at k (enc8 a) buf) k = a"
  "k + 2 \<le> length buf \<Longrightarrow> dec16 (copy_at k (enc16 b) buf) k = b"
  "k + 4 \<le> length buf \<Longrightarrow> dec32 (copy_at k (enc32 c) buf) k = c"
  "k + 8 \<le> length buf \<Longrightarrow> dec64 (copy_at k (enc64 d) buf) k = d"
  by (rule dec_sub, use sub_copy_same [of k "enc8 a" buf] in simp,
      rule dec_sub, use sub_copy_same [of k "enc16 b" buf] in simp,
      rule dec_sub, use sub_copy_same [of k "enc32 c" buf] in simp,
      rule dec_sub, use sub_copy_same [of k "enc64 d" buf] in simp)

lemma dec_copy_before [buffer_simps]:
  "k + 1 \<le> j \<Longrightarrow> dec8 (copy_at j bs buf) k = dec8 buf k"
  "k + 2 \<le> j \<Longrightarrow> dec16 (copy_at j bs buf) k = dec16 buf k"
  "k + 4 \<le> j \<Longrightarrow> dec32 (copy_at j bs buf) k = dec32 buf k"
  "k + 8 \<le> j \<Longrightarrow> dec64 (copy_at j bs buf) k = dec64 buf k"
  by (simp_all add: dec8_def dec16_def dec32_def dec64_def sub_copy_before)

lemma dec_copy_after [buffer_simps]:
  "j + length bs \<le> k \<Longrightarrow> dec8 (copy_at j bs buf) k = dec8 buf k"
  "j + length bs \<le> k \<Longrightarrow> dec16 (copy_at j bs buf) k = dec16 buf k"
  "j + length bs \<le> k \<Longrightarrow> dec32 (copy_at j bs buf) k = dec32 buf k"
  "j + length bs \<le> k \<Longrightarrow> dec64 (copy_at j bs buf) k = dec64 buf k"
  by (simp_all add: dec8_def dec16_def dec32_def dec64_def sub_copy_after)

lemma sub_copy [buffer_simps]:
  "n = length bs \<Longrightarrow> k + length bs \<le> length buf \<Longrightarrow> sub_bytes k n (copy_at k bs buf) = bs"
  "k + n \<le> j \<Longrightarrow> sub_bytes k n (copy_at j bs buf) = sub_bytes k n buf"
  "j + length bs \<le> k \<Longrightarrow> sub_bytes k n (copy_at j bs buf) = sub_bytes k n buf"
  using sub_copy_same sub_copy_before sub_copy_after by blast+

lemma dec_append [buffer_simps]:
  "k + 1 \<le> length s \<Longrightarrow> dec8 (s @ t) k = dec8 s k"
  "k + 2 \<le> length s \<Longrightarrow> dec16 (s @ t) k = dec16 s k"
  "k + 4 \<le> length s \<Longrightarrow> dec32 (s @ t) k = dec32 s k"
  "k + 8 \<le> length s \<Longrightarrow> dec64 (s @ t) k = dec64 s k"
  by (simp_all add: dec8_def dec16_def dec32_def dec64_def sub_bytes_def)

lemma dec_enc [buffer_simps]:
  "dec8 (enc8 a @ t) 0 = a" "dec16 (enc16 b @ t) 0 = b" "dec32 (enc32 c @ t) 0 = c" "dec64 (enc64 d @ t) 0 = d"
  by (rule dec_sub, simp add: sub_bytes_def)+

lemma enc_dec:
  "k + 1 \<le> length s \<Longrightarrow> enc8 (dec8 s k) = sub_bytes k 1 s"
  "k + 2 \<le> length s \<Longrightarrow> enc16 (dec16 s k) = sub_bytes k 2 s"
  "k + 4 \<le> length s \<Longrightarrow> enc32 (dec32 s k) = sub_bytes k 4 s"
  "k + 8 \<le> length s \<Longrightarrow> enc64 (dec64 s k) = sub_bytes k 8 s"
proof -
  have *: "le_bytes n (le_int (sub_bytes k n s) mod 2 ^ (8 * n)) = sub_bytes k n s" if "k + n \<le> length s" for n
  proof -
    have l: "length (sub_bytes k n s) = n" using that by simp
    have "(2 :: int) ^ (8 * n) = 256 ^ n" by (simp add: power_mult)
    then show ?thesis using le_bytes_le_int [of "sub_bytes k n s"] le_int_range [of "sub_bytes k n s"] l by simp
  qed
  show "k + 1 \<le> length s \<Longrightarrow> enc8 (dec8 s k) = sub_bytes k 1 s"
    using * [of 1] by (simp add: enc8_def dec8_def uint_word_of_int)
  show "k + 2 \<le> length s \<Longrightarrow> enc16 (dec16 s k) = sub_bytes k 2 s"
    using * [of 2] by (simp add: enc16_def dec16_def uint_word_of_int)
  show "k + 4 \<le> length s \<Longrightarrow> enc32 (dec32 s k) = sub_bytes k 4 s"
    using * [of 4] by (simp add: enc32_def dec32_def uint_word_of_int)
  show "k + 8 \<le> length s \<Longrightarrow> enc64 (dec64 s k) = sub_bytes k 8 s"
    using * [of 8] by (simp add: enc64_def dec64_def uint_word_of_int)
qed

section \<open>A sequence of writes at ascending offsets\<close>

abbreviation write_all :: "(nat \<times> string) list \<Rightarrow> string \<Rightarrow> string" where
  "write_all \<equiv> fold (\<lambda>(k, bs). copy_at k bs)"

abbreviation ascending_writes :: "(nat \<times> string) list \<Rightarrow> bool" where
  "ascending_writes \<equiv> sorted_wrt (\<lambda>(k, bs) (j, cs). k + length bs \<le> j)"

lemma length_write_all [simp]: "length (write_all ws buf) = length buf"
  by (induction ws arbitrary: buf) auto

lemma write_all_before:
  "\<forall>(j, cs) \<in> set ws. k + n \<le> j \<Longrightarrow> sub_bytes k n (write_all ws buf) = sub_bytes k n buf"
  by (induction ws arbitrary: buf) (auto simp: sub_copy_before)

lemma write_all_read:
  assumes "ascending_writes ws" and "(k, bs) \<in> set ws" and "k + length bs \<le> length buf"
  shows "sub_bytes k (length bs) (write_all ws buf) = bs"
  using assms
proof (induction ws arbitrary: buf)
  case (Cons w ws)
  show ?case
  proof (cases "(k, bs) \<in> set ws")
    case True
    with Cons show ?thesis by (cases w) auto
  next
    case False
    with Cons.prems have w: "w = (k, bs)" by auto
    with Cons.prems(1) have "\<forall>(j, cs) \<in> set ws. k + length bs \<le> j" by auto
    then show ?thesis using w write_all_before sub_copy_same [OF Cons.prems(3)] by simp
  qed
qed simp

lemma dec_write_all:
  assumes "ascending_writes ws"
  shows "(k, enc8 a) \<in> set ws \<Longrightarrow> k + 1 \<le> length buf \<Longrightarrow> dec8 (write_all ws buf) k = a"
    and "(k, enc16 b) \<in> set ws \<Longrightarrow> k + 2 \<le> length buf \<Longrightarrow> dec16 (write_all ws buf) k = b"
    and "(k, enc32 c) \<in> set ws \<Longrightarrow> k + 4 \<le> length buf \<Longrightarrow> dec32 (write_all ws buf) k = c"
    and "(k, enc64 d) \<in> set ws \<Longrightarrow> k + 8 \<le> length buf \<Longrightarrow> dec64 (write_all ws buf) k = d"
  using write_all_read [OF assms, of k "enc8 a" buf] write_all_read [OF assms, of k "enc16 b" buf]
    write_all_read [OF assms, of k "enc32 c" buf] write_all_read [OF assms, of k "enc64 d" buf]
  by (simp_all add: dec_sub)

end
