(* ===== verification/Mail_Index.thy ===== *)
theory Mail_Index
  imports Go_Binary "HOL-Library.Multiset"
begin

text \<open>
  Package \<^verbatim>\<open>internal/storage/mailindex\<close>, the base index file: the 120-byte header
  (\<^verbatim>\<open>header.go\<close>), the extension table and the record layout it gives (\<^verbatim>\<open>ext.go\<close>), the records
  (\<^verbatim>\<open>record.go\<close>), reading a whole file (\<^verbatim>\<open>index.go\<close>) and the bytes a rewrite produces (\<^verbatim>\<open>sync.go\<close>).
  Integers keep their width; a slice out of range is the error \<open>Panic\<close>.  \<^verbatim>\<open>sort.Slice\<close> is not
  stable: it is an argument \<open>srt\<close>, of which \<open>ext_sorts\<close> says what the library documents.
\<close>

section \<open>Errors and header\<close>

datatype mi_error =
    ErrShortRead | ErrMajorMismatch | ErrEndian | ErrCorrupted | ErrUnknownExtension | ErrUnknownTxType
  | ErrIO io_error | Panic

definition MajorVersion :: uint8 where "MajorVersion = 7"
definition MinorVersion :: uint8 where "MinorVersion = 3"
definition HeaderMinSize :: nat where "HeaderMinSize = 120"
definition CompatLittleEndian :: uint8 where "CompatLittleEndian = 1"

record Header =
  hd_MajorVersion :: uint8
  hd_MinorVersion :: uint8
  hd_BaseHeaderSize :: uint16
  hd_HeaderSize :: uint32
  hd_RecordSize :: uint32
  hd_CompatFlags :: uint8
  hd_IndexID :: uint32
  hd_Flags :: uint32
  hd_UIDValidity :: uint32
  hd_NextUID :: uint32
  hd_MessagesCount :: uint32
  hd_UnusedOldRecentMessagesCount :: uint32
  hd_SeenMessagesCount :: uint32
  hd_DeletedMessagesCount :: uint32
  hd_FirstRecentUID :: uint32
  hd_FirstUnseenUIDLowwater :: uint32
  hd_FirstDeletedUIDLowwater :: uint32
  hd_LogFileSeq :: uint32
  hd_LogFileTailOffset :: uint32
  hd_LogFileHeadOffset :: uint32
  hd_UnusedOldSyncSizePart1 :: uint32
  hd_Log2RotateTime :: uint32
  hd_LastTempFileScan :: uint32
  hd_DayStamp :: uint32
  hd_DayFirstUID :: "uint32 list"

definition NewHeader :: "uint32 \<Rightarrow> Header" where
  "NewHeader indexID =
    \<lparr> hd_MajorVersion = MajorVersion, hd_MinorVersion = MinorVersion,
      hd_BaseHeaderSize = of_nat HeaderMinSize, hd_HeaderSize = of_nat HeaderMinSize, hd_RecordSize = 5,
      hd_CompatFlags = CompatLittleEndian, hd_IndexID = indexID, hd_Flags = 0, hd_UIDValidity = 0, hd_NextUID = 1,
      hd_MessagesCount = 0, hd_UnusedOldRecentMessagesCount = 0, hd_SeenMessagesCount = 0,
      hd_DeletedMessagesCount = 0, hd_FirstRecentUID = 0, hd_FirstUnseenUIDLowwater = 0,
      hd_FirstDeletedUIDLowwater = 0, hd_LogFileSeq = 0, hd_LogFileTailOffset = 0, hd_LogFileHeadOffset = 0,
      hd_UnusedOldSyncSizePart1 = 0, hd_Log2RotateTime = 0, hd_LastTempFileScan = 0, hd_DayStamp = 0,
      hd_DayFirstUID = replicate 8 0 \<rparr>"

text \<open>The writes of \<^verbatim>\<open>encodeInto\<close>, in its order; the array \<^verbatim>\<open>DayFirstUID\<close> last.\<close>

definition header_writes :: "Header \<Rightarrow> (nat \<times> string) list" where
  "header_writes h =
    [(0, enc8 (hd_MajorVersion h)), (1, enc8 (hd_MinorVersion h)), (2, enc16 (hd_BaseHeaderSize h)),
     (4, enc32 (hd_HeaderSize h)), (8, enc32 (hd_RecordSize h)), (12, enc8 (hd_CompatFlags h)),
     (16, enc32 (hd_IndexID h)), (20, enc32 (hd_Flags h)), (24, enc32 (hd_UIDValidity h)),
     (28, enc32 (hd_NextUID h)), (32, enc32 (hd_MessagesCount h)),
     (36, enc32 (hd_UnusedOldRecentMessagesCount h)), (40, enc32 (hd_SeenMessagesCount h)),
     (44, enc32 (hd_DeletedMessagesCount h)), (48, enc32 (hd_FirstRecentUID h)),
     (52, enc32 (hd_FirstUnseenUIDLowwater h)), (56, enc32 (hd_FirstDeletedUIDLowwater h)),
     (60, enc32 (hd_LogFileSeq h)), (64, enc32 (hd_LogFileTailOffset h)),
     (68, enc32 (hd_LogFileHeadOffset h)), (72, enc32 (hd_UnusedOldSyncSizePart1 h)),
     (76, enc32 (hd_Log2RotateTime h)), (80, enc32 (hd_LastTempFileScan h)), (84, enc32 (hd_DayStamp h))] @
     map (\<lambda>i. (88 + i * 4, enc32 (hd_DayFirstUID h ! i))) [0..<8]"

definition Header_encodeInto :: "Header \<Rightarrow> string \<Rightarrow> string" where
  "Header_encodeInto h buf = fold (\<lambda>(k, bs). copy_at k bs) (header_writes h) buf"

definition Header_EncodeBytes :: "Header \<Rightarrow> string" where
  "Header_EncodeBytes h = Header_encodeInto h (zeros HeaderMinSize)"

definition Header_Encode :: "Header \<Rightarrow> mi_error + string" where
  "Header_Encode h =
    (if hd_CompatFlags h AND CompatLittleEndian = 0 then Inl ErrEndian else Inr (Header_EncodeBytes h))"

definition DecodeHeaderBytes :: "string \<Rightarrow> mi_error + Header" where
  "DecodeHeaderBytes buf =
    (if length buf < HeaderMinSize then Inl ErrShortRead
     else if dec8 buf 0 \<noteq> MajorVersion then Inl ErrMajorMismatch
     else if dec8 buf 12 AND CompatLittleEndian = 0 then Inl ErrEndian
     else Inr
       \<lparr> hd_MajorVersion = dec8 buf 0, hd_MinorVersion = dec8 buf 1, hd_BaseHeaderSize = dec16 buf 2,
         hd_HeaderSize = dec32 buf 4, hd_RecordSize = dec32 buf 8, hd_CompatFlags = dec8 buf 12,
         hd_IndexID = dec32 buf 16, hd_Flags = dec32 buf 20, hd_UIDValidity = dec32 buf 24,
         hd_NextUID = dec32 buf 28, hd_MessagesCount = dec32 buf 32,
         hd_UnusedOldRecentMessagesCount = dec32 buf 36, hd_SeenMessagesCount = dec32 buf 40,
         hd_DeletedMessagesCount = dec32 buf 44, hd_FirstRecentUID = dec32 buf 48,
         hd_FirstUnseenUIDLowwater = dec32 buf 52, hd_FirstDeletedUIDLowwater = dec32 buf 56,
         hd_LogFileSeq = dec32 buf 60, hd_LogFileTailOffset = dec32 buf 64,
         hd_LogFileHeadOffset = dec32 buf 68, hd_UnusedOldSyncSizePart1 = dec32 buf 72,
         hd_Log2RotateTime = dec32 buf 76, hd_LastTempFileScan = dec32 buf 80, hd_DayStamp = dec32 buf 84,
         hd_DayFirstUID = map (\<lambda>i. dec32 buf (88 + i * 4)) [0..<8] \<rparr>)"

definition DecodeHeader :: "string \<Rightarrow> mi_error + Header" where
  "DecodeHeader r =
    (case ReadFull HeaderMinSize r of
       Inl e \<Rightarrow> Inl ErrShortRead
     | Inr (buf, _) \<Rightarrow> DecodeHeaderBytes buf)"

definition HeaderSizeAlign :: "uint32 \<Rightarrow> uint32" where
  "HeaderSizeAlign sz = (sz + 7) AND NOT 7"

section \<open>Extensions and the record layout\<close>

definition ExtNameMaxLength :: nat where "ExtNameMaxLength = 64"
definition RecordMinSize :: uint32 where "RecordMinSize = 5"

record Extension =
  ext_Name :: string
  ext_HdrSize :: uint32
  ext_RecordSize :: uint16
  ext_RecordAlign :: uint16
  ext_ResetID :: uint32
  ext_RecordOffset :: uint16
  ext_HdrData :: string

record RecordLayout =
  lay_RecordSize :: uint32
  lay_Extensions :: "Extension list"

text \<open>The checks \<^verbatim>\<open>ComputeRecordLayout\<close> makes of one extension before it lays anything out.\<close>

definition ext_valid :: "Extension \<Rightarrow> bool" where
  "ext_valid e \<longleftrightarrow>
     ext_Name e \<noteq> [] \<and> length (ext_Name e) \<le> ExtNameMaxLength \<and>
     \<not> (ext_RecordAlign e = 0 \<and> ext_RecordSize e \<noteq> 0) \<and>
     \<not> (ext_RecordAlign e > 8 \<or>
        ext_RecordAlign e \<noteq> 0 \<and> ext_RecordAlign e AND (ext_RecordAlign e - 1) \<noteq> 0) \<and>
     of_nat (length (ext_HdrData e)) = ext_HdrSize e"

text \<open>Go compares strings byte by byte.\<close>

fun str_less :: "string \<Rightarrow> string \<Rightarrow> bool" where
  "str_less s [] = False"
| "str_less [] (d # t) = True"
| "str_less (c # s) (d # t) =
    ((of_char c :: nat) < of_char d \<or> c = d \<and> str_less s t)"

definition align_less :: "Extension \<Rightarrow> Extension \<Rightarrow> bool" where
  "align_less a b \<longleftrightarrow>
    (if ext_RecordAlign a \<noteq> ext_RecordAlign b then ext_RecordAlign a > ext_RecordAlign b
     else str_less (ext_Name a) (ext_Name b))"

definition offset_less :: "Extension \<Rightarrow> Extension \<Rightarrow> bool" where
  "offset_less a b \<longleftrightarrow> ext_RecordOffset a < ext_RecordOffset b"

type_synonym ext_sort = "(Extension \<Rightarrow> Extension \<Rightarrow> bool) \<Rightarrow> Extension list \<Rightarrow> Extension list"

definition align_pos :: "uint32 \<Rightarrow> Extension \<Rightarrow> uint32" where
  "align_pos pos e =
    (if ext_RecordAlign e > 1 then
       let rem = pos mod ucast (ext_RecordAlign e)
       in if rem \<noteq> 0 then pos + (ucast (ext_RecordAlign e) - rem) else pos
     else pos)"

fun assign_offsets :: "uint32 \<Rightarrow> Extension list \<Rightarrow> mi_error + uint32 \<times> Extension list" where
  "assign_offsets pos [] = Inr (pos, [])"
| "assign_offsets pos (e # es) =
    (if ext_RecordSize e = 0 then
       (case assign_offsets pos es of
          Inl x \<Rightarrow> Inl x
        | Inr (end, out) \<Rightarrow> Inr (end, e \<lparr> ext_RecordOffset := 0 \<rparr> # out))
     else
       let pos = align_pos pos e
       in if pos > 0xFFFF then Inl ErrCorrupted
          else (case assign_offsets (pos + ucast (ext_RecordSize e)) es of
                  Inl x \<Rightarrow> Inl x
                | Inr (end, out) \<Rightarrow> Inr (end, e \<lparr> ext_RecordOffset := ucast pos \<rparr> # out)))"

definition ComputeRecordLayout :: "ext_sort \<Rightarrow> Extension list \<Rightarrow> mi_error + RecordLayout" where
  "ComputeRecordLayout srt exts =
    (if \<not> list_all ext_valid exts then Inl ErrCorrupted
     else
       (case assign_offsets RecordMinSize (srt align_less exts) of
          Inl x \<Rightarrow> Inl x
        | Inr (pos, out) \<Rightarrow>
            Inr \<lparr> lay_RecordSize = pos, lay_Extensions = srt offset_less out \<rparr>))"

section \<open>The extension table\<close>

definition extHeaderEntrySize :: "Extension \<Rightarrow> uint32" where
  "extHeaderEntrySize e =
     HeaderSizeAlign (HeaderSizeAlign (16 + of_nat (length (ext_Name e))) + ext_HdrSize e)"

text \<open>One entry written at \<open>pos\<close>: the buffer and the position after it.\<close>

definition encode_ext_entry :: "Extension \<Rightarrow> uint32 \<Rightarrow> string \<Rightarrow> mi_error + string \<times> uint32" where
  "encode_ext_entry e start buf =
    (let p = unat start;
         pos1 = start + 16;
         pos2 = pos1 + of_nat (length (ext_Name e));
         pos3 = start + HeaderSizeAlign (pos2 - start);
         pos4 = (if ext_HdrSize e > 0 then pos3 + ext_HdrSize e else pos3);
         pos5 = start + HeaderSizeAlign (pos4 - start);
         fixed = fold (\<lambda>(k, bs). copy_at (p + k) bs)
           [(0, enc32 (ext_HdrSize e)), (4, enc32 (ext_ResetID e)), (8, enc16 (ext_RecordOffset e)),
            (10, enc16 (ext_RecordSize e)), (12, enc16 (ext_RecordAlign e)),
            (14, enc16 (of_nat (length (ext_Name e))))] buf;
         named = copy_at (unat pos1) (ext_Name e) fixed
     in if length buf < p + 16 \<or> length buf < unat pos1 then Inl Panic
        else if ext_HdrSize e > 0 then
          (if length buf < unat pos3 then Inl Panic
           else Inr (copy_at (unat pos3) (ext_HdrData e) named, pos5))
        else Inr (named, pos5))"

fun encode_ext_loop :: "Extension list \<Rightarrow> uint32 \<Rightarrow> string \<Rightarrow> mi_error + string" where
  "encode_ext_loop [] pos buf = Inr buf"
| "encode_ext_loop (e # es) pos buf =
    (case encode_ext_entry e pos buf of
       Inl x \<Rightarrow> Inl x
     | Inr (buf', pos') \<Rightarrow> encode_ext_loop es pos' buf')"

definition EncodeExtHeaders :: "Extension list \<Rightarrow> mi_error + string" where
  "EncodeExtHeaders exts =
    (let total = (\<Sum>e \<leftarrow> exts. extHeaderEntrySize e)
     in if total = 0 then Inr [] else encode_ext_loop exts 0 (zeros (unat total)))"

text \<open>\<^verbatim>\<open>b[lo:hi]\<close>, which panics unless \<open>lo \<le> hi \<le> len(b)\<close>.\<close>

definition go_slice :: "string \<Rightarrow> uint32 \<Rightarrow> uint32 \<Rightarrow> mi_error + string" where
  "go_slice b lo hi =
    (if unat lo \<le> unat hi \<and> unat hi \<le> length b then Inr (sub_bytes (unat lo) (unat hi - unat lo) b)
     else Inl Panic)"

text \<open>One round of the loop of \<^verbatim>\<open>DecodeExtHeaders\<close>: the extension at \<open>start\<close> and the next position.\<close>

definition decode_ext_entry :: "string \<Rightarrow> uint32 \<Rightarrow> mi_error + Extension \<times> uint32" where
  "decode_ext_entry b start =
    (let n = of_nat (length b); p = unat start; nameSize = ucast (dec16 b (p + 14)); pos1 = start + 16;
         pos2 = pos1 + nameSize; pos3 = start + HeaderSizeAlign (pos2 - start); hdrSize = dec32 b p;
         done = (\<lambda>name data pos.
           (\<lparr> ext_Name = name, ext_HdrSize = hdrSize, ext_RecordSize = dec16 b (p + 10),
              ext_RecordAlign = dec16 b (p + 12), ext_ResetID = dec32 b (p + 4),
              ext_RecordOffset = dec16 b (p + 8), ext_HdrData = data \<rparr>,
            start + HeaderSizeAlign (pos - start)))
     in if pos1 > n then Inl ErrShortRead
        else if length b < p + 16 then Inl Panic
        else if nameSize = 0 \<or> nameSize > of_nat ExtNameMaxLength then Inl ErrCorrupted
        else if pos2 > n then Inl ErrShortRead
        else
          (case go_slice b pos1 pos2 of
             Inl x \<Rightarrow> Inl x
           | Inr name \<Rightarrow>
               if hdrSize > 0 then
                 (if pos3 + hdrSize > n then Inl ErrShortRead
                  else (case go_slice b pos3 (pos3 + hdrSize) of
                          Inl x \<Rightarrow> Inl x
                        | Inr data \<Rightarrow> Inr (done name data (pos3 + hdrSize))))
               else Inr (done name [] pos3)))"

partial_function (option) decode_ext_loop ::
  "string \<Rightarrow> uint32 \<Rightarrow> Extension list \<Rightarrow> (mi_error + Extension list) option" where
  "decode_ext_loop b pos out =
    (if pos < of_nat (length b) then
       (case decode_ext_entry b pos of
          Inl x \<Rightarrow> Some (Inl x)
        | Inr (ext, pos') \<Rightarrow> decode_ext_loop b pos' (out @ [ext]))
     else Some (Inr out))"

definition DecodeExtHeaders :: "string \<Rightarrow> (mi_error + Extension list) option" where
  "DecodeExtHeaders b = (if b = [] then Some (Inr []) else decode_ext_loop b 0 [])"

section \<open>Records\<close>

record Record =
  rec_UID :: uint32
  rec_Flags :: uint8
  rec_Ext :: "(string, string) gomap"

fun encode_exts :: "Extension list \<Rightarrow> (string, string) gomap \<Rightarrow> string \<Rightarrow> mi_error + string" where
  "encode_exts [] m buf = Inr buf"
| "encode_exts (e # es) m buf =
    (if ext_RecordSize e = 0 then encode_exts es m buf
     else
       (case map_of m (ext_Name e) of
          None \<Rightarrow> encode_exts es m buf
        | Some data \<Rightarrow>
            if data = [] then encode_exts es m buf
            else if of_nat (length data) \<noteq> ext_RecordSize e then Inl ErrCorrupted
            else
              let lo = unat (ext_RecordOffset e); hi = unat (ext_RecordOffset e + ext_RecordSize e)
              in if lo \<le> hi \<and> hi \<le> length buf
                 then encode_exts es m (copy_at lo (take (hi - lo) data) buf)
                 else Inl Panic))"

definition EncodeRecord :: "nat \<Rightarrow> RecordLayout \<Rightarrow> Record \<Rightarrow> mi_error + string" where
  "EncodeRecord n layout rec =
    (if of_nat n \<noteq> lay_RecordSize layout then Inl ErrCorrupted
     else if n < 5 then Inl Panic
     else encode_exts (lay_Extensions layout) (rec_Ext rec)
            (copy_at 4 (enc8 (rec_Flags rec)) (copy_at 0 (enc32 (rec_UID rec)) (zeros n))))"

fun decode_exts :: "Extension list \<Rightarrow> string \<Rightarrow> (string, string) gomap \<Rightarrow> mi_error + (string, string) gomap" where
  "decode_exts [] buf m = Inr m"
| "decode_exts (e # es) buf m =
    (if ext_RecordSize e = 0 then decode_exts es buf m
     else
       let lo = unat (ext_RecordOffset e); hi = unat (ext_RecordOffset e + ext_RecordSize e)
       in if lo \<le> hi \<and> hi \<le> length buf
          then decode_exts es buf (AList.update (ext_Name e) (sub_bytes lo (hi - lo) buf) m)
          else Inl Panic)"

definition DecodeRecord :: "string \<Rightarrow> RecordLayout \<Rightarrow> mi_error + Record" where
  "DecodeRecord buf layout =
    (if of_nat (length buf) \<noteq> lay_RecordSize layout then Inl ErrCorrupted
     else if length buf < 5 then Inl Panic
     else
       (case decode_exts (lay_Extensions layout) buf [] of
          Inl x \<Rightarrow> Inl x
        | Inr m \<Rightarrow> Inr \<lparr> rec_UID = dec32 buf 0, rec_Flags = dec8 buf 4, rec_Ext = m \<rparr>))"

section \<open>Whole files\<close>

record File =
  fl_Header :: Header
  fl_Extensions :: "Extension list"
  fl_Records :: "Record list"
  fl_Layout :: RecordLayout

definition layoutOffsetsMatch :: "Extension list \<Rightarrow> Extension list \<Rightarrow> bool" where
  "layoutOffsetsMatch onDisk computed \<longleftrightarrow>
     length onDisk = length computed \<and>
     (let byName = fold (\<lambda>e. AList.update (ext_Name e) e) computed []
      in list_all (\<lambda>e. case map_of byName (ext_Name e) of
                         None \<Rightarrow> False
                       | Some c \<Rightarrow> ext_RecordOffset c = ext_RecordOffset e \<and>
                                   ext_RecordSize c = ext_RecordSize e) onDisk)"

text \<open>The record loop: whole records until the end of the input, which must not cut one.\<close>

function read_records :: "nat \<Rightarrow> RecordLayout \<Rightarrow> string \<Rightarrow> mi_error + Record list" where
  "read_records n layout r =
    (if n = 0 then Inr []
     else
       (case ReadFull n r of
          Inl EOF \<Rightarrow> Inr []
        | Inl UnexpectedEOF \<Rightarrow> Inl ErrShortRead
        | Inr (recBuf, r') \<Rightarrow>
            (case DecodeRecord recBuf layout of
               Inl x \<Rightarrow> Inl x
             | Inr rec \<Rightarrow>
                 (case read_records n layout r' of Inl x \<Rightarrow> Inl x | Inr rs \<Rightarrow> Inr (rec # rs)))))"
  by pat_completeness auto
termination
  by (relation "measure (\<lambda>(n, layout, r). length r)") (auto simp: ReadFull_def split: if_splits)

declare read_records.simps [simp del]

text \<open>What \<^verbatim>\<open>Read\<close> makes of the table, once the header and the extensions are parsed.\<close>

definition read_layout :: "ext_sort \<Rightarrow> Header \<Rightarrow> Extension list \<Rightarrow> mi_error + RecordLayout" where
  "read_layout srt hdr exts =
    (case ComputeRecordLayout srt exts of
       Inl x \<Rightarrow> Inl x
     | Inr layout \<Rightarrow>
         if \<not> layoutOffsetsMatch exts (lay_Extensions layout)
         then Inr \<lparr> lay_RecordSize = hd_RecordSize hdr, lay_Extensions = exts \<rparr>
         else if lay_RecordSize layout \<noteq> hd_RecordSize hdr then Inl ErrCorrupted
         else Inr layout)"

definition read_body :: "ext_sort \<Rightarrow> Header \<Rightarrow> Extension list \<Rightarrow> string \<Rightarrow> mi_error + File" where
  "read_body srt hdr exts r =
    (if hd_RecordSize hdr = 0 then Inl ErrCorrupted
     else
       (case read_layout srt hdr exts of
          Inl x \<Rightarrow> Inl x
        | Inr layout \<Rightarrow>
            (case read_records (unat (hd_RecordSize hdr)) layout r of
               Inl x \<Rightarrow> Inl x
             | Inr recs \<Rightarrow>
                 Inr \<lparr> fl_Header = hdr, fl_Extensions = exts, fl_Records = recs, fl_Layout = layout \<rparr>)))"

definition read_file :: "ext_sort \<Rightarrow> string \<Rightarrow> (mi_error + File) option" where
  "read_file srt r =
    (case ReadFull HeaderMinSize r of
       Inl _ \<Rightarrow> Some (Inl ErrShortRead)
     | Inr (hdrBuf, r1) \<Rightarrow>
         (case DecodeHeaderBytes hdrBuf of
            Inl x \<Rightarrow> Some (Inl x)
          | Inr hdr \<Rightarrow>
              if hd_HeaderSize hdr < ucast (hd_BaseHeaderSize hdr) then Some (Inl ErrCorrupted)
              else
                let extLen = hd_HeaderSize hdr - ucast (hd_BaseHeaderSize hdr)
                in if extLen > 0 then
                     (case ReadFull (unat extLen) r1 of
                        Inl x \<Rightarrow> Some (Inl (ErrIO x))
                      | Inr (extBuf, r2) \<Rightarrow>
                          (case DecodeExtHeaders extBuf of
                             None \<Rightarrow> None
                           | Some (Inl x) \<Rightarrow> Some (Inl x)
                           | Some (Inr exts) \<Rightarrow> Some (read_body srt hdr exts r2)))
                   else Some (read_body srt hdr [] r1)))"

definition NewFile :: "ext_sort \<Rightarrow> uint32 \<Rightarrow> Extension list \<Rightarrow> mi_error + File" where
  "NewFile srt indexID exts =
    (case ComputeRecordLayout srt exts of
       Inl x \<Rightarrow> Inl x
     | Inr layout \<Rightarrow>
         (case EncodeExtHeaders (lay_Extensions layout) of
            Inl x \<Rightarrow> Inl x
          | Inr extBytes \<Rightarrow>
              Inr \<lparr> fl_Header = (NewHeader indexID)
                      \<lparr> hd_RecordSize := lay_RecordSize layout,
                        hd_HeaderSize := of_nat HeaderMinSize + of_nat (length extBytes) \<rparr>,
                    fl_Extensions = lay_Extensions layout, fl_Records = [], fl_Layout = layout \<rparr>))"

definition addExtension ::
  "ext_sort \<Rightarrow> string \<Rightarrow> string \<Rightarrow> uint16 \<Rightarrow> uint16 \<Rightarrow> uint32 \<Rightarrow> File \<Rightarrow> mi_error + File" where
  "addExtension srt name hdrData recordSize recordAlign resetID f =
    (if \<exists>e \<in> set (fl_Extensions f). ext_Name e = name then Inr f
     else
       let exts = fl_Extensions f @
             [\<lparr> ext_Name = name, ext_HdrSize = of_nat (length hdrData), ext_RecordSize = recordSize,
                ext_RecordAlign = recordAlign, ext_ResetID = resetID, ext_RecordOffset = 0,
                ext_HdrData = hdrData \<rparr>]
       in (case ComputeRecordLayout srt exts of
             Inl x \<Rightarrow> Inl x
           | Inr layout \<Rightarrow>
               (case EncodeExtHeaders (lay_Extensions layout) of
                  Inl x \<Rightarrow> Inl x
                | Inr extBytes \<Rightarrow>
                    Inr (f \<lparr> fl_Extensions := lay_Extensions layout, fl_Layout := layout,
                             fl_Header := (fl_Header f)
                               \<lparr> hd_RecordSize := lay_RecordSize layout,
                                 hd_HeaderSize := of_nat HeaderMinSize + of_nat (length extBytes) \<rparr> \<rparr>))))"

definition AddHeaderExtension :: "ext_sort \<Rightarrow> string \<Rightarrow> string \<Rightarrow> uint16 \<Rightarrow> uint32 \<Rightarrow> File \<Rightarrow> mi_error + File" where
  "AddHeaderExtension srt name hdrData recordAlign resetID f =
     addExtension srt name hdrData 0 recordAlign resetID f"

definition AddRecordExtension ::
  "ext_sort \<Rightarrow> string \<Rightarrow> string \<Rightarrow> uint16 \<Rightarrow> uint16 \<Rightarrow> uint32 \<Rightarrow> File \<Rightarrow> mi_error + File" where
  "AddRecordExtension srt name hdrData recordSize recordAlign resetID f =
     addExtension srt name hdrData recordSize recordAlign resetID f"

text \<open>The bytes \<^verbatim>\<open>Recreate\<close> writes to its temporary file, after its three checks.\<close>

fun encode_records :: "RecordLayout \<Rightarrow> Record list \<Rightarrow> mi_error + string" where
  "encode_records layout [] = Inr []"
| "encode_records layout (r # rs) =
    (case EncodeRecord (unat (lay_RecordSize layout)) layout r of
       Inl x \<Rightarrow> Inl x
     | Inr buf \<Rightarrow> (case encode_records layout rs of Inl x \<Rightarrow> Inl x | Inr bs \<Rightarrow> Inr (buf @ bs)))"

definition recreate_bytes :: "ext_sort \<Rightarrow> Header \<Rightarrow> Extension list \<Rightarrow> Record list \<Rightarrow> mi_error + string" where
  "recreate_bytes srt hdr exts recs =
    (case ComputeRecordLayout srt exts of
       Inl x \<Rightarrow> Inl x
     | Inr layout \<Rightarrow>
         if lay_RecordSize layout \<noteq> hd_RecordSize hdr then Inl ErrCorrupted
         else
           (case EncodeExtHeaders (lay_Extensions layout) of
              Inl x \<Rightarrow> Inl x
            | Inr extBytes \<Rightarrow>
                if hd_HeaderSize hdr \<noteq> of_nat HeaderMinSize + of_nat (length extBytes) then Inl ErrCorrupted
                else
                  (case (if lay_RecordSize layout > 0 \<and> recs \<noteq> [] then encode_records layout recs else Inr []) of
                     Inl x \<Rightarrow> Inl x
                   | Inr body \<Rightarrow> Inr (Header_EncodeBytes hdr @ extBytes @ body))))"


unbundle bit_operations_syntax

section \<open>The header\<close>

lemma header_writes_ascending: "ascending_writes (header_writes h)"
  by (simp add: header_writes_def upt_conv_Cons)

lemma length_Header_EncodeBytes [simp]: "length (Header_EncodeBytes h) = HeaderMinSize"
  by (simp add: Header_EncodeBytes_def Header_encodeInto_def)

lemma header_read:
  "(k, enc8 a) \<in> set (header_writes h) \<Longrightarrow> k + 1 \<le> HeaderMinSize \<Longrightarrow> dec8 (Header_EncodeBytes h) k = a"
  "(k, enc16 b) \<in> set (header_writes h) \<Longrightarrow> k + 2 \<le> HeaderMinSize \<Longrightarrow> dec16 (Header_EncodeBytes h) k = b"
  "(k, enc32 c) \<in> set (header_writes h) \<Longrightarrow> k + 4 \<le> HeaderMinSize \<Longrightarrow> dec32 (Header_EncodeBytes h) k = c"
  unfolding Header_EncodeBytes_def Header_encodeInto_def
  by (rule dec_write_all [OF header_writes_ascending]; simp)+

abbreviation header_wf :: "Header \<Rightarrow> bool" where
  "header_wf h \<equiv> hd_MajorVersion h = MajorVersion \<and> hd_CompatFlags h AND CompatLittleEndian \<noteq> 0 \<and>
     length (hd_DayFirstUID h) = 8"

lemma day_first_uid_read:
  assumes "length (hd_DayFirstUID h) = 8"
  shows "map (\<lambda>i. dec32 (Header_EncodeBytes h) (88 + i * 4)) [0..<8] = hd_DayFirstUID h"
proof (rule nth_equalityI)
  fix i assume "i < length (map (\<lambda>i. dec32 (Header_EncodeBytes h) (88 + i * 4)) [0..<8])"
  then have i: "i < 8" by simp
  then have "(88 + i * 4, enc32 (hd_DayFirstUID h ! i)) \<in> set (header_writes h)"
    by (auto simp: header_writes_def)
  then show "map (\<lambda>i. dec32 (Header_EncodeBytes h) (88 + i * 4)) [0..<8] ! i = hd_DayFirstUID h ! i"
    using i header_read(3) [of "88 + i * 4"] by (simp add: HeaderMinSize_def)
qed (simp add: assms)

lemma header_fields:
  "dec8 (Header_EncodeBytes h) 0 = hd_MajorVersion h" "dec8 (Header_EncodeBytes h) 1 = hd_MinorVersion h"
  "dec16 (Header_EncodeBytes h) 2 = hd_BaseHeaderSize h" "dec32 (Header_EncodeBytes h) 4 = hd_HeaderSize h"
  "dec32 (Header_EncodeBytes h) 8 = hd_RecordSize h" "dec8 (Header_EncodeBytes h) 12 = hd_CompatFlags h"
  "dec32 (Header_EncodeBytes h) 16 = hd_IndexID h" "dec32 (Header_EncodeBytes h) 20 = hd_Flags h"
  "dec32 (Header_EncodeBytes h) 24 = hd_UIDValidity h" "dec32 (Header_EncodeBytes h) 28 = hd_NextUID h"
  "dec32 (Header_EncodeBytes h) 32 = hd_MessagesCount h"
  "dec32 (Header_EncodeBytes h) 36 = hd_UnusedOldRecentMessagesCount h"
  "dec32 (Header_EncodeBytes h) 40 = hd_SeenMessagesCount h"
  "dec32 (Header_EncodeBytes h) 44 = hd_DeletedMessagesCount h"
  "dec32 (Header_EncodeBytes h) 48 = hd_FirstRecentUID h"
  "dec32 (Header_EncodeBytes h) 52 = hd_FirstUnseenUIDLowwater h"
  "dec32 (Header_EncodeBytes h) 56 = hd_FirstDeletedUIDLowwater h"
  "dec32 (Header_EncodeBytes h) 60 = hd_LogFileSeq h" "dec32 (Header_EncodeBytes h) 64 = hd_LogFileTailOffset h"
  "dec32 (Header_EncodeBytes h) 68 = hd_LogFileHeadOffset h"
  "dec32 (Header_EncodeBytes h) 72 = hd_UnusedOldSyncSizePart1 h"
  "dec32 (Header_EncodeBytes h) 76 = hd_Log2RotateTime h"
  "dec32 (Header_EncodeBytes h) 80 = hd_LastTempFileScan h" "dec32 (Header_EncodeBytes h) 84 = hd_DayStamp h"
  by (rule header_read; simp add: header_writes_def HeaderMinSize_def)+

lemma header_roundtrip: "header_wf h \<Longrightarrow> DecodeHeaderBytes (Header_EncodeBytes h) = Inr h"
  unfolding DecodeHeaderBytes_def header_fields by (simp add: day_first_uid_read)


unbundle bit_operations_syntax

section \<open>Positions in a buffer below 4 GiB\<close>

definition align8 :: "nat \<Rightarrow> nat" where
  "align8 n = (n + 7) div 8 * 8"

lemma align8_ge: "n \<le> align8 n" and align8_le: "align8 n \<le> n + 7" and align8_dvd [simp]: "8 dvd align8 n"
  by (simp_all add: align8_def)

lemma unat_small: "n < 2 ^ 32 \<Longrightarrow> unat (of_nat n :: uint32) = n"
  by (simp add: unat_of_nat take_bit_nat_eq_self)

lemma of_nat_less_small: "a < 2 ^ 32 \<Longrightarrow> b < 2 ^ 32 \<Longrightarrow> (of_nat a :: uint32) < of_nat b \<longleftrightarrow> a < b"
  by (simp add: word_less_nat_alt unat_small)

lemma of_nat_eq_small: "a < 2 ^ 32 \<Longrightarrow> b < 2 ^ 32 \<Longrightarrow> (of_nat a :: uint32) = of_nat b \<longleftrightarrow> a = b"
  by (metis unat_small)

lemma and_not_mask3: "(a :: uint32) AND NOT 7 = push_bit 3 (drop_bit 3 a)"
proof -
  have "bit (a AND NOT 7) n \<longleftrightarrow> bit (push_bit 3 (drop_bit 3 a)) n" if "n < 32" for n
  proof -
    have "bit (7 :: uint32) n \<longleftrightarrow> n < 3"
      using that bit_mask_iff [of 3 n, where 'a = uint32] by (simp add: mask_eq_exp_minus_1)
    with that show ?thesis by (auto simp: bit_simps)
  qed
  then show ?thesis by (intro bit_word_eqI) simp
qed

lemma HeaderSizeAlign_of_nat: "n + 7 < 2 ^ 32 \<Longrightarrow> HeaderSizeAlign (of_nat n) = of_nat (align8 n)"
proof -
  assume n: "n + 7 < 2 ^ 32"
  then have u: "unat (of_nat (n + 7) :: uint32) = n + 7" by (rule unat_small)
  have "HeaderSizeAlign (of_nat n) = push_bit 3 (drop_bit 3 (of_nat (n + 7) :: uint32))"
    unfolding HeaderSizeAlign_def and_not_mask3 by simp
  also have "drop_bit 3 (of_nat (n + 7) :: uint32) = of_nat ((n + 7) div 8)"
  proof (rule word_unat_eq_iff [THEN iffD2])
    have "(n + 7) div 8 < 2 ^ 32" using n by linarith
    then show "unat (drop_bit 3 (of_nat (n + 7) :: uint32)) = unat (of_nat ((n + 7) div 8) :: uint32)"
      unfolding unat_drop_bit_eq unfolding u drop_bit_eq_div by (simp add: unat_small)
  qed
  finally show ?thesis by (simp add: push_bit_eq_mult align8_def)
qed


lemmas small_word = unat_small of_nat_less_small of_nat_eq_small HeaderSizeAlign_of_nat

lemma copy_zeros:
  "k = length a \<Longrightarrow> length bs \<le> n \<Longrightarrow> copy_at k bs (a @ zeros n) = (a @ bs) @ zeros (n - length bs)"
  by (simp add: copy_at_def zeros_def)

lemma zeros_split: "m \<le> n \<Longrightarrow> zeros n = zeros m @ zeros (n - m)"
  by (simp add: zeros_def replicate_add [symmetric])

lemma sub_bytes_skip: "sub_bytes (length pre + k) n (pre @ s) = sub_bytes k n s"
  by (simp add: sub_bytes_def)

lemma dec_skip:
  "dec16 (pre @ s) (length pre + k) = dec16 s k" "dec32 (pre @ s) (length pre + k) = dec32 s k"
  by (simp_all add: dec16_def dec32_def sub_bytes_skip)

section \<open>The extension table\<close>

text \<open>The bytes of one table entry.\<close>

definition entry_len :: "Extension \<Rightarrow> nat" where
  "entry_len e = align8 (align8 (16 + length (ext_Name e)) + length (ext_HdrData e))"

definition entry_fixed :: "Extension \<Rightarrow> string" where
  "entry_fixed e = enc32 (ext_HdrSize e) @ enc32 (ext_ResetID e) @ enc16 (ext_RecordOffset e) @
     enc16 (ext_RecordSize e) @ enc16 (ext_RecordAlign e) @ enc16 (of_nat (length (ext_Name e)))"

definition entry_bytes :: "Extension \<Rightarrow> string" where
  "entry_bytes e =
     entry_fixed e @ ext_Name e @ zeros (align8 (16 + length (ext_Name e)) - (16 + length (ext_Name e))) @
     ext_HdrData e @ zeros (entry_len e - (align8 (16 + length (ext_Name e)) + length (ext_HdrData e)))"

abbreviation entry_wf :: "Extension \<Rightarrow> bool" where
  "entry_wf e \<equiv> ext_Name e \<noteq> [] \<and> length (ext_Name e) \<le> 64 \<and>
     length (ext_HdrData e) < 2 ^ 32 \<and> ext_HdrSize e = of_nat (length (ext_HdrData e))"

lemma length_entry_fixed [simp]: "length (entry_fixed e) = 16"
  by (simp add: entry_fixed_def)

lemma length_entry_bytes [simp]: "length (entry_bytes e) = entry_len e"
  using align8_ge [of "16 + length (ext_Name e)"]
    align8_ge [of "align8 (16 + length (ext_Name e)) + length (ext_HdrData e)"]
  by (simp add: entry_bytes_def entry_len_def)

lemma entry_len_bounds:
  "16 + length (ext_Name e) \<le> align8 (16 + length (ext_Name e))"
  "align8 (16 + length (ext_Name e)) + length (ext_HdrData e) \<le> entry_len e"
  "entry_len e \<le> align8 (16 + length (ext_Name e)) + length (ext_HdrData e) + 7"
  unfolding entry_len_def by (rule align8_ge align8_le)+

lemma entry_len_ge: "16 \<le> entry_len e"
  using entry_len_bounds(1,2) [of e] by linarith

lemma fixed_written:
  assumes "p = length pre" and "16 \<le> n"
  shows "fold (\<lambda>(k, bs). copy_at (p + k) bs)
           [(0, enc32 (ext_HdrSize e)), (4, enc32 (ext_ResetID e)), (8, enc16 (ext_RecordOffset e)),
            (10, enc16 (ext_RecordSize e)), (12, enc16 (ext_RecordAlign e)),
            (14, enc16 (of_nat (length (ext_Name e))))] (pre @ zeros n) =
         (pre @ entry_fixed e) @ zeros (n - 16)"
  using assms by (simp add: copy_zeros entry_fixed_def del: append_assoc)


lemma copy_at_Nil [simp]: "copy_at k [] buf = buf"
  by (rule nth_equalityI) (auto simp: nth_copy_at)

lemma entry_positions:
  assumes "p + entry_len e + 7 < 2 ^ 32" and "A = align8 (16 + length (ext_Name e))"
    and "ext_HdrSize e = of_nat (length (ext_HdrData e))"
  shows "HeaderSizeAlign (of_nat (16 + length (ext_Name e))) = of_nat A"
    and "HeaderSizeAlign (of_nat (A + length (ext_HdrData e))) = of_nat (entry_len e)"
proof -
  note b = entry_len_bounds [of e]
  show "HeaderSizeAlign (of_nat (16 + length (ext_Name e))) = of_nat A"
    using assms b by (intro HeaderSizeAlign_of_nat [THEN trans]) simp_all
  show "HeaderSizeAlign (of_nat (A + length (ext_HdrData e))) = of_nat (entry_len e)"
    using assms b unfolding entry_len_def by (intro HeaderSizeAlign_of_nat [THEN trans]) simp_all
qed

lemma encode_ext_entry_bytes:
  assumes p: "p = length pre" "p + entry_len e + 7 < 2 ^ 32" and wf: "entry_wf e"
  shows "encode_ext_entry e (of_nat p) (pre @ zeros (entry_len e + k)) =
           Inr ((pre @ entry_bytes e) @ zeros k, of_nat (p + entry_len e))"
proof -
  define N where "N = length (ext_Name e)"
  define D where "D = length (ext_HdrData e)"
  define A where "A = align8 (16 + N)"
  let ?s = "of_nat p :: uint32"
  have b: "16 + N \<le> A" "A + D \<le> entry_len e" "16 \<le> entry_len e"
    using entry_len_bounds [of e] entry_len_ge by (simp_all add: N_def A_def D_def)
  have hs: "ext_HdrSize e = of_nat D" using wf by (simp add: D_def)
  note pos = entry_positions [OF p(2) A_def [unfolded N_def], folded N_def D_def, OF wf [THEN conjunct2, THEN conjunct2, THEN conjunct2, folded D_def]]
  have a3: "?s + HeaderSizeAlign (?s + 16 + of_nat N - ?s) = of_nat (p + A)"
    using pos(1) by (simp add: algebra_simps)
  have a5: "?s + HeaderSizeAlign (of_nat (p + A) + of_nat D - ?s) = of_nat (p + entry_len e)"
    using pos(2) by (simp add: algebra_simps)
  have u: "unat ?s = p" "unat (?s + 16) = p + 16" "unat (of_nat (p + A) :: uint32) = p + A"
    using p(2) b unat_small [of p] unat_small [of "p + 16"] unat_small [of "p + A"] by simp_all
  have d0: "ext_HdrSize e > 0 \<longleftrightarrow> D > 0"
    using hs p(2) b of_nat_less_small [of 0 D] by simp
  let ?n = "entry_len e + k"
  define named where "named = copy_at (p + 16) (ext_Name e) ((pre @ entry_fixed e) @ zeros (?n - 16))"
  have n1: "named = ((pre @ entry_fixed e) @ ext_Name e) @ zeros (?n - 16 - N)"
    unfolding named_def using p b by (intro copy_zeros [THEN trans]) (simp_all add: N_def)
  also have "\<dots> = (((pre @ entry_fixed e) @ ext_Name e) @ zeros (A - (16 + N))) @ zeros (?n - A)"
    using b zeros_split [of "A - (16 + N)" "?n - 16 - N"] by (simp add: algebra_simps)
  finally have named: "named = \<dots>" .
  have data: "copy_at (p + A) (ext_HdrData e) named = (pre @ entry_bytes e) @ zeros k"
  proof -
    have "copy_at (p + A) (ext_HdrData e) named =
        ((((pre @ entry_fixed e) @ ext_Name e) @ zeros (A - (16 + N))) @ ext_HdrData e) @ zeros (?n - A - D)"
      unfolding named using p b by (intro copy_zeros [THEN trans]) (simp_all add: N_def D_def)
    moreover have "zeros (?n - A - D) = zeros (entry_len e - (A + D)) @ zeros k"
      using b zeros_split [of "entry_len e - (A + D)" "?n - A - D"] by (simp add: algebra_simps)
    ultimately show ?thesis by (simp add: entry_bytes_def A_def N_def D_def)
  qed
  have nodata: "named = (pre @ entry_bytes e) @ zeros k" if "D = 0"
    using data that by (simp add: D_def)
  have fx: "16 \<le> ?n" using b by simp
  have len: "\<not> length (pre @ zeros ?n) < p + 16" "\<not> length (pre @ zeros ?n) < p + A"
    using b p(1) by simp_all
  have a5': "?s + HeaderSizeAlign (of_nat (p + A) - ?s) = of_nat (p + entry_len e)" if "D = 0"
    using a5 that by simp
  show ?thesis
    unfolding encode_ext_entry_def Let_def u(1) fixed_written [OF p(1) fx]
    unfolding N_def [symmetric] a3 d0
    unfolding u named_def [symmetric]
    using len data nodata a5 a5' hs by simp
qed


definition table_len :: "Extension list \<Rightarrow> nat" where
  "table_len exts = (\<Sum>e \<leftarrow> exts. entry_len e)"

lemma table_len_simps [simp]: "table_len [] = 0" "table_len (e # es) = entry_len e + table_len es"
  by (simp_all add: table_len_def)

definition table_bytes :: "Extension list \<Rightarrow> string" where
  "table_bytes exts = concat (map entry_bytes exts)"

lemma table_bytes_simps [simp]: "table_bytes [] = []" "table_bytes (e # es) = entry_bytes e @ table_bytes es"
  by (simp_all add: table_bytes_def)

lemma length_table_bytes [simp]: "length (table_bytes exts) = table_len exts"
  by (induction exts) simp_all

lemma table_len_pos: "table_len exts = 0 \<longleftrightarrow> exts = []"
proof (cases exts)
  case (Cons e es)
  with entry_len_ge [of e] show ?thesis by simp
qed simp

lemma encode_ext_loop_bytes:
  assumes "p = length pre" and "p + table_len exts + 7 < 2 ^ 32" and "list_all entry_wf exts"
  shows "encode_ext_loop exts (of_nat p) (pre @ zeros (table_len exts)) = Inr (pre @ table_bytes exts)"
  using assms
proof (induction exts arbitrary: p pre)
  case Nil
  then show ?case by (simp add: zeros_def)
next
  case (Cons e es)
  have "encode_ext_entry e (of_nat p) (pre @ zeros (entry_len e + table_len es)) =
      Inr ((pre @ entry_bytes e) @ zeros (table_len es), of_nat (p + entry_len e))"
    using Cons.prems by (intro encode_ext_entry_bytes) simp_all
  moreover have "encode_ext_loop es (of_nat (p + entry_len e)) ((pre @ entry_bytes e) @ zeros (table_len es)) =
      Inr ((pre @ entry_bytes e) @ table_bytes es)"
    using Cons.prems by (intro Cons.IH) simp_all
  ultimately show ?case by (simp del: of_nat_add append_assoc)
qed

lemma extHeaderEntrySize_len:
  assumes "entry_len e + 7 < 2 ^ 32" and "entry_wf e"
  shows "extHeaderEntrySize e = of_nat (entry_len e)"
  using entry_positions [of 0 e, OF _ refl] assms by (simp add: extHeaderEntrySize_def)

lemma total_entry_size:
  "table_len exts + 7 < 2 ^ 32 \<Longrightarrow> list_all entry_wf exts \<Longrightarrow>
     (\<Sum>e \<leftarrow> exts. extHeaderEntrySize e) = of_nat (table_len exts)"
  by (induction exts) (simp_all add: extHeaderEntrySize_len)

lemma EncodeExtHeaders_bytes:
  assumes "table_len exts + 7 < 2 ^ 32" and "list_all entry_wf exts"
  shows "EncodeExtHeaders exts = Inr (table_bytes exts)"
proof -
  let ?t = "of_nat (table_len exts) :: uint32"
  have u: "unat ?t = table_len exts" using assms by (intro unat_small) simp
  have "?t = of_nat 0 \<longleftrightarrow> table_len exts = 0" using assms(1) by (intro of_nat_eq_small) simp_all
  then have z: "?t = 0 \<longleftrightarrow> exts = []" unfolding table_len_pos of_nat_simps(1) .
  have l: "encode_ext_loop exts 0 (zeros (table_len exts)) = Inr (table_bytes exts)"
    using encode_ext_loop_bytes [of 0 "[]" exts] assms by simp
  show ?thesis
    unfolding EncodeExtHeaders_def total_entry_size [OF assms] Let_def z u l by simp
qed

lemma entry_reads:
  shows "dec32 (entry_bytes e @ r) 0 = ext_HdrSize e" "dec32 (entry_bytes e @ r) 4 = ext_ResetID e"
    "dec16 (entry_bytes e @ r) 8 = ext_RecordOffset e" "dec16 (entry_bytes e @ r) 10 = ext_RecordSize e"
    "dec16 (entry_bytes e @ r) 12 = ext_RecordAlign e"
    "dec16 (entry_bytes e @ r) 14 = of_nat (length (ext_Name e))"
    "sub_bytes 16 (length (ext_Name e)) (entry_bytes e @ r) = ext_Name e"
    "sub_bytes (align8 (16 + length (ext_Name e))) (length (ext_HdrData e)) (entry_bytes e @ r) = ext_HdrData e"
  subgoal by (simp add: entry_bytes_def entry_fixed_def dec32_def sub_bytes_def le_int_enc)
  subgoal by (simp add: entry_bytes_def entry_fixed_def dec32_def sub_bytes_def le_int_enc)
  subgoal by (simp add: entry_bytes_def entry_fixed_def dec16_def sub_bytes_def le_int_enc)
  subgoal by (simp add: entry_bytes_def entry_fixed_def dec16_def sub_bytes_def le_int_enc)
  subgoal by (simp add: entry_bytes_def entry_fixed_def dec16_def sub_bytes_def le_int_enc)
  subgoal by (simp add: entry_bytes_def entry_fixed_def dec16_def sub_bytes_def le_int_enc)
  subgoal by (simp add: entry_bytes_def sub_bytes_def)
  subgoal using align8_ge [of "16 + length (ext_Name e)"] by (simp add: entry_bytes_def sub_bytes_def)
  done


lemma ucast_small16: "n < 2 ^ 16 \<Longrightarrow> ucast (of_nat n :: uint16) = (of_nat n :: uint32)"
proof (rule word_unat_eq_iff [THEN iffD2])
  assume n: "n < 2 ^ 16"
  then have "unat (of_nat n :: uint16) = n" by (simp add: unat_of_nat take_bit_nat_eq_self)
  moreover have "unat (of_nat n :: uint32) = n" using n by (intro unat_small) simp
  ultimately show "unat (ucast (of_nat n :: uint16) :: uint32) = unat (of_nat n :: uint32)"
    using n by (simp add: unsigned_ucast_eq take_bit_nat_eq_self)
qed

lemma not_below: "x \<le> y \<Longrightarrow> y + 7 < 2 ^ 32 \<Longrightarrow> \<not> of_nat y < (of_nat x :: uint32)"
  using of_nat_less_small [of y x] by simp

lemma go_slice_nat:
  "lo \<le> hi \<Longrightarrow> hi \<le> length b \<Longrightarrow> length b < 2 ^ 32 \<Longrightarrow>
     go_slice b (of_nat lo) (of_nat hi) = Inr (sub_bytes lo (hi - lo) b)"
  using unat_small [of lo] unat_small [of hi] by (simp add: go_slice_def)

lemma decode_ext_entry_bytes:
  assumes b: "b = pre @ entry_bytes e @ r" and len: "length b + 7 < 2 ^ 32" and wf: "entry_wf e"
  shows "decode_ext_entry b (of_nat (length pre)) = Inr (e, of_nat (length pre + entry_len e))"
proof -
  define p where "p = length pre"
  define N where "N = length (ext_Name e)"
  define D where "D = length (ext_HdrData e)"
  define A where "A = align8 (16 + N)"
  let ?s = "of_nat p :: uint32"
  have bd: "16 + N \<le> A" "A + D \<le> entry_len e" "p + entry_len e \<le> length b" "0 < N" "N \<le> 64"
    using entry_len_bounds [of e] wf b by (simp_all add: N_def A_def D_def p_def)
  have pl: "p + entry_len e + 7 < 2 ^ 32" using bd len by linarith
  have hs: "ext_HdrSize e = of_nat D" using wf by (simp add: D_def)
  note pos = entry_positions [OF pl A_def [unfolded N_def], folded N_def D_def, OF hs]
  have rd: "dec32 b p = of_nat D" "dec32 b (p + 4) = ext_ResetID e" "dec16 b (p + 8) = ext_RecordOffset e"
    "dec16 b (p + 10) = ext_RecordSize e" "dec16 b (p + 12) = ext_RecordAlign e" "dec16 b (p + 14) = of_nat N"
    using entry_reads [of e r] hs dec_skip(2) [of pre _ 0] by (simp_all add: b p_def dec_skip N_def)
  have nm: "ucast (of_nat N :: uint16) = (of_nat N :: uint32)" using bd by (intro ucast_small16) simp
  have a2: "?s + 16 = of_nat (p + 16)" "of_nat (p + 16) + of_nat N = (of_nat (p + 16 + N) :: uint32)" by simp_all
  have a3: "?s + HeaderSizeAlign (of_nat (p + 16 + N) - ?s) = of_nat (p + A)"
    using pos(1) by (simp add: algebra_simps)
  have a4: "of_nat (p + A) + of_nat D = (of_nat (p + A + D) :: uint32)" by simp
  have a5: "?s + HeaderSizeAlign (of_nat (p + A + D) - ?s) = of_nat (p + entry_len e)"
    using pos(2) by (simp add: algebra_simps)
  have u: "unat ?s = p" using pl by (intro unat_small) simp
  have c: "\<not> of_nat (length b) < (of_nat (p + 16) :: uint32)" "\<not> of_nat (length b) < (of_nat (p + 16 + N) :: uint32)"
    "\<not> of_nat (length b) < (of_nat (p + A + D) :: uint32)"
    using bd len by (intro not_below; linarith)+
  have c': "\<not> length b < p + 16" using bd by linarith
  have c0: "(0 :: uint32) < of_nat D \<longleftrightarrow> 0 < D" "of_nat N = (0 :: uint32) \<longleftrightarrow> False"
    "(of_nat ExtNameMaxLength :: uint32) < of_nat N \<longleftrightarrow> False"
    using bd pl of_nat_less_small [of 0 D] of_nat_eq_small [of N 0] of_nat_less_small [of 64 N]
    by (simp_all add: ExtNameMaxLength_def)
  have s1: "go_slice b (of_nat (p + 16)) (of_nat (p + 16 + N)) = Inr (ext_Name e)"
    using go_slice_nat [of "p + 16" "p + 16 + N" b] bd len entry_reads(7) [of e r]
    by (simp add: b p_def N_def sub_bytes_skip del: of_nat_add)
  have s2: "go_slice b (of_nat (p + A)) (of_nat (p + A + D)) = Inr (ext_HdrData e)"
    using go_slice_nat [of "p + A" "p + A + D" b] bd len entry_reads(8) [of e r]
    by (simp add: b p_def A_def N_def D_def sub_bytes_skip del: of_nat_add)
  have nod: "ext_HdrData e = []" "p + A + D = p + A" if "\<not> 0 < D" using that by (simp_all add: D_def)
  show ?thesis
    unfolding p_def [symmetric] decode_ext_entry_def Let_def u rd nm
    unfolding a2 a3
    unfolding a4 c0 s1
    using c c' s2 a5 nod hs by (cases "0 < D") (simp_all del: of_nat_add)
qed


lemma decode_ext_loop_bytes:
  assumes "b = pre @ table_bytes exts" and "length b + 7 < 2 ^ 32" and "list_all entry_wf exts"
  shows "decode_ext_loop b (of_nat (length pre)) out = Some (Inr (out @ exts))"
  using assms
proof (induction exts arbitrary: pre out)
  case Nil
  then show ?case by (subst decode_ext_loop.simps) simp
next
  case (Cons e es)
  have "(of_nat (length pre) :: uint32) < of_nat (length b)"
    using Cons.prems entry_len_ge [of e] by (subst of_nat_less_small) simp_all
  moreover have "decode_ext_entry b (of_nat (length pre)) = Inr (e, of_nat (length pre + entry_len e))"
    using Cons.prems by (intro decode_ext_entry_bytes) simp_all
  moreover have "decode_ext_loop b (of_nat (length (pre @ entry_bytes e))) (out @ [e]) = Some (Inr ((out @ [e]) @ es))"
    using Cons.prems by (intro Cons.IH) simp_all
  ultimately show ?case by (subst decode_ext_loop.simps) (simp del: of_nat_add)
qed

lemma ext_table_roundtrip:
  assumes "table_len exts + 7 < 2 ^ 32" and "list_all entry_wf exts"
  shows "DecodeExtHeaders (table_bytes exts) = Some (Inr exts)"
proof (cases "exts = []")
  case False
  then have "table_bytes exts \<noteq> []" using length_table_bytes [of exts] table_len_pos by fastforce
  then show ?thesis
    using decode_ext_loop_bytes [of "table_bytes exts" "[]" exts "[]"] assms by (simp add: DecodeExtHeaders_def)
qed (simp add: DecodeExtHeaders_def)

section \<open>Termination of the table loop\<close>

lemma go_slice_bounds:
  assumes "go_slice b (of_nat lo) (of_nat (lo + d)) = Inr x" and "lo < 2 ^ 32" and "d < 2 ^ 32"
  shows "lo + d \<le> length b"
proof -
  define hi where "hi = unat (of_nat (lo + d) :: uint32)"
  have "unat (of_nat lo :: uint32) \<le> hi \<and> hi \<le> length b"
    using assms(1) unfolding go_slice_def hi_def by (metis Inl_Inr_False)
  then have "lo \<le> hi" and "hi \<le> length b" unfolding unat_small [OF assms(2)] by blast+
  moreover have "hi = (lo + d) mod 2 ^ 32"
    unfolding hi_def unat_of_nat by (simp add: take_bit_eq_mod)
  moreover have "(lo + d) mod 2 ^ 32 < lo" if "\<not> lo + d < 2 ^ 32"
    using that assms(2,3) by (simp add: le_mod_geq)
  ultimately show ?thesis by (metis mod_less not_le)
qed

lemma align8_add: "8 dvd s \<Longrightarrow> s + align8 n = align8 (s + n)"
proof -
  assume "8 dvd s"
  then obtain k where "s = 8 * k" ..
  moreover have "(8 * k + (n + 7)) div 8 = k + (n + 7) div 8" by simp
  ultimately show ?thesis by (simp add: align8_def add.assoc)
qed

lemma align8_mono: "n \<le> m \<Longrightarrow> align8 n \<le> align8 m"
  by (simp add: align8_def div_le_mono)

lemma align8_fix: "8 dvd m \<Longrightarrow> align8 m = m"
  by (auto simp: align8_def elim!: dvdE)

lemma aligned_step:
  assumes "8 dvd s" and "s + n \<le> L" and "L + 8 \<le> 2 ^ 32" and "0 < n"
  shows "HeaderSizeAlign (of_nat n) = of_nat (align8 n)" and "s + align8 n + 8 \<le> 2 ^ 32"
    and "s < s + align8 n" and "8 dvd s + align8 n"
proof -
  show "HeaderSizeAlign (of_nat n) = of_nat (align8 n)" using assms by (intro HeaderSizeAlign_of_nat) linarith
  have "s + align8 n \<le> align8 (2 ^ 32 - 8)"
    using assms unfolding align8_add [OF assms(1)] by (intro align8_mono) linarith
  then show "s + align8 n + 8 \<le> 2 ^ 32" using align8_fix [of "2 ^ 32 - 8"] by simp
  show "s < s + align8 n" using align8_ge [of n] assms(4) by linarith
  show "8 dvd s + align8 n" using assms(1) by simp
qed

lemma if_Inl_iff: "(if c then Inl x else t) = Inr y \<longleftrightarrow> \<not> c \<and> t = Inr y"
  by simp

lemma decode_ext_entry_cases:
  assumes "decode_ext_entry b start = Inr (e, pos')"
  obtains N D pos3 name where "N = unat (dec16 b (unat start + 14))" and "D = unat (dec32 b (unat start))"
    and "unat start + 16 \<le> length b"
    and "go_slice b (start + 16) (start + 16 + of_nat N) = Inr name"
    and "pos3 = start + HeaderSizeAlign (start + 16 + of_nat N - start)"
    and "D = 0 \<and> pos' = start + HeaderSizeAlign (pos3 - start) \<or>
         (\<exists>data. go_slice b pos3 (pos3 + of_nat D) = Inr data \<and>
                 pos' = start + HeaderSizeAlign (pos3 + of_nat D - start))"
proof -
  define N D where "N = unat (dec16 b (unat start + 14))" and "D = unat (dec32 b (unat start))"
  have N: "ucast (dec16 b (unat start + 14)) = (of_nat N :: uint32)" and D: "dec32 b (unat start) = of_nat D"
    by (simp_all add: N_def D_def)
  define pos3 where "pos3 = start + HeaderSizeAlign (start + 16 + of_nat N - start)"
  note ok = assms [unfolded decode_ext_entry_def Let_def N D pos3_def [symmetric] if_Inl_iff sum_case_Inr_iff]
  then obtain name where len: "\<not> length b < unat start + 16"
    and name: "go_slice b (start + 16) (start + 16 + of_nat N) = Inr name" by blast
  show ?thesis
  proof (cases "(0 :: uint32) < of_nat D")
    case True
    from ok [unfolded if_P [OF True] if_Inl_iff sum_case_Inr_iff]
    have "\<exists>data. go_slice b pos3 (pos3 + of_nat D) = Inr data \<and>
        pos' = start + HeaderSizeAlign (pos3 + of_nat D - start)" by blast
    then show ?thesis using that [OF N_def D_def _ name pos3_def] len by (simp only: not_less) blast
  next
    case False
    then have "D = 0" unfolding D [symmetric] by (simp add: D_def word_less_nat_alt)
    moreover from ok [unfolded if_not_P [OF False] if_Inl_iff sum_case_Inr_iff]
    have "pos' = start + HeaderSizeAlign (pos3 - start)" by blast
    ultimately show ?thesis using that [OF N_def D_def _ name pos3_def] len by (simp only: not_less) blast
  qed
qed

lemma decode_ext_entry_progress:
  assumes ok: "decode_ext_entry b (of_nat s) = Inr (e, pos')"
    and s: "8 dvd s" "s < 2 ^ 32" and len: "length b + 8 \<le> 2 ^ 32"
  shows "\<exists>n. pos' = of_nat n \<and> s < n \<and> 8 dvd n \<and> n < 2 ^ 32"
proof -
  let ?s = "of_nat s :: uint32"
  have u: "unat ?s = s" using s by (intro unat_small)
  obtain N D pos3 name
    where N: "N = unat (dec16 b (unat ?s + 14))" and D: "D = unat (dec32 b (unat ?s))"
      and len16: "unat ?s + 16 \<le> length b" and name: "go_slice b (?s + 16) (?s + 16 + of_nat N) = Inr name"
      and pos3: "pos3 = ?s + HeaderSizeAlign (?s + 16 + of_nat N - ?s)"
      and pos': "D = 0 \<and> pos' = ?s + HeaderSizeAlign (pos3 - ?s) \<or>
         (\<exists>data. go_slice b pos3 (pos3 + of_nat D) = Inr data \<and>
                 pos' = ?s + HeaderSizeAlign (pos3 + of_nat D - ?s))"
    by (rule decode_ext_entry_cases [OF ok])
  have b: "N < 2 ^ 16" "D < 2 ^ 32"
    using unsigned_less [of "dec16 b (unat ?s + 14)"] unsigned_less [of "dec32 b (unat ?s)"] by (simp_all add: N D)
  have "go_slice b (of_nat (s + 16)) (of_nat (s + 16 + N)) = Inr name" using name by simp
  moreover have "s + 16 < 2 ^ 32" using len16 len unfolding u by linarith
  moreover have "N < 2 ^ 32" using b(1) by simp
  ultimately have "s + 16 + N \<le> length b" by (rule go_slice_bounds)
  then have sN: "s + (16 + N) \<le> length b" by linarith
  define A where "A = align8 (16 + N)"
  have "0 < 16 + N" by simp
  note st = aligned_step [OF s(1) sN len this, folded A_def]
  have d: "?s + 16 + of_nat N - ?s = of_nat (16 + N)" by simp
  have p3: "pos3 = of_nat (s + A)" unfolding pos3 d st(1) by simp
  have d3: "of_nat (s + A) + of_nat D = (of_nat (s + A + D) :: uint32)"
    "of_nat (s + A) - ?s = of_nat A" "of_nat (s + A + D) - ?s = of_nat (A + D)" by simp_all
  from pos' [unfolded p3 d3(1), unfolded d3] show ?thesis
  proof (elim disjE conjE exE)
    assume D0: "D = 0" and p: "pos' = ?s + HeaderSizeAlign (of_nat A)"
    have "align8 A = A" by (simp add: A_def align8_fix)
    then have "HeaderSizeAlign (of_nat A) = of_nat A"
      using HeaderSizeAlign_of_nat [of A] st(2) by simp
    then have "pos' = of_nat (s + A)" unfolding p by simp
    moreover have "s + A < 2 ^ 32" using st(2) by linarith
    ultimately show ?thesis using st(3,4) by blast
  next
    fix data
    assume g: "go_slice b (of_nat (s + A)) (of_nat (s + A + D)) = Inr data"
      and p: "pos' = ?s + HeaderSizeAlign (of_nat (A + D))"
    have "s + A < 2 ^ 32" using st(2) by linarith
    from go_slice_bounds [OF g this b(2)] have le: "s + (A + D) \<le> length b" by linarith
    have "0 < A + D" using st(3) by linarith
    note stp = aligned_step [OF s(1) le len this]
    have "pos' = of_nat (s + align8 (A + D))" unfolding p stp(1) by simp
    moreover have "s + align8 (A + D) < 2 ^ 32" using stp(2) by linarith
    ultimately show ?thesis using stp(3,4) by blast
  qed
qed


lemma decode_ext_loop_terminates:
  assumes "8 dvd s" and "s < 2 ^ 32" and "length b + 8 \<le> 2 ^ 32"
  shows "\<exists>r. decode_ext_loop b (of_nat s) out = Some r"
  using assms(1,2)
proof (induction "2 ^ 32 - s" arbitrary: s out rule: less_induct)
  case less
  show ?case
  proof (cases "(of_nat s :: uint32) < of_nat (length b)")
    case True
    show ?thesis
    proof (cases "decode_ext_entry b (of_nat s)")
      case (Inr r)
      obtain e pos' where r: "r = (e, pos')" by (cases r)
      obtain n where n: "pos' = of_nat n" "s < n" "8 dvd n" "n < 2 ^ 32"
        using decode_ext_entry_progress [OF _ less.prems assms(3)] Inr r by blast
      from n less.prems have "2 ^ 32 - n < 2 ^ 32 - s" by linarith
      from less.hyps [OF this n(3,4)] show ?thesis
        unfolding decode_ext_loop.simps [of b "of_nat s"] using True Inr r n(1) by simp
    qed (use True in \<open>simp add: decode_ext_loop.simps [of b "of_nat s"]\<close>)
  qed (simp add: decode_ext_loop.simps [of b "of_nat s"])
qed

text \<open>C32. Parsing an extension table always ends: for every byte string of at most \<open>2 ^ 32 - 8\<close> bytes, valid or
  corrupt, the loop of \<^verbatim>\<open>DecodeExtHeaders\<close> comes to its end, with a table, with an error value or with the
  panic of a slice out of range, and never goes on for ever although its position is a 32-bit word.\<close>

theorem DecodeExtHeaders_terminates:
  "length b + 8 \<le> 2 ^ 32 \<Longrightarrow> \<exists>r. DecodeExtHeaders b = Some r"
  using decode_ext_loop_terminates [of 0 b "[]"] by (auto simp: DecodeExtHeaders_def)

theorem DecodeExtHeaders_terminates_witness:
  "\<exists>r. DecodeExtHeaders (zeros 40) = Some r"
  using DecodeExtHeaders_terminates [of "zeros 40"] by simp

text \<open>C33. A corrupt header size that wraps past 4 GiB panics: the bounds check of
  \<^verbatim>\<open>DecodeExtHeaders\<close> adds in 32 bits, so the sum of position and size is small again, the check
  lets it through, and slicing from the larger to the smaller offset panics where the comment
  promises \<^verbatim>\<open>ErrShortRead\<close>.\<close>

theorem DecodeExtHeaders_wrap_panics:
  assumes "b = entry_fixed e @ ext_Name e @ t" and "ext_Name e \<noteq> []" and "length (ext_Name e) \<le> 64"
    and "align8 (16 + length (ext_Name e)) \<le> length b" and "length b + 8 \<le> 2 ^ 32"
    and "2 ^ 32 \<le> align8 (16 + length (ext_Name e)) + unat (ext_HdrSize e)"
  shows "DecodeExtHeaders b = Some (Inl Panic)"
proof -
  define N where "N = length (ext_Name e)"
  define D where "D = unat (ext_HdrSize e)"
  define A where "A = align8 (16 + N)"
  have b: "16 + N \<le> A" "A \<le> length b" "0 < N" "N \<le> 64" "2 ^ 32 \<le> A + D" "D < 2 ^ 32"
    using assms align8_ge unsigned_less [of "ext_HdrSize e"] by (simp_all add: N_def D_def A_def)
  have rd: "dec32 b 0 = of_nat D" "dec16 b 14 = of_nat N"
    by (simp_all add: assms(1) entry_fixed_def dec32_def dec16_def sub_bytes_def le_int_enc D_def N_def)
  have nm: "ucast (of_nat N :: uint16) = (of_nat N :: uint32)" using b by (intro ucast_small16) simp
  have a1: "(0 :: uint32) + 16 = of_nat 16" "of_nat 16 + of_nat N = (of_nat (16 + N) :: uint32)" by simp_all
  have a3: "HeaderSizeAlign (of_nat (16 + N)) = of_nat A"
    using b assms(5) HeaderSizeAlign_of_nat [of "16 + N"] by (simp add: A_def)
  have "A + D - 2 ^ 32 < A" using b by linarith
  moreover have w: "of_nat A + of_nat D = (of_nat (A + D - 2 ^ 32) :: uint32)"
  proof -
    have "(of_nat A + of_nat D :: uint32) = of_nat (2 ^ 32 + (A + D - 2 ^ 32))" using b(5) by simp
    also have "\<dots> = of_nat (A + D - 2 ^ 32)" by (simp only: of_nat_add) simp
    finally show ?thesis .
  qed
  ultimately have wp: "go_slice b (of_nat A) (of_nat A + of_nat D) = Inl Panic"
    unfolding w go_slice_def using unat_small [of A] unat_small [of "A + D - 2 ^ 32"] b assms(5) by simp
  have c: "\<not> of_nat (length b) < (of_nat 16 :: uint32)" "\<not> of_nat (length b) < (of_nat (16 + N) :: uint32)"
    "\<not> of_nat (length b) < (of_nat (A + D - 2 ^ 32) :: uint32)"
    using b assms(5) by (intro not_below; linarith)+
  have c0: "(0 :: uint32) < of_nat D \<longleftrightarrow> True" "of_nat N = (0 :: uint32) \<longleftrightarrow> False"
    "(of_nat ExtNameMaxLength :: uint32) < of_nat N \<longleftrightarrow> False"
    using b assms(5) of_nat_less_small [of 0 D] of_nat_eq_small [of N 0] of_nat_less_small [of 64 N]
    by (simp_all add: ExtNameMaxLength_def)
  obtain name where s1: "go_slice b (of_nat 16) (of_nat (16 + N)) = Inr name"
    using go_slice_nat [of 16 "16 + N" b] b assms(5) by simp
  have "decode_ext_entry b 0 = Inl Panic"
    unfolding decode_ext_entry_def Let_def unat_0 add_0 rd nm a1(1) [unfolded add_0]
    unfolding a1 diff_zero a3 s1 c0 w using c wp [unfolded w] b by simp
  moreover have ne: "b \<noteq> []" using b(1,2) by auto
  moreover have "(0 :: uint32) < of_nat (length b)"
    using ne assms(5) of_nat_less_small [of 0 "length b"] by simp
  ultimately show ?thesis
    by (auto simp: DecodeExtHeaders_def decode_ext_loop.simps [of b 0])
qed

theorem DecodeExtHeaders_wrap_panics_witness:
  "DecodeExtHeaders (enc32 0xFFFFFFF8 @ enc32 0 @ enc16 0 @ enc16 0 @ enc16 0 @ enc16 1 @ ''a'' @ zeros 7) =
     Some (Inl Panic)"
proof -
  define e where "e = \<lparr> ext_Name = ''a'', ext_HdrSize = 0xFFFFFFF8, ext_RecordSize = 0, ext_RecordAlign = 0,
    ext_ResetID = 0, ext_RecordOffset = 0, ext_HdrData = [] \<rparr>"
  show ?thesis
    using DecodeExtHeaders_wrap_panics [OF refl, of e "zeros 7"]
    by (simp add: e_def entry_fixed_def align8_def)
qed


section \<open>The record layout\<close>

text \<open>What \<^verbatim>\<open>sort.Slice\<close> documents, for an order that is a strict weak one.\<close>

definition weak_order :: "('a \<Rightarrow> 'a \<Rightarrow> bool) \<Rightarrow> bool" where
  "weak_order lt \<longleftrightarrow>
     (\<forall>a. \<not> lt a a) \<and> (\<forall>a b c. lt a b \<longrightarrow> lt b c \<longrightarrow> lt a c) \<and>
     (\<forall>a b c. \<not> lt a b \<longrightarrow> \<not> lt b c \<longrightarrow> \<not> lt a c)"

definition ext_sorts :: "ext_sort \<Rightarrow> bool" where
  "ext_sorts srt \<longleftrightarrow>
     (\<forall>lt xs. mset (srt lt xs) = mset xs \<and>
        (weak_order lt \<longrightarrow> sorted_wrt (\<lambda>a b. \<not> lt b a) (srt lt xs)))"

lemma str_less_irrefl: "\<not> str_less s s"
  by (induction s) simp_all

lemma str_less_trans: "str_less s t \<Longrightarrow> str_less t u \<Longrightarrow> str_less s u"
proof (induction s t arbitrary: u rule: str_less.induct)
  case (2 d t)
  then show ?case by (cases u) simp_all
next
  case (3 c s d t)
  then show ?case by (cases u) (auto dest: less_trans)
qed simp

lemma str_less_total: "s \<noteq> t \<Longrightarrow> str_less s t \<or> str_less t s"
proof (induction s t rule: str_less.induct)
  case (1 s)
  then show ?case by (cases s) simp_all
next
  case (3 c s d t)
  show ?case
  proof (cases "c = d")
    case False
    then have "(of_char c :: nat) \<noteq> of_char d" by (simp add: of_char_eq_iff)
    then show ?thesis by (metis linorder_neqE_nat str_less.simps(3))
  qed (use 3 in auto)
qed simp

lemma align_less_trans: "align_less a b \<Longrightarrow> align_less b c \<Longrightarrow> align_less a c"
  unfolding align_less_def by (auto split: if_splits dest: str_less_trans less_trans)

lemma align_less_irrefl: "\<not> align_less a a"
  by (simp add: align_less_def str_less_irrefl)

lemma align_less_total: "ext_Name a \<noteq> ext_Name b \<Longrightarrow> align_less a b \<or> align_less b a"
  by (auto simp: align_less_def dest: str_less_total)

lemma align_less_keys:
  "ext_Name a = ext_Name b \<Longrightarrow> ext_RecordAlign a = ext_RecordAlign b \<Longrightarrow> align_less a c = align_less b c"
  "ext_Name a = ext_Name b \<Longrightarrow> ext_RecordAlign a = ext_RecordAlign b \<Longrightarrow> align_less c a = align_less c b"
  by (simp_all add: align_less_def)

lemma weak_align: "weak_order align_less"
proof -
  have "\<not> align_less a c" if "\<not> align_less a b" "\<not> align_less b c" for a b c
  proof
    assume ac: "align_less a c"
    show False
    proof (cases "ext_Name a = ext_Name b \<and> ext_RecordAlign a = ext_RecordAlign b")
      case True
      with ac that(2) align_less_keys(1) [of a b c] show False by simp
    next
      case False
      then have "align_less b a"
        using that(1) by (auto simp: align_less_def split: if_splits dest: str_less_total)
      with ac align_less_trans that(2) show False by blast
    qed
  qed
  then show ?thesis unfolding weak_order_def using align_less_irrefl align_less_trans by blast
qed

lemma weak_offset: "weak_order offset_less"
  by (auto simp: weak_order_def offset_less_def)

lemma sorted_total_unique:
  assumes "mset xs = mset ys" and "sorted_wrt (\<lambda>a b. \<not> lt b a) xs" and "sorted_wrt (\<lambda>a b. \<not> lt b a) ys"
    and "\<And>a b. a \<in> set xs \<Longrightarrow> b \<in> set xs \<Longrightarrow> a \<noteq> b \<Longrightarrow> lt a b \<or> lt b a"
  shows "xs = ys"
  using assms
proof (induction xs arbitrary: ys)
  case (Cons x xs)
  from Cons.prems(1) obtain y ys' where ys: "ys = y # ys'" by (cases ys) auto
  have "x = y"
  proof (rule ccontr)
    assume "x \<noteq> y"
    have eq: "set (x # xs) = set (y # ys')" using Cons.prems(1) ys by (metis set_mset_mset)
    then have "x \<in> set ys'" "y \<in> set xs" using \<open>x \<noteq> y\<close> by auto
    then have "\<not> lt y x" "\<not> lt x y" using Cons.prems(2,3) ys by auto
    with Cons.prems(4) [of x y] \<open>x \<noteq> y\<close> \<open>y \<in> set xs\<close> show False by auto
  qed
  moreover have "xs = ys'" using Cons.prems ys \<open>x = y\<close> by (intro Cons.IH) auto
  ultimately show ?case using ys by simp
qed simp

text \<open>Extensions that differ only in where they were laid out.\<close>

abbreviation unplaced :: "Extension \<Rightarrow> Extension" where
  "unplaced e \<equiv> e \<lparr> ext_RecordOffset := 0 \<rparr>"

lemma assign_unplaced: "assign_offsets pos es = Inr (n, out) \<Longrightarrow> map unplaced out = map unplaced es"
  by (induction es arbitrary: pos n out) (auto simp: Let_def split: if_splits sum.splits prod.splits)

lemma unplaced_same:
  "map unplaced out = map unplaced es \<Longrightarrow>
     map ext_Name out = map ext_Name es \<and> map ext_RecordAlign out = map ext_RecordAlign es \<and>
     map ext_RecordSize out = map ext_RecordSize es \<and> map ext_HdrData out = map ext_HdrData es \<and>
     map ext_HdrSize out = map ext_HdrSize es"
proof -
  assume *: "map unplaced out = map unplaced es"
  have "map f out = map f es" if "\<And>e. f (unplaced e) = f e" for f :: "Extension \<Rightarrow> 'x"
    using arg_cong [OF *, of "map f"] that by (simp add: comp_def)
  then show ?thesis
    using arg_cong [OF *, of "map ext_Name"] arg_cong [OF *, of "map ext_RecordAlign"]
      arg_cong [OF *, of "map ext_RecordSize"] arg_cong [OF *, of "map ext_HdrData"]
      arg_cong [OF *, of "map ext_HdrSize"] by (simp add: comp_def)
qed

lemma align_pos_update [simp]: "align_pos p (e \<lparr> ext_RecordOffset := x \<rparr>) = align_pos p e"
  by (simp add: align_pos_def Let_def)

lemma assign_ConsE:
  assumes "assign_offsets pos (e # es) = Inr (n, out)"
  obtains (skip) out' where "ext_RecordSize e = 0" "assign_offsets pos es = Inr (n, out')"
      "out = unplaced e # out'"
    | (place) p out' where "ext_RecordSize e \<noteq> 0" "p = align_pos pos e" "\<not> p > 0xFFFF"
      "assign_offsets (p + ucast (ext_RecordSize e)) es = Inr (n, out')"
      "out = e \<lparr> ext_RecordOffset := ucast p \<rparr> # out'"
proof (cases "ext_RecordSize e = 0")
  case True
  with assms show ?thesis by (simp add: sum_case_Inr_iff) (auto intro: skip)
next
  case False
  with assms show ?thesis
    by (simp add: Let_def sum_case_Inr_iff if_Inl_iff) (auto intro: place)
qed

lemma assign_idem: "assign_offsets pos es = Inr (n, out) \<Longrightarrow> assign_offsets pos out = Inr (n, out)"
proof (induction es arbitrary: pos n out)
  case (Cons e es)
  from Cons.prems show ?case
  proof (cases rule: assign_ConsE)
    case (skip out')
    then show ?thesis using Cons.IH [OF skip(2)] by simp
  next
    case (place p out')
    let ?e = "e \<lparr> ext_RecordOffset := ucast p \<rparr>"
    have sz: "ext_RecordSize ?e \<noteq> 0" "ext_RecordSize ?e = ext_RecordSize e" using place(1) by simp_all
    show ?thesis
      unfolding place(5) assign_offsets.simps if_not_P [OF sz(1)] Let_def align_pos_update place(2) [symmetric]
        if_not_P [OF place(3)] sz(2) Cons.IH [OF place(4)]
      using place(1) by simp
  qed
qed simp


unbundle bit_operations_syntax

text \<open>Sorting an already laid out table by alignment gives the layout order back.\<close>

lemma align_sorted_same_keys:
  assumes names: "map ext_Name xs = map ext_Name ys" and aligns: "map ext_RecordAlign xs = map ext_RecordAlign ys"
    and sorted: "sorted_wrt (\<lambda>a b. \<not> align_less b a) ys"
  shows "sorted_wrt (\<lambda>a b. \<not> align_less b a) xs"
proof -
  have l: "length xs = length ys" using names by (rule map_eq_imp_length_eq)
  have k: "ext_Name (xs ! i) = ext_Name (ys ! i)" "ext_RecordAlign (xs ! i) = ext_RecordAlign (ys ! i)"
    if "i < length xs" for i
    using that l nth_map [of i xs ext_Name] nth_map [of i ys ext_Name] names
      nth_map [of i xs ext_RecordAlign] nth_map [of i ys ext_RecordAlign] aligns by simp_all
  have "align_less (xs ! j) (xs ! i) = align_less (ys ! j) (ys ! i)" if "i < length xs" "j < length xs" for i j
    unfolding align_less_def k [OF that(1)] k [OF that(2)] ..
  then show ?thesis using sorted l unfolding sorted_wrt_iff_nth_less by (metis less_trans)
qed

lemma ext_sorts_mset: "ext_sorts srt \<Longrightarrow> mset (srt lt xs) = mset xs"
  and ext_sorts_sorted: "ext_sorts srt \<Longrightarrow> weak_order lt \<Longrightarrow> sorted_wrt (\<lambda>a b. \<not> lt b a) (srt lt xs)"
  by (simp_all add: ext_sorts_def)

lemma sort_by_align_unique:
  assumes srt: "ext_sorts srt" and "mset xs = mset out" and "distinct (map ext_Name out)"
    and "sorted_wrt (\<lambda>a b. \<not> align_less b a) out"
  shows "srt align_less xs = out"
proof (rule sorted_total_unique [where lt = align_less])
  show "mset (srt align_less xs) = mset out" using ext_sorts_mset [OF srt] assms(2) by simp
  show "sorted_wrt (\<lambda>a b. \<not> align_less b a) (srt align_less xs)" by (rule ext_sorts_sorted [OF srt weak_align])
  have "set (srt align_less xs) = set out" using \<open>mset (srt align_less xs) = mset out\<close> by (metis set_mset_mset)
  then show "align_less a b \<or> align_less b a"
    if "a \<in> set (srt align_less xs)" "b \<in> set (srt align_less xs)" "a \<noteq> b" for a b
    using that assms(3) align_less_total by (metis inj_onD distinct_map)
qed (rule assms(4))

lemma ext_valid_unplaced: "ext_valid (unplaced e) = ext_valid e"
  by (simp add: ext_valid_def)

lemma layout_parts:
  assumes "ComputeRecordLayout srt exts = Inr layout"
  obtains out where "list_all ext_valid exts"
    and "assign_offsets RecordMinSize (srt align_less exts) = Inr (lay_RecordSize layout, out)"
    and "lay_Extensions layout = srt offset_less out"
  using assms unfolding ComputeRecordLayout_def if_Inl_iff sum_case_Inr_iff by (auto split: prod.splits)

lemma list_all_mset: "mset xs = mset ys \<Longrightarrow> list_all P xs = list_all P ys"
  by (metis list.pred_set set_mset_mset)

lemma layout_facts:
  assumes srt: "ext_sorts srt" and dist: "distinct (map ext_Name exts)"
    and layout: "ComputeRecordLayout srt exts = Inr layout"
    and out: "assign_offsets RecordMinSize (srt align_less exts) = Inr (lay_RecordSize layout, out)"
  shows "distinct (map ext_Name out)" and "list_all ext_valid out"
    and "sorted_wrt (\<lambda>a b. \<not> align_less b a) out"
proof -
  let ?s = "srt align_less exts"
  note up = unplaced_same [OF assign_unplaced [OF out]]
  have m: "mset ?s = mset exts" by (rule ext_sorts_mset [OF srt])
  then have "mset (map ext_Name ?s) = mset (map ext_Name exts)" by simp
  with dist have "distinct (map ext_Name ?s)" by (metis mset_eq_imp_distinct_iff)
  then show "distinct (map ext_Name out)" using up by simp
  have "list_all ext_valid ?s" using layout_parts [OF layout] list_all_mset [OF m] by blast
  then have "list_all ext_valid (map unplaced ?s)" by (simp add: list_all_length ext_valid_unplaced)
  then have "list_all ext_valid (map unplaced out)" using assign_unplaced [OF out] by simp
  then show "list_all ext_valid out" by (simp add: list_all_length ext_valid_unplaced)
  show "sorted_wrt (\<lambda>a b. \<not> align_less b a) out"
    using align_sorted_same_keys [of out ?s] up ext_sorts_sorted [OF srt weak_align] by blast
qed

lemma layout_again:
  assumes srt: "ext_sorts srt" and dist: "distinct (map ext_Name exts)"
    and layout: "ComputeRecordLayout srt exts = Inr layout"
  shows "ComputeRecordLayout srt (lay_Extensions layout) = Inr layout"
proof -
  obtain out where out: "assign_offsets RecordMinSize (srt align_less exts) = Inr (lay_RecordSize layout, out)"
    and le: "lay_Extensions layout = srt offset_less out"
    using layout_parts [OF layout] by blast
  note f = layout_facts [OF srt dist layout out]
  have m: "mset (lay_Extensions layout) = mset out" unfolding le by (rule ext_sorts_mset [OF srt])
  have s: "srt align_less (lay_Extensions layout) = out" by (rule sort_by_align_unique [OF srt m f(1,3)])
  have v: "list_all ext_valid (lay_Extensions layout)" using list_all_mset [OF m] f(2) by blast
  have a: "assign_offsets RecordMinSize out = Inr (lay_RecordSize layout, out)" by (rule assign_idem [OF out])
  show ?thesis unfolding ComputeRecordLayout_def s a using v le by simp
qed


unbundle bit_operations_syntax

section \<open>The slots of a record\<close>

abbreviation slot_lo :: "Extension \<Rightarrow> nat" where "slot_lo e \<equiv> unat (ext_RecordOffset e)"
abbreviation slot_hi :: "Extension \<Rightarrow> nat" where "slot_hi e \<equiv> slot_lo e + unat (ext_RecordSize e)"

text \<open>Slots start after the UID and the flags, end within the record and do not overlap.\<close>

definition slots_ok :: "Extension list \<Rightarrow> nat \<Rightarrow> bool" where
  "slots_ok exts n \<longleftrightarrow>
     (\<forall>e \<in> set exts. ext_RecordSize e \<noteq> 0 \<longrightarrow> 5 \<le> slot_lo e \<and> slot_hi e \<le> n) \<and>
     (\<forall>a \<in> set exts. \<forall>b \<in> set exts. a \<noteq> b \<longrightarrow> ext_RecordSize a \<noteq> 0 \<longrightarrow> ext_RecordSize b \<noteq> 0 \<longrightarrow>
        slot_hi a \<le> slot_lo b \<or> slot_hi b \<le> slot_lo a)"

lemma unat_ucast16 [simp]: "unat (ucast (w :: uint16) :: uint32) = unat w"
proof -
  have "unat w < 2 ^ 16" using unsigned_less [where w = w] by simp
  then show ?thesis by (simp add: unsigned_ucast_eq take_bit_nat_eq_self)
qed

lemma unat_ucast32: "unat w \<le> 0xFFFF \<Longrightarrow> unat (ucast (w :: uint32) :: uint16) = unat w"
  by (simp add: unsigned_ucast_eq take_bit_nat_eq_self)

lemma align_pos_bounds:
  assumes "unat pos \<le> 0x1FFFE" and "unat (ext_RecordAlign e) \<le> 8"
  shows "unat pos \<le> unat (align_pos pos e)"
proof -
  define a where "a = unat (ext_RecordAlign e)"
  define r where "r = unat pos mod a"
  have A: "ucast (ext_RecordAlign e) = (of_nat a :: uint32)" by (simp add: a_def)
  have u: "unat (pos mod ucast (ext_RecordAlign e)) = r" by (simp add: unat_mod r_def a_def)
  have "pos mod ucast (ext_RecordAlign e) = of_nat (unat (pos mod ucast (ext_RecordAlign e)))" by simp
  then have R: "pos mod ucast (ext_RecordAlign e) = of_nat r" unfolding u .
  show ?thesis
  proof (cases "ext_RecordAlign e > 1 \<and> (of_nat r :: uint32) \<noteq> 0")
    case True
    then have "0 < a" unfolding a_def word_less_nat_alt by simp
    then have "r \<le> a" by (simp add: r_def less_imp_le)
    have "align_pos pos e = pos + (of_nat a - of_nat r)"
      unfolding align_pos_def Let_def R unfolding A using True by simp
    also have "\<dots> = of_nat (unat pos + (a - r))" using \<open>r \<le> a\<close> by (simp add: of_nat_diff)
    finally have "unat (align_pos pos e) = unat pos + (a - r)"
      using assms unat_small [of "unat pos + (a - r)"] by (simp add: a_def del: of_nat_add)
    then show ?thesis by simp
  next
    case False
    then have "align_pos pos e = pos" unfolding align_pos_def Let_def R unfolding A by auto
    then show ?thesis by simp
  qed
qed

lemma ext_valid_align: "ext_valid e \<Longrightarrow> unat (ext_RecordAlign e) \<le> 8"
  by (simp add: ext_valid_def word_less_nat_alt not_less)

lemma assign_slots:
  assumes "assign_offsets pos es = Inr (n, out)" and "list_all ext_valid es" and "unat pos \<le> 0x1FFFE"
  shows "unat pos \<le> unat n"
    and "\<forall>e \<in> set out. ext_RecordSize e \<noteq> 0 \<longrightarrow> unat pos \<le> slot_lo e \<and> slot_hi e \<le> unat n"
    and "sorted_wrt (\<lambda>a b. ext_RecordSize a \<noteq> 0 \<longrightarrow> ext_RecordSize b \<noteq> 0 \<longrightarrow> slot_hi a \<le> slot_lo b) out"
  using assms
proof (induction es arbitrary: pos n out)
  case (Cons e es)
  { fix pos n out
    assume asm: "assign_offsets pos (e # es) = Inr (n, out)" "list_all ext_valid (e # es)" "unat pos \<le> 0x1FFFE"
    have "unat pos \<le> unat n \<and>
      (\<forall>e \<in> set out. ext_RecordSize e \<noteq> 0 \<longrightarrow> unat pos \<le> slot_lo e \<and> slot_hi e \<le> unat n) \<and>
      sorted_wrt (\<lambda>a b. ext_RecordSize a \<noteq> 0 \<longrightarrow> ext_RecordSize b \<noteq> 0 \<longrightarrow> slot_hi a \<le> slot_lo b) out"
      using asm(1)
    proof (cases rule: assign_ConsE)
      case (skip out')
      then show ?thesis using Cons.IH [OF skip(2)] asm by auto
    next
      case (place p out')
      let ?q = "p + ucast (ext_RecordSize e)"
      have p: "unat pos \<le> unat p" "unat p \<le> 0xFFFF"
        using align_pos_bounds [OF asm(3) ext_valid_align] asm(2) place(2,3) by (simp_all add: word_less_nat_alt not_less)
      have sz: "unat (ext_RecordSize e) < 2 ^ 16" using unsigned_less [where w = "ext_RecordSize e"] by simp
      have "?q = of_nat (unat p + unat (ext_RecordSize e))" by simp
      then have q: "unat ?q = unat p + unat (ext_RecordSize e)"
        using p sz unat_small [of "unat p + unat (ext_RecordSize e)"] by (simp del: of_nat_add)
      have q': "unat ?q \<le> 0x1FFFE" using q p sz by simp
      have off: "unat (ucast p :: uint16) = unat p" using unat_ucast32 [OF p(2)] .
      have v: "list_all ext_valid es" using asm(2) by simp
      note IH = Cons.IH [OF place(4) v q', unfolded q]
      show ?thesis using IH p off unfolding place(5) by auto
    qed }
  note * = this
  { case 1 with * show ?case by blast next case 2 with * show ?case by blast next case 3 with * show ?case by blast }
qed simp_all

lemma layout_slots:
  assumes srt: "ext_sorts srt" and dist: "distinct (map ext_Name exts)"
    and layout: "ComputeRecordLayout srt exts = Inr layout"
  shows "slots_ok (lay_Extensions layout) (unat (lay_RecordSize layout))" and "5 \<le> unat (lay_RecordSize layout)"
proof -
  obtain out where v: "list_all ext_valid exts"
    and out: "assign_offsets RecordMinSize (srt align_less exts) = Inr (lay_RecordSize layout, out)"
    and le: "lay_Extensions layout = srt offset_less out"
    using layout_parts [OF layout] by blast
  have v': "list_all ext_valid (srt align_less exts)" using v list_all_mset [OF ext_sorts_mset [OF srt]] by blast
  have s: "set (lay_Extensions layout) = set out" unfolding le using ext_sorts_mset [OF srt] by (metis set_mset_mset)
  have pos: "unat RecordMinSize = 5" by (simp add: RecordMinSize_def)
  note a = assign_slots [OF out v', unfolded pos]
  show "5 \<le> unat (lay_RecordSize layout)" using a(1) by simp
  have dis: "slot_hi x \<le> slot_lo y \<or> slot_hi y \<le> slot_lo x"
    if "x \<in> set out" "y \<in> set out" "x \<noteq> y" "ext_RecordSize x \<noteq> 0" "ext_RecordSize y \<noteq> 0" for x y
  proof -
    from that obtain i j where ij: "i < length out" "j < length out" "x = out ! i" "y = out ! j" "i \<noteq> j"
      by (metis in_set_conv_nth)
    with a(3) that show ?thesis unfolding sorted_wrt_iff_nth_less by (cases "i < j") (auto simp: not_less le_less)
  qed
  show "slots_ok (lay_Extensions layout) (unat (lay_RecordSize layout))"
    unfolding slots_ok_def s using a(2) dis by simp
qed


section \<open>Records\<close>

text \<open>The bytes a record has for an extension: zeros where it has none.\<close>

definition slot_data :: "(string, string) gomap \<Rightarrow> Extension \<Rightarrow> string" where
  "slot_data m e =
    (case map_of m (ext_Name e) of
       None \<Rightarrow> zeros (unat (ext_RecordSize e))
     | Some d \<Rightarrow> if d = [] then zeros (unat (ext_RecordSize e)) else d)"

definition data_fits :: "(string, string) gomap \<Rightarrow> Extension list \<Rightarrow> bool" where
  "data_fits m exts \<longleftrightarrow>
     (\<forall>e \<in> set exts. ext_RecordSize e \<noteq> 0 \<longrightarrow> length (slot_data m e) = unat (ext_RecordSize e))"

lemma slot_hi_word:
  "slot_hi e < 2 ^ 16 \<Longrightarrow> unat (ext_RecordOffset e + ext_RecordSize e) = slot_hi e"
  by (simp add: unat_word_ariths)

lemma encode_exts_step:
  assumes "ext_RecordSize e \<noteq> 0" and "length (slot_data m e) = unat (ext_RecordSize e)"
    and "slot_hi e < 2 ^ 16" and "slot_hi e \<le> length buf"
    and "sub_bytes (slot_lo e) (unat (ext_RecordSize e)) buf = zeros (unat (ext_RecordSize e))"
  shows "encode_exts (e # es) m buf = encode_exts es m (copy_at (slot_lo e) (slot_data m e) buf)"
proof -
  have id: "copy_at (slot_lo e) (zeros (unat (ext_RecordSize e))) buf = buf"
  proof (rule nth_equalityI)
    fix i assume i: "i < length (copy_at (slot_lo e) (zeros (unat (ext_RecordSize e))) buf)"
    show "copy_at (slot_lo e) (zeros (unat (ext_RecordSize e))) buf ! i = buf ! i"
    proof (cases "slot_lo e \<le> i \<and> i < slot_hi e")
      case True
      then have "sub_bytes (slot_lo e) (unat (ext_RecordSize e)) buf ! (i - slot_lo e) = buf ! i"
        using i by (subst nth_sub_bytes) auto
      with True i assms(5) show ?thesis by (simp add: nth_copy_at)
    qed (use i in \<open>auto simp: nth_copy_at\<close>)
  qed simp
  show ?thesis
  proof (cases "map_of m (ext_Name e)")
    case None
    then show ?thesis using assms(1) id by (simp add: slot_data_def)
  next
    case (Some d)
    show ?thesis
    proof (cases "d = []")
      case True
      then show ?thesis using assms(1) id Some by (simp add: slot_data_def)
    next
      case False
      then have d: "slot_data m e = d" using Some by (simp add: slot_data_def)
      then have "of_nat (length d) = ext_RecordSize e" using assms(2) by simp
      then show ?thesis
        using assms Some False d slot_hi_word [OF assms(3)] by (simp add: Let_def)
    qed
  qed
qed

lemma encode_exts_ok:
  assumes "slots_ok exts (length buf)" and "length buf < 2 ^ 16" and "data_fits m exts" and "distinct exts"
    and "\<forall>e \<in> set exts. ext_RecordSize e \<noteq> 0 \<longrightarrow>
           sub_bytes (slot_lo e) (unat (ext_RecordSize e)) buf = zeros (unat (ext_RecordSize e))"
  shows "\<exists>buf'. encode_exts exts m buf = Inr buf' \<and> length buf' = length buf \<and>
           sub_bytes 0 5 buf' = sub_bytes 0 5 buf \<and>
           (\<forall>e \<in> set exts. ext_RecordSize e \<noteq> 0 \<longrightarrow>
              sub_bytes (slot_lo e) (unat (ext_RecordSize e)) buf' = slot_data m e) \<and>
           (\<forall>k n. (\<forall>e \<in> set exts. ext_RecordSize e \<noteq> 0 \<longrightarrow> k + n \<le> slot_lo e \<or> slot_hi e \<le> k) \<longrightarrow>
              sub_bytes k n buf' = sub_bytes k n buf)"
  using assms
proof (induction exts arbitrary: buf)
  case (Cons e es)
  show ?case
  proof (cases "ext_RecordSize e = 0")
    case True
    have "slots_ok es (length buf)" "data_fits m es" using Cons.prems(1,3) by (auto simp: slots_ok_def data_fits_def)
    with Cons True show ?thesis by auto
  next
    case False
    let ?b = "copy_at (slot_lo e) (slot_data m e) buf"
    have sl: "5 \<le> slot_lo e" "slot_hi e \<le> length buf" using Cons.prems(1) False by (auto simp: slots_ok_def)
    have ld: "length (slot_data m e) = unat (ext_RecordSize e)" using Cons.prems(3) False by (simp add: data_fits_def)
    have step: "encode_exts (e # es) m buf = encode_exts es m ?b"
      using False ld sl Cons.prems by (intro encode_exts_step) auto
    have dis: "slot_hi e \<le> slot_lo x \<or> slot_hi x \<le> slot_lo e" if "x \<in> set es" "ext_RecordSize x \<noteq> 0" for x
      using Cons.prems(1,4) False that by (auto simp: slots_ok_def)
    have keep: "sub_bytes k n ?b = sub_bytes k n buf" if "k + n \<le> slot_lo e \<or> slot_hi e \<le> k" for k n
      using that ld sub_copy_before sub_copy_after by (metis)
    have "slots_ok es (length ?b)" "data_fits m es"
      using Cons.prems(1,3) by (auto simp: slots_ok_def data_fits_def)
    moreover have "\<forall>x \<in> set es. ext_RecordSize x \<noteq> 0 \<longrightarrow>
        sub_bytes (slot_lo x) (unat (ext_RecordSize x)) ?b = zeros (unat (ext_RecordSize x))"
    proof (intro ballI impI)
      fix x assume x: "x \<in> set es" "ext_RecordSize x \<noteq> 0"
      have "sub_bytes (slot_lo x) (unat (ext_RecordSize x)) ?b = sub_bytes (slot_lo x) (unat (ext_RecordSize x)) buf"
        using dis [OF x] by (intro keep) blast
      with x Cons.prems(5) show "sub_bytes (slot_lo x) (unat (ext_RecordSize x)) ?b = zeros (unat (ext_RecordSize x))"
        by simp
    qed
    ultimately obtain buf' where IH: "encode_exts es m ?b = Inr buf'" "length buf' = length buf"
        "sub_bytes 0 5 buf' = sub_bytes 0 5 ?b"
        "\<forall>x \<in> set es. ext_RecordSize x \<noteq> 0 \<longrightarrow> sub_bytes (slot_lo x) (unat (ext_RecordSize x)) buf' = slot_data m x"
        "\<forall>k n. (\<forall>x \<in> set es. ext_RecordSize x \<noteq> 0 \<longrightarrow> k + n \<le> slot_lo x \<or> slot_hi x \<le> k) \<longrightarrow>
           sub_bytes k n buf' = sub_bytes k n ?b"
      using Cons.IH [of ?b] Cons.prems(2,4) by auto
    have own: "sub_bytes (slot_lo e) (unat (ext_RecordSize e)) buf' = slot_data m e"
      using IH(5) dis sub_copy_same [of "slot_lo e" "slot_data m e" buf] ld sl by auto
    have rest: "sub_bytes k n buf' = sub_bytes k n buf"
      if "\<forall>x \<in> set (e # es). ext_RecordSize x \<noteq> 0 \<longrightarrow> k + n \<le> slot_lo x \<or> slot_hi x \<le> k" for k n
    proof -
      have "sub_bytes k n ?b = sub_bytes k n buf" using that False by (intro keep) simp
      moreover have "sub_bytes k n buf' = sub_bytes k n ?b" using IH(5) that by simp
      ultimately show ?thesis by simp
    qed
    have "sub_bytes 0 5 ?b = sub_bytes 0 5 buf" using sl by (intro keep) simp
    with step IH own rest show ?thesis by auto
  qed
qed auto


lemma update_fresh: "k \<notin> fst ` set m \<Longrightarrow> AList.update k v m = m @ [(k, v)]"
  by (induction m) auto

lemma decode_exts_slots:
  assumes "slots_ok exts (length buf)" and "length buf < 2 ^ 16" and "distinct (map ext_Name exts)"
    and "fst ` set m \<inter> ext_Name ` set exts = {}"
  shows "decode_exts exts buf m =
           Inr (m @ map (\<lambda>e. (ext_Name e, sub_bytes (slot_lo e) (unat (ext_RecordSize e)) buf))
                     (filter (\<lambda>e. ext_RecordSize e \<noteq> 0) exts))"
  using assms
proof (induction exts arbitrary: m)
  case (Cons e es)
  have ok: "slots_ok es (length buf)" using Cons.prems(1) by (auto simp: slots_ok_def)
  show ?case
  proof (cases "ext_RecordSize e = 0")
    case True
    with Cons.IH [OF ok, of m] Cons.prems show ?thesis by auto
  next
    case False
    then have sl: "slot_hi e \<le> length buf" using Cons.prems(1) by (auto simp: slots_ok_def)
    have hi: "unat (ext_RecordOffset e + ext_RecordSize e) = slot_hi e"
      using sl Cons.prems(2) by (intro slot_hi_word) simp
    let ?d = "sub_bytes (slot_lo e) (unat (ext_RecordSize e)) buf"
    have up: "AList.update (ext_Name e) ?d m = m @ [(ext_Name e, ?d)]"
      using Cons.prems(4) by (intro update_fresh) auto
    have "fst ` set (m @ [(ext_Name e, ?d)]) \<inter> ext_Name ` set es = {}" using Cons.prems(3,4) by auto
    with Cons.IH [OF ok, of "m @ [(ext_Name e, ?d)]"] Cons.prems(2,3) False sl hi up show ?thesis
      by (simp add: Let_def)
  qed
qed simp

text \<open>What a reader sees of a record: an entry for every extension with bytes, zeros where the record had
  none.\<close>

definition seen_record :: "RecordLayout \<Rightarrow> Record \<Rightarrow> Record" where
  "seen_record layout rec =
     rec \<lparr> rec_Ext := map (\<lambda>e. (ext_Name e, slot_data (rec_Ext rec) e))
                        (filter (\<lambda>e. ext_RecordSize e \<noteq> 0) (lay_Extensions layout)) \<rparr>"

abbreviation layout_ok :: "RecordLayout \<Rightarrow> bool" where
  "layout_ok layout \<equiv> slots_ok (lay_Extensions layout) (unat (lay_RecordSize layout)) \<and>
     5 \<le> unat (lay_RecordSize layout) \<and> unat (lay_RecordSize layout) < 2 ^ 16 \<and>
     distinct (map ext_Name (lay_Extensions layout))"

lemma sub_zeros: "k + n \<le> N \<Longrightarrow> sub_bytes k n (zeros N) = zeros n"
  by (simp add: sub_bytes_def zeros_def)

lemma EncodeRecord_ok:
  assumes lay: "layout_ok layout" and fits: "data_fits (rec_Ext rec) (lay_Extensions layout)"
  shows "\<exists>buf. EncodeRecord (unat (lay_RecordSize layout)) layout rec = Inr buf \<and>
           length buf = unat (lay_RecordSize layout) \<and> DecodeRecord buf layout = Inr (seen_record layout rec)"
proof -
  define n where "n = unat (lay_RecordSize layout)"
  define b0 where "b0 = copy_at 4 (enc8 (rec_Flags rec)) (copy_at 0 (enc32 (rec_UID rec)) (zeros n))"
  let ?E = "lay_Extensions layout"
  have n: "5 \<le> n" "n < 2 ^ 16" "length b0 = n" using lay by (simp_all add: n_def b0_def)
  have "\<forall>e \<in> set ?E. ext_RecordSize e \<noteq> 0 \<longrightarrow>
      sub_bytes (slot_lo e) (unat (ext_RecordSize e)) b0 = zeros (unat (ext_RecordSize e))"
  proof (intro ballI impI)
    fix e assume "e \<in> set ?E" "ext_RecordSize e \<noteq> 0"
    then have "5 \<le> slot_lo e" "slot_hi e \<le> n" using lay by (auto simp: slots_ok_def n_def)
    then show "sub_bytes (slot_lo e) (unat (ext_RecordSize e)) b0 = zeros (unat (ext_RecordSize e))"
      by (simp add: b0_def sub_copy_after sub_zeros)
  qed
  moreover have "distinct ?E" using lay by (simp add: distinct_map)
  ultimately obtain buf where enc: "encode_exts ?E (rec_Ext rec) b0 = Inr buf" "length buf = n"
      "sub_bytes 0 5 buf = sub_bytes 0 5 b0"
      "\<forall>e \<in> set ?E. ext_RecordSize e \<noteq> 0 \<longrightarrow>
         sub_bytes (slot_lo e) (unat (ext_RecordSize e)) buf = slot_data (rec_Ext rec) e"
    using encode_exts_ok [of ?E b0 "rec_Ext rec"] lay fits n by (auto simp: n_def)
  have sub: "sub_bytes k m buf = sub_bytes k m b0" if "k + m \<le> 5" for k m
  proof -
    have "sub_bytes k m x = take m (drop k (sub_bytes 0 5 x))" for x
      using that by (simp add: sub_bytes_def drop_take)
    then show ?thesis using enc(3) by simp
  qed
  have uid: "dec32 buf 0 = rec_UID rec"
    using n sub [of 0 4] by (simp add: dec32_def b0_def sub_copy_before le_int_enc sub_copy(1))
  have flags: "dec8 buf 4 = rec_Flags rec"
    using n sub [of 4 1] by (simp add: dec8_def b0_def le_int_enc sub_copy(1))
  have "decode_exts ?E buf [] = Inr (map (\<lambda>e. (ext_Name e, sub_bytes (slot_lo e) (unat (ext_RecordSize e)) buf))
      (filter (\<lambda>e. ext_RecordSize e \<noteq> 0) ?E))"
    using decode_exts_slots [of ?E buf "[]"] lay enc(2) n by (simp add: n_def)
  also have "\<dots> = Inr (rec_Ext (seen_record layout rec))"
    using enc(4) by (simp add: seen_record_def)
  finally have "DecodeRecord buf layout = Inr (seen_record layout rec)"
    using enc(2) n uid flags by (simp add: DecodeRecord_def n_def seen_record_def)
  moreover have "EncodeRecord n layout rec = Inr buf"
    using enc(1) n by (simp add: EncodeRecord_def n_def b0_def)
  ultimately show ?thesis using enc(2) by (auto simp: n_def)
qed


unbundle bit_operations_syntax

section \<open>Whole files\<close>

lemma records_roundtrip:
  assumes lay: "layout_ok layout" and "list_all (\<lambda>r. data_fits (rec_Ext r) (lay_Extensions layout)) recs"
  shows "\<exists>body. encode_records layout recs = Inr body \<and>
           read_records (unat (lay_RecordSize layout)) layout body = Inr (map (seen_record layout) recs)"
  using assms(2)
proof (induction recs)
  case Nil
  then show ?case using lay by (simp add: read_records.simps ReadFull_def)
next
  case (Cons r recs)
  let ?n = "unat (lay_RecordSize layout)"
  obtain body where IH: "encode_records layout recs = Inr body"
      "read_records ?n layout body = Inr (map (seen_record layout) recs)" using Cons by auto
  obtain buf where buf: "EncodeRecord ?n layout r = Inr buf" "length buf = ?n"
      "DecodeRecord buf layout = Inr (seen_record layout r)"
    using EncodeRecord_ok [OF lay] Cons.prems by auto
  have "read_records ?n layout (buf @ body) = Inr (seen_record layout r # map (seen_record layout) recs)"
    using buf IH lay by (subst read_records.simps) (simp add: ReadFull_def)
  with buf IH show ?case by simp
qed

lemma byName_other:
  "k \<notin> ext_Name ` set es \<Longrightarrow> map_of (fold (\<lambda>e. AList.update (ext_Name e) e) es m) k = map_of m k"
  by (induction es arbitrary: m) (auto simp: update_conv')

lemma byName_member:
  "distinct (map ext_Name es) \<Longrightarrow> e \<in> set es \<Longrightarrow>
     map_of (fold (\<lambda>e. AList.update (ext_Name e) e) es m) (ext_Name e) = Some e"
  by (induction es arbitrary: m) (auto simp: byName_other update_conv')

lemma layoutOffsetsMatch_refl: "distinct (map ext_Name es) \<Longrightarrow> layoutOffsetsMatch es es"
  by (simp add: layoutOffsetsMatch_def list_all_iff byName_member)

lemma table_len_same:
  assumes srt: "ext_sorts srt" and layout: "ComputeRecordLayout srt exts = Inr layout"
  shows "table_len (lay_Extensions layout) = table_len exts"
    and "distinct (map ext_Name exts) \<Longrightarrow> distinct (map ext_Name (lay_Extensions layout))"
    and "list_all ext_valid (lay_Extensions layout)"
    and "\<forall>e \<in> set (lay_Extensions layout). \<exists>x \<in> set exts.
           ext_Name e = ext_Name x \<and> ext_RecordSize e = ext_RecordSize x"
proof -
  obtain out where v: "list_all ext_valid exts"
    and out: "assign_offsets RecordMinSize (srt align_less exts) = Inr (lay_RecordSize layout, out)"
    and le: "lay_Extensions layout = srt offset_less out"
    using layout_parts [OF layout] by blast
  note up = assign_unplaced [OF out]
  have m1: "mset (srt align_less exts) = mset exts" and m2: "mset (lay_Extensions layout) = mset out"
    unfolding le by (rule ext_sorts_mset [OF srt])+
  have key: "mset (map f (lay_Extensions layout)) = mset (map f exts)" if "\<And>e. f (unplaced e) = f e" for f
  proof -
    have "map f xs = map f (map unplaced xs)" for xs using that by (simp add: comp_def)
    from this [of out] this [of "srt align_less exts"]
    have "mset (map f out) = mset (map f (srt align_less exts))" unfolding up by metis
    then show ?thesis unfolding mset_map m1 m2 .
  qed
  have "mset (map entry_len (lay_Extensions layout)) = mset (map entry_len exts)"
    by (rule key) (simp add: entry_len_def)
  then show "table_len (lay_Extensions layout) = table_len exts"
    unfolding table_len_def by (metis sum_mset_sum_list)
  have n: "mset (map ext_Name (lay_Extensions layout)) = mset (map ext_Name exts)" by (rule key) simp
  then show "distinct (map ext_Name exts) \<Longrightarrow> distinct (map ext_Name (lay_Extensions layout))"
    using mset_eq_imp_distinct_iff by blast
  have "mset (map ext_valid (lay_Extensions layout)) = mset (map ext_valid exts)"
    by (rule key) (rule ext_valid_unplaced)
  then have "set (map ext_valid (lay_Extensions layout)) = set (map ext_valid exts)" by (rule mset_eq_setD)
  then show "list_all ext_valid (lay_Extensions layout)" using v by (auto simp: list_all_iff)
  let ?k = "\<lambda>e. (ext_Name e, ext_RecordSize e)"
  have "mset (map ?k (lay_Extensions layout)) = mset (map ?k exts)" by (rule key) simp
  then have "set (map ?k (lay_Extensions layout)) = set (map ?k exts)" by (rule mset_eq_setD)
  then have k: "?k ` set (lay_Extensions layout) = ?k ` set exts" unfolding set_map .
  show "\<forall>e \<in> set (lay_Extensions layout). \<exists>x \<in> set exts.
      ext_Name e = ext_Name x \<and> ext_RecordSize e = ext_RecordSize x"
  proof
    fix e assume "e \<in> set (lay_Extensions layout)"
    then have "?k e \<in> ?k ` set exts" unfolding k [symmetric] by (rule imageI)
    then obtain x where "x \<in> set exts" "?k e = ?k x" by (rule imageE)
    then show "\<exists>x \<in> set exts. ext_Name e = ext_Name x \<and> ext_RecordSize e = ext_RecordSize x"
      by (intro bexI [of _ x]) simp_all
  qed
qed


unbundle bit_operations_syntax

lemma entry_wf_valid: "ext_valid e \<Longrightarrow> entry_len e < 2 ^ 32 \<Longrightarrow> entry_wf e"
  using entry_len_bounds(2) [of e] by (auto simp: ext_valid_def ExtNameMaxLength_def)

lemma table_len_member: "e \<in> set es \<Longrightarrow> entry_len e \<le> table_len es"
  by (induction es) auto

lemma table_wf: "list_all ext_valid es \<Longrightarrow> table_len es + 7 < 2 ^ 32 \<Longrightarrow> list_all entry_wf es"
  using table_len_member [of _ es] entry_wf_valid by (fastforce simp: list_all_iff)

lemma data_fits_same:
  assumes "\<forall>e \<in> set es'. \<exists>x \<in> set es. ext_Name e = ext_Name x \<and> ext_RecordSize e = ext_RecordSize x"
    and "data_fits m es"
  shows "data_fits m es'"
  unfolding data_fits_def
proof (intro ballI impI)
  fix e assume e: "e \<in> set es'" "ext_RecordSize e \<noteq> 0"
  then obtain x where x: "x \<in> set es" "ext_Name e = ext_Name x" "ext_RecordSize e = ext_RecordSize x"
    using assms(1) by blast
  then have "slot_data m e = slot_data m x" unfolding slot_data_def x(2,3) by simp
  with x e assms(2) show "length (slot_data m e) = unat (ext_RecordSize e)" by (simp add: data_fits_def)
qed

lemma computed_layout_ok:
  assumes srt: "ext_sorts srt" and dist: "distinct (map ext_Name exts)"
    and layout: "ComputeRecordLayout srt exts = Inr layout" and small: "unat (lay_RecordSize layout) < 2 ^ 16"
  shows "layout_ok layout"
  using layout_slots [OF srt dist layout] table_len_same(2) [OF srt layout dist] small by blast

lemma read_layout_same:
  assumes srt: "ext_sorts srt" and dist: "distinct (map ext_Name exts)"
    and layout: "ComputeRecordLayout srt exts = Inr layout" and "hd_RecordSize hdr = lay_RecordSize layout"
  shows "read_layout srt hdr (lay_Extensions layout) = Inr layout"
  using layout_again [OF srt dist layout] layoutOffsetsMatch_refl table_len_same(2) [OF srt layout dist] assms(4)
  by (simp add: read_layout_def)

text \<open>C23. Rewriting an index file and reading it back loses nothing: if \<^verbatim>\<open>Recreate\<close> accepts the header, the
  extensions and the records, then reading the bytes it wrote gives the same header, the extensions
  with the offsets the layout assigned, and every record with its UID, its flags and its extension
  bytes, zeros standing for the bytes a record did not have.  The names of the extensions are distinct
  and the record fits the 16-bit offsets.\<close>

theorem Recreate_Read_roundtrip:
  assumes srt: "ext_sorts srt" and dist: "distinct (map ext_Name exts)"
    and ok: "recreate_bytes srt hdr exts recs = Inr bytes"
    and hdr: "header_wf hdr" "hd_BaseHeaderSize hdr = 120"
    and bounds: "table_len exts < 2 ^ 31" "unat (hd_RecordSize hdr) < 2 ^ 16"
    and fits: "\<forall>r \<in> set recs. data_fits (rec_Ext r) exts"
  shows "\<exists>layout. ComputeRecordLayout srt exts = Inr layout \<and>
           read_file srt bytes = Some (Inr \<lparr> fl_Header = hdr, fl_Extensions = lay_Extensions layout,
             fl_Records = map (seen_record layout) recs, fl_Layout = layout \<rparr>)"
proof -
  obtain layout where layout: "ComputeRecordLayout srt exts = Inr layout"
    using ok unfolding recreate_bytes_def sum_case_Inr_iff by blast
  let ?E = "lay_Extensions layout"
  have tl: "table_len ?E = table_len exts" by (rule table_len_same(1) [OF srt layout])
  have wf: "list_all entry_wf ?E"
    using table_wf [OF table_len_same(3) [OF srt layout]] tl bounds(1) by simp
  have enc: "EncodeExtHeaders ?E = Inr (table_bytes ?E)"
    using EncodeExtHeaders_bytes [OF _ wf] tl bounds(1) by simp
  note ok' = ok [unfolded recreate_bytes_def layout sum.case enc if_Inl_iff sum_case_Inr_iff]
  have rs: "hd_RecordSize hdr = lay_RecordSize layout"
    and hs: "hd_HeaderSize hdr = of_nat HeaderMinSize + of_nat (length (table_bytes ?E))" using ok' by simp_all
  have lay: "layout_ok layout" using computed_layout_ok [OF srt dist layout] bounds(2) rs by simp
  have "list_all (\<lambda>r. data_fits (rec_Ext r) ?E) recs"
    using fits data_fits_same [OF table_len_same(4) [OF srt layout]] by (simp add: list_all_iff)
  from records_roundtrip [OF lay this] obtain body where body: "encode_records layout recs = Inr body"
    "read_records (unat (lay_RecordSize layout)) layout body = Inr (map (seen_record layout) recs)" by blast
  have pos: "0 < lay_RecordSize layout" using lay by (simp add: word_less_nat_alt)
  have "(if lay_RecordSize layout > 0 \<and> recs \<noteq> [] then encode_records layout recs else Inr []) = Inr body"
    using body(1) pos by (cases recs) simp_all
  with ok' have bytes: "bytes = Header_EncodeBytes hdr @ table_bytes ?E @ body" by simp
  have rb: "read_body srt hdr ?E body = Inr \<lparr> fl_Header = hdr, fl_Extensions = ?E,
      fl_Records = map (seen_record layout) recs, fl_Layout = layout \<rparr>"
    using read_layout_same [OF srt dist layout rs] body(2) rs pos by (simp add: read_body_def)
  let ?L = "table_len exts"
  have hs': "hd_HeaderSize hdr = of_nat (120 + ?L)" using hs tl by (simp add: HeaderMinSize_def)
  have el: "hd_HeaderSize hdr - ucast (hd_BaseHeaderSize hdr) = of_nat ?L" unfolding hs' hdr(2) by simp
  have le: "\<not> hd_HeaderSize hdr < ucast (hd_BaseHeaderSize hdr)"
    using not_below [of 120 "120 + ?L"] bounds(1) unfolding hs' hdr(2) by (simp del: of_nat_add)
  have ul: "unat (of_nat ?L :: uint32) = ?L" using bounds(1) by (intro unat_small) simp
  have zero: "(0 :: uint32) < of_nat ?L \<longleftrightarrow> ?E \<noteq> []"
    using of_nat_less_small [of 0 ?L] bounds(1) table_len_pos [of ?E] tl by auto
  have dec: "DecodeExtHeaders (table_bytes ?E) = Some (Inr ?E)"
    using ext_table_roundtrip [OF _ wf] tl bounds(1) by simp
  have "read_file srt bytes = Some (read_body srt hdr ?E body)"
    unfolding read_file_def bytes using header_roundtrip [OF hdr(1)] le dec ul tl zero
    by (cases "?E = []") (simp_all add: ReadFull_def el Let_def)
  with rb layout show ?thesis by simp
qed

text \<open>An insertion sort meets the contract of \<^verbatim>\<open>sort.Slice\<close>.\<close>

fun insert_by :: "('a \<Rightarrow> 'a \<Rightarrow> bool) \<Rightarrow> 'a \<Rightarrow> 'a list \<Rightarrow> 'a list" where
  "insert_by lt x [] = [x]"
| "insert_by lt x (y # ys) = (if lt y x then y # insert_by lt x ys else x # y # ys)"

fun isort_by :: "('a \<Rightarrow> 'a \<Rightarrow> bool) \<Rightarrow> 'a list \<Rightarrow> 'a list" where
  "isort_by lt [] = []"
| "isort_by lt (x # xs) = insert_by lt x (isort_by lt xs)"

lemma mset_insert_by [simp]: "mset (insert_by lt x ys) = add_mset x (mset ys)"
  by (induction ys) auto

lemma set_insert_by [simp]: "set (insert_by lt x ys) = insert x (set ys)"
  by (induction ys) auto

lemma sorted_insert_by:
  assumes "weak_order lt" and "sorted_wrt (\<lambda>a b. \<not> lt b a) ys"
  shows "sorted_wrt (\<lambda>a b. \<not> lt b a) (insert_by lt x ys)"
  using assms(2)
proof (induction ys)
  case (Cons y ys)
  have irr: "\<And>a. \<not> lt a a" and tr: "\<And>a b c. lt a b \<Longrightarrow> lt b c \<Longrightarrow> lt a c"
    and ntr: "\<And>a b c. \<not> lt a b \<Longrightarrow> \<not> lt b c \<Longrightarrow> \<not> lt a c"
    using assms(1) unfolding weak_order_def by blast+
  show ?case
  proof (cases "lt y x")
    case True
    then have "\<not> lt x y" using irr tr by blast
    with True Cons show ?thesis by simp
  next
    case False
    then have "\<forall>b \<in> set ys. \<not> lt b x" using Cons.prems ntr by simp blast
    with False Cons.prems show ?thesis by simp
  qed
qed simp

lemma isort_by_ext_sorts: "ext_sorts isort_by"
proof -
  have "mset (isort_by lt xs) = mset xs" for lt :: "Extension \<Rightarrow> Extension \<Rightarrow> bool" and xs
    by (induction xs) simp_all
  moreover have "weak_order lt \<Longrightarrow> sorted_wrt (\<lambda>a b. \<not> lt b a) (isort_by lt xs)"
    for lt :: "Extension \<Rightarrow> Extension \<Rightarrow> bool" and xs
    by (induction xs) (simp_all add: sorted_insert_by)
  ultimately show ?thesis by (simp add: ext_sorts_def)
qed

theorem Recreate_Read_roundtrip_witness:
  "\<exists>bytes layout. read_file isort_by bytes = Some (Inr
     \<lparr> fl_Header = (NewHeader 77) \<lparr> hd_RecordSize := 12, hd_HeaderSize := 152 \<rparr>,
       fl_Extensions = [\<lparr> ext_Name = ''map'', ext_HdrSize = 2, ext_RecordSize = 4, ext_RecordAlign = 4,
         ext_ResetID = 1, ext_RecordOffset = 8, ext_HdrData = ''ab'' \<rparr>],
       fl_Records = [\<lparr> rec_UID = 7, rec_Flags = 8, rec_Ext = [(''map'', ''wxyz'')] \<rparr>,
                     \<lparr> rec_UID = 9, rec_Flags = 0, rec_Ext = [(''map'', zeros 4)] \<rparr>],
       fl_Layout = layout \<rparr>)"
proof -
  define e where "e = \<lparr> ext_Name = ''map'', ext_HdrSize = 2, ext_RecordSize = 4, ext_RecordAlign = 4,
    ext_ResetID = 1, ext_RecordOffset = 0, ext_HdrData = ''ab'' \<rparr>"
  define hdr where "hdr = (NewHeader 77) \<lparr> hd_RecordSize := 12, hd_HeaderSize := 152 \<rparr>"
  define recs :: "Record list" where
    "recs = [\<lparr> rec_UID = 7, rec_Flags = 8, rec_Ext = [(''map'', ''wxyz'')] \<rparr>,
             \<lparr> rec_UID = 9, rec_Flags = 0, rec_Ext = [] \<rparr>]"
  define lay where "lay = \<lparr> lay_RecordSize = 12, lay_Extensions = [e \<lparr> ext_RecordOffset := 8 \<rparr>] \<rparr>"
  have l: "ComputeRecordLayout isort_by [e] = Inr lay"
    by (simp add: ComputeRecordLayout_def e_def lay_def ext_valid_def ExtNameMaxLength_def RecordMinSize_def
        align_pos_def Let_def)
  have t: "table_len [e] = 32" "table_len (lay_Extensions lay) = 32"
    by (simp_all add: table_len_def entry_len_def e_def lay_def align8_def)
  have f: "\<forall>r \<in> set recs. data_fits (rec_Ext r) [e]"
    by (simp add: recs_def data_fits_def slot_data_def e_def)
  have f': "list_all (\<lambda>r. data_fits (rec_Ext r) (lay_Extensions lay)) recs"
    by (simp add: recs_def data_fits_def slot_data_def e_def lay_def)
  have lo: "layout_ok lay" using computed_layout_ok [OF isort_by_ext_sorts _ l] by (simp add: lay_def)
  have enc: "EncodeExtHeaders (lay_Extensions lay) = Inr (table_bytes (lay_Extensions lay))"
    using EncodeExtHeaders_bytes [of "lay_Extensions lay"] t by (simp add: lay_def e_def)
  obtain body where "encode_records lay recs = Inr body" using records_roundtrip [OF lo f'] by blast
  moreover have "lay_RecordSize lay = hd_RecordSize hdr" "recs \<noteq> []" "0 < lay_RecordSize lay"
    "hd_HeaderSize hdr = of_nat HeaderMinSize + of_nat (length (table_bytes (lay_Extensions lay)))"
    using t by (simp_all add: lay_def hdr_def recs_def HeaderMinSize_def)
  ultimately obtain bytes where b: "recreate_bytes isort_by hdr [e] recs = Inr bytes"
    unfolding recreate_bytes_def l sum.case enc by simp
  have "\<exists>layout. ComputeRecordLayout isort_by [e] = Inr layout \<and>
      read_file isort_by bytes = Some (Inr \<lparr> fl_Header = hdr, fl_Extensions = lay_Extensions layout,
        fl_Records = map (seen_record layout) recs, fl_Layout = layout \<rparr>)"
    using Recreate_Read_roundtrip [OF isort_by_ext_sorts _ b _ _ _ _ f] t
    by (simp add: hdr_def NewHeader_def HeaderMinSize_def CompatLittleEndian_def)
  then have "read_file isort_by bytes = Some (Inr \<lparr> fl_Header = hdr, fl_Extensions = lay_Extensions lay,
        fl_Records = map (seen_record lay) recs, fl_Layout = lay \<rparr>)" using l by simp
  then show ?thesis
    by (intro exI [of _ bytes] exI [of _ lay])
      (simp add: lay_def e_def hdr_def recs_def seen_record_def slot_data_def)
qed


section \<open>Files in memory\<close>

text \<open>What \<^verbatim>\<open>Recreate\<close> checks of a file in memory: the header's sizes are those of its table.\<close>

definition file_ok :: "ext_sort \<Rightarrow> File \<Rightarrow> bool" where
  "file_ok srt f \<longleftrightarrow>
     distinct (map ext_Name (fl_Extensions f)) \<and>
     ComputeRecordLayout srt (fl_Extensions f) = Inr (fl_Layout f) \<and>
     lay_Extensions (fl_Layout f) = fl_Extensions f \<and>
     hd_RecordSize (fl_Header f) = lay_RecordSize (fl_Layout f) \<and>
     (\<exists>b. EncodeExtHeaders (fl_Extensions f) = Inr b \<and>
          hd_HeaderSize (fl_Header f) = of_nat HeaderMinSize + of_nat (length b))"

lemma NewFile_ok:
  assumes "ext_sorts srt" and "distinct (map ext_Name exts)" and "NewFile srt indexID exts = Inr f"
  shows "file_ok srt f"
proof -
  from assms(3) obtain layout b where l: "ComputeRecordLayout srt exts = Inr layout"
    and b: "EncodeExtHeaders (lay_Extensions layout) = Inr b"
    and f: "f = \<lparr> fl_Header = (NewHeader indexID) \<lparr> hd_RecordSize := lay_RecordSize layout,
                   hd_HeaderSize := of_nat HeaderMinSize + of_nat (length b) \<rparr>,
                 fl_Extensions = lay_Extensions layout, fl_Records = [], fl_Layout = layout \<rparr>"
    unfolding NewFile_def sum_case_Inr_iff by auto
  show ?thesis
    using layout_again [OF assms(1,2) l] table_len_same(2) [OF assms(1) l assms(2)] b f
    by (simp add: file_ok_def)
qed

lemma file_ok_recreate:
  assumes srt: "ext_sorts srt" and ok: "file_ok srt f" and small: "unat (hd_RecordSize (fl_Header f)) < 2 ^ 16"
    and fits: "\<forall>r \<in> set (fl_Records f). data_fits (rec_Ext r) (fl_Extensions f)"
  shows "\<exists>b. recreate_bytes srt (fl_Header f) (fl_Extensions f) (fl_Records f) = Inr b"
proof -
  from ok have l: "ComputeRecordLayout srt (fl_Extensions f) = Inr (fl_Layout f)"
    and le: "lay_Extensions (fl_Layout f) = fl_Extensions f" by (simp_all add: file_ok_def)
  have "layout_ok (fl_Layout f)"
    using computed_layout_ok [OF srt _ l] ok small by (simp add: file_ok_def)
  from records_roundtrip [OF this, of "fl_Records f"] fits obtain body
    where "encode_records (fl_Layout f) (fl_Records f) = Inr body" by (auto simp: list_all_iff le)
  with l le ok show ?thesis by (auto simp: recreate_bytes_def file_ok_def)
qed

text \<open>The records of a file fit the table it has after an extension they know nothing of is added.\<close>

lemma addExtension_fits:
  assumes srt: "ext_sorts srt"
    and fits: "data_fits m (fl_Extensions f)"
    and new: "map_of m name = None \<or> name \<in> ext_Name ` set (fl_Extensions f)"
    and add: "addExtension srt name hdrData recordSize recordAlign resetID f = Inr f'"
  shows "data_fits m (fl_Extensions f')"
proof (cases "\<exists>e \<in> set (fl_Extensions f). ext_Name e = name")
  case True
  with add fits show ?thesis by (simp add: addExtension_def)
next
  case False
  define e where "e = \<lparr> ext_Name = name, ext_HdrSize = of_nat (length hdrData), ext_RecordSize = recordSize,
       ext_RecordAlign = recordAlign, ext_ResetID = resetID, ext_RecordOffset = 0, ext_HdrData = hdrData \<rparr>"
  from add False obtain layout where l: "ComputeRecordLayout srt (fl_Extensions f @ [e]) = Inr layout"
    and f': "fl_Extensions f' = lay_Extensions layout"
    unfolding addExtension_def e_def [symmetric] Let_def if_not_P [OF False] sum_case_Inr_iff by auto
  have "map_of m name = None" using new False by auto
  then have "data_fits m (fl_Extensions f @ [e])"
    using fits by (auto simp: data_fits_def slot_data_def e_def)
  from data_fits_same [OF table_len_same(4) [OF srt l] this] show ?thesis by (simp add: f')
qed

lemma addExtension_ok:
  assumes srt: "ext_sorts srt" and f: "file_ok srt f"
    and add: "addExtension srt name hdrData recordSize recordAlign resetID f = Inr f'"
  shows "file_ok srt f'"
proof (cases "\<exists>e \<in> set (fl_Extensions f). ext_Name e = name")
  case True
  with add f show ?thesis by (simp add: addExtension_def)
next
  case False
  define exts where "exts = fl_Extensions f @
    [\<lparr> ext_Name = name, ext_HdrSize = of_nat (length hdrData), ext_RecordSize = recordSize,
       ext_RecordAlign = recordAlign, ext_ResetID = resetID, ext_RecordOffset = 0, ext_HdrData = hdrData \<rparr>]"
  have d: "distinct (map ext_Name exts)" using False f by (auto simp: exts_def file_ok_def)
  from add False obtain layout b where l: "ComputeRecordLayout srt exts = Inr layout"
    and b: "EncodeExtHeaders (lay_Extensions layout) = Inr b"
    and f': "f' = f \<lparr> fl_Extensions := lay_Extensions layout, fl_Layout := layout,
        fl_Header := (fl_Header f) \<lparr> hd_RecordSize := lay_RecordSize layout,
          hd_HeaderSize := of_nat HeaderMinSize + of_nat (length b) \<rparr> \<rparr>"
    unfolding addExtension_def exts_def [symmetric] Let_def if_not_P [OF False] sum_case_Inr_iff by auto
  show ?thesis
    using layout_again [OF srt d l] table_len_same(2) [OF srt l d] b by (simp add: f' file_ok_def)
qed

text \<open>C34. Backfilling an extension keeps an index writable.  Take any file in memory whose header sizes are those
  of its table, as they are in every file \<^verbatim>\<open>NewFile\<close> makes, with any records that fit its table and hold no
  bytes under the new name.  When an extension is added to it, the file has the header sizes its new table
  needs, it has the same records, and \<^verbatim>\<open>Recreate\<close> accepts it with these records, as long as the new record
  size still fits the 16-bit offsets.\<close>

theorem addExtension_keeps_writable:
  assumes "ext_sorts srt" and "file_ok srt f"
    and "\<forall>r \<in> set (fl_Records f). data_fits (rec_Ext r) (fl_Extensions f) \<and>
           (map_of (rec_Ext r) name = None \<or> name \<in> ext_Name ` set (fl_Extensions f))"
    and "addExtension srt name hdrData recordSize recordAlign resetID f = Inr f'"
    and "unat (hd_RecordSize (fl_Header f')) < 2 ^ 16"
  shows "file_ok srt f' \<and> fl_Records f' = fl_Records f \<and>
         (\<exists>b. recreate_bytes srt (fl_Header f') (fl_Extensions f') (fl_Records f') = Inr b) \<and>
         (\<forall>indexID exts g. distinct (map ext_Name exts) \<longrightarrow> NewFile srt indexID exts = Inr g \<longrightarrow> file_ok srt g)"
proof -
  have ok: "file_ok srt f'" by (rule addExtension_ok [OF assms(1,2,4)])
  have recs: "fl_Records f' = fl_Records f"
    using assms(4) by (auto simp: addExtension_def Let_def sum_case_Inr_iff split: if_splits)
  have "\<forall>r \<in> set (fl_Records f'). data_fits (rec_Ext r) (fl_Extensions f')"
    using addExtension_fits [OF assms(1) _ _ assms(4)] assms(3) by (simp add: recs)
  from file_ok_recreate [OF assms(1) ok assms(5) this] ok recs NewFile_ok [OF assms(1)] show ?thesis by blast
qed

text \<open>A file with one extension and one record that has bytes under it gets a second extension.\<close>

definition demo_ext :: "string \<Rightarrow> uint16 \<Rightarrow> Extension" where
  "demo_ext name off = \<lparr> ext_Name = name, ext_HdrSize = 3, ext_RecordSize = 4, ext_RecordAlign = 4,
    ext_ResetID = 1, ext_RecordOffset = off, ext_HdrData = ''hdr'' \<rparr>"

definition demo_file :: File where
  "demo_file = \<lparr> fl_Header = (NewHeader 5) \<lparr> hd_RecordSize := 12, hd_HeaderSize := 152 \<rparr>,
    fl_Extensions = [demo_ext ''map'' 8],
    fl_Records = [\<lparr> rec_UID = 7, rec_Flags = 8, rec_Ext = [(''map'', ''wxyz'')] \<rparr>],
    fl_Layout = \<lparr> lay_RecordSize = 12, lay_Extensions = [demo_ext ''map'' 8] \<rparr> \<rparr>"

lemma demo_layouts:
  "ComputeRecordLayout isort_by [demo_ext ''map'' 8] =
     Inr \<lparr> lay_RecordSize = 12, lay_Extensions = [demo_ext ''map'' 8] \<rparr>"
  "ComputeRecordLayout isort_by [demo_ext ''map'' 8, demo_ext ''vsize'' 0] =
     Inr \<lparr> lay_RecordSize = 16, lay_Extensions = [demo_ext ''map'' 8, demo_ext ''vsize'' 12] \<rparr>"
  by (simp_all add: ComputeRecordLayout_def demo_ext_def ext_valid_def ExtNameMaxLength_def RecordMinSize_def
      align_pos_def align_less_def offset_less_def Let_def)

lemma demo_tables:
  "EncodeExtHeaders [demo_ext ''map'' 8] = Inr (table_bytes [demo_ext ''map'' 8])"
  "EncodeExtHeaders [demo_ext ''map'' 8, demo_ext ''vsize'' 12] =
     Inr (table_bytes [demo_ext ''map'' 8, demo_ext ''vsize'' 12])"
  by (rule EncodeExtHeaders_bytes; simp add: demo_ext_def entry_len_def align8_def)+

lemma demo_len: "entry_len (demo_ext ''map'' 8) = 32"
  by (simp add: demo_ext_def entry_len_def align8_def)

theorem addExtension_keeps_writable_witness:
  "\<exists>f' b. addExtension isort_by ''vsize'' ''hdr'' 4 4 1 demo_file = Inr f' \<and> fl_Records demo_file \<noteq> [] \<and>
     fl_Records f' = fl_Records demo_file \<and>
     recreate_bytes isort_by (fl_Header f') (fl_Extensions f') (fl_Records f') = Inr b"
proof -
  have ok: "file_ok isort_by demo_file"
    by (simp add: file_ok_def demo_file_def demo_layouts demo_tables demo_len HeaderMinSize_def)
  have none: "\<not> (\<exists>e \<in> set (fl_Extensions demo_file). ext_Name e = ''vsize'')"
    by (simp add: demo_file_def demo_ext_def)
  have exts: "fl_Extensions demo_file @ [\<lparr> ext_Name = ''vsize'', ext_HdrSize = of_nat (length ''hdr''),
      ext_RecordSize = 4, ext_RecordAlign = 4, ext_ResetID = 1, ext_RecordOffset = 0, ext_HdrData = ''hdr'' \<rparr>] =
    [demo_ext ''map'' 8, demo_ext ''vsize'' 0]"
    by (simp add: demo_file_def demo_ext_def)
  obtain f' where f': "addExtension isort_by ''vsize'' ''hdr'' 4 4 1 demo_file = Inr f'"
    and n: "hd_RecordSize (fl_Header f') = 16"
    unfolding addExtension_def Let_def if_not_P [OF none] exts demo_layouts sum.case RecordLayout.simps demo_tables
    by simp
  have "data_fits [(''map'', ''wxyz'')] [demo_ext ''map'' 8]"
    by (simp add: data_fits_def slot_data_def demo_ext_def)
  then show ?thesis
    using addExtension_keeps_writable [OF isort_by_ext_sorts ok _ f'] f' n by (auto simp: demo_file_def)
qed

text \<open>The layout checks that a slot starts below 64 KiB, not that it ends there: with one extension of 65535
  bytes the layout is accepted, the end of its slot wraps in 16 bits and encoding a record panics.\<close>

lemma ext_sorts_single: "ext_sorts srt \<Longrightarrow> srt lt [e] = [e]"
  using ext_sorts_mset [of srt lt "[e]"] by simp

lemma wide_slot_panics:
  assumes "ext_sorts srt" and e: "e = \<lparr> ext_Name = ''x'', ext_HdrSize = 0, ext_RecordSize = 0xFFFF,
    ext_RecordAlign = 1, ext_ResetID = 0, ext_RecordOffset = 0, ext_HdrData = [] \<rparr>"
    and d: "length d = 0xFFFF"
  shows "\<exists>layout. ComputeRecordLayout srt [e] = Inr layout \<and>
    EncodeRecord (unat (lay_RecordSize layout)) layout \<lparr> rec_UID = 1, rec_Flags = 0, rec_Ext = [(''x'', d)] \<rparr> =
      Inl Panic"
proof -
  have "ComputeRecordLayout srt [e] =
      Inr \<lparr> lay_RecordSize = 0x10004, lay_Extensions = [e \<lparr> ext_RecordOffset := 5 \<rparr>] \<rparr>"
    by (simp add: ComputeRecordLayout_def ext_sorts_single [OF assms(1)] e ext_valid_def ExtNameMaxLength_def
        RecordMinSize_def align_pos_def Let_def)
  moreover have "d \<noteq> []" using d by auto
  ultimately show ?thesis using d by (auto simp: EncodeRecord_def e Let_def)
qed

end
