(* ===== verification/Index_Recreate.thy ===== *)
theory Index_Recreate
  imports Mail_Index
begin

text \<open>
  \<^verbatim>\<open>Recreate\<close> and \<^verbatim>\<open>copyTmp\<close> of \<^verbatim>\<open>internal/storage/mailindex/sync.go\<close> on a file system that can fail:
  every call takes the next fault of a script, which lets it succeed, return an error after part of
  its effect, or stops the process before or after it; a call the state of the directory does not allow
  (a link to a name that is taken, a rename of a file that is gone) fails of itself.  A file is its bytes;
  a hard link copies them, since no file of this package is written in place once it has its name.  What
  dies is the process and not the machine: the files are those the calls have made, so \<^verbatim>\<open>Sync\<close> changes
  nothing, and a loss of power, which could drop writes that were not synced, is not modelled.
\<close>

section \<open>A file system with faults\<close>

type_synonym files = "(string, string) gomap"

datatype fault = Good | Fails nat | CrashBefore | CrashAfter nat

datatype fs_op =
    OpenTrunc string
  | Append string string
  | OpenRead string
  | CopyFile string string
  | SyncFile string
  | CloseFile string
  | Remove string
  | Stat string
  | Link string string
  | Rename string string

datatype outcome = Done | Failed | Crashed

fun op_effect :: "fs_op \<Rightarrow> files \<Rightarrow> files" where
  "op_effect (OpenTrunc p) fs = AList.update p [] fs"
| "op_effect (Append p bs) fs = (case map_of fs p of None \<Rightarrow> fs | Some s \<Rightarrow> AList.update p (s @ bs) fs)"
| "op_effect (OpenRead p) fs = fs"
| "op_effect (CopyFile a b) fs =
    (case map_of fs b of
       None \<Rightarrow> fs
     | Some s \<Rightarrow> AList.update b (s @ (case map_of fs a of None \<Rightarrow> [] | Some t \<Rightarrow> t)) fs)"
| "op_effect (SyncFile p) fs = fs"
| "op_effect (CloseFile p) fs = fs"
| "op_effect (Remove p) fs = AList.delete p fs"
| "op_effect (Stat p) fs = fs"
| "op_effect (Link a b) fs = (case map_of fs a of None \<Rightarrow> fs | Some s \<Rightarrow> AList.update b s fs)"
| "op_effect (Rename a b) fs = (case map_of fs a of None \<Rightarrow> fs | Some s \<Rightarrow> AList.update b s (AList.delete a fs))"

text \<open>What the state of the directory refuses: a file that is not there, and \<^verbatim>\<open>EEXIST\<close> for the new name of a link.\<close>

fun refused :: "fs_op \<Rightarrow> files \<Rightarrow> bool" where
  "refused (OpenRead p) fs \<longleftrightarrow> map_of fs p = None"
| "refused (Stat p) fs \<longleftrightarrow> map_of fs p = None"
| "refused (Remove p) fs \<longleftrightarrow> map_of fs p = None"
| "refused (Link a b) fs \<longleftrightarrow> map_of fs a = None \<or> map_of fs b \<noteq> None"
| "refused (Rename a b) fs \<longleftrightarrow> map_of fs a = None"
| "refused _ fs \<longleftrightarrow> False"

definition attempt :: "fs_op \<Rightarrow> files \<Rightarrow> outcome \<times> files" where
  "attempt c fs = (if refused c fs then (Failed, fs) else (Done, op_effect c fs))"

text \<open>A write or a copy that fails may have written a part of its bytes; every other failing call does nothing.\<close>

fun partial_effect :: "nat \<Rightarrow> fs_op \<Rightarrow> files \<Rightarrow> files" where
  "partial_effect n (Append p bs) fs = op_effect (Append p (take n bs)) fs"
| "partial_effect n (CopyFile a b) fs =
    op_effect (Append b (take n (case map_of fs a of None \<Rightarrow> [] | Some t \<Rightarrow> t))) fs"
| "partial_effect n _ fs = fs"

fun run_op :: "fs_op \<Rightarrow> files \<times> fault list \<Rightarrow> outcome \<times> files \<times> fault list" where
  "run_op c (fs, []) = (case attempt c fs of (r, fs') \<Rightarrow> (r, fs', []))"
| "run_op c (fs, Good # ft) = (case attempt c fs of (r, fs') \<Rightarrow> (r, fs', ft))"
| "run_op c (fs, Fails n # ft) = (Failed, partial_effect n c fs, ft)"
| "run_op c (fs, CrashBefore # ft) = (Crashed, fs, ft)"
| "run_op c (fs, CrashAfter 0 # ft) = (Crashed, snd (attempt c fs), ft)"
| "run_op c (fs, CrashAfter (Suc n) # ft) = (Crashed, partial_effect n c fs, ft)"

text \<open>A call whose error is ignored, a call whose error runs a clean-up and returns, such a call made only where
  a \<^verbatim>\<open>Stat\<close> of a file has succeeded, and a return with an error after a clean-up.\<close>

datatype fs_step =
    Ignoring fs_op | Must fs_op "fs_op list" | IfStat string fs_op "fs_op list" | Abort "fs_op list"

fun run_ignoring :: "fs_op list \<Rightarrow> files \<times> fault list \<Rightarrow> outcome \<times> files \<times> fault list" where
  "run_ignoring [] st = (Done, st)"
| "run_ignoring (c # cs) st =
    (case run_op c st of
       (Crashed, st') \<Rightarrow> (Crashed, st')
     | (_, st') \<Rightarrow> run_ignoring cs st')"

definition run_must :: "fs_op \<Rightarrow> fs_op list \<Rightarrow> files \<times> fault list \<Rightarrow> outcome \<times> files \<times> fault list" where
  "run_must c cleanup st =
    (case run_op c st of
       (Failed, st') \<Rightarrow>
         (case run_ignoring cleanup st' of
            (Crashed, st'') \<Rightarrow> (Crashed, st'')
          | (_, st'') \<Rightarrow> (Failed, st''))
     | r \<Rightarrow> r)"

fun run_steps :: "fs_step list \<Rightarrow> files \<times> fault list \<Rightarrow> outcome \<times> files \<times> fault list" where
  "run_steps [] st = (Done, st)"
| "run_steps (Ignoring c # ss) st =
    (case run_op c st of
       (Crashed, st') \<Rightarrow> (Crashed, st')
     | (_, st') \<Rightarrow> run_steps ss st')"
| "run_steps (Must c cleanup # ss) st =
    (case run_must c cleanup st of
       (Done, st') \<Rightarrow> run_steps ss st'
     | r \<Rightarrow> r)"
| "run_steps (IfStat p c cleanup # ss) st =
    (case run_op (Stat p) st of
       (Crashed, st') \<Rightarrow> (Crashed, st')
     | (Failed, st') \<Rightarrow> run_steps ss st'
     | (Done, st') \<Rightarrow>
         (case run_must c cleanup st' of
            (Done, st'') \<Rightarrow> run_steps ss st''
          | r \<Rightarrow> r))"
| "run_steps (Abort cleanup # ss) st =
    (case run_ignoring cleanup st of
       (Crashed, st') \<Rightarrow> (Crashed, st')
     | (_, st') \<Rightarrow> (Failed, st'))"

section \<open>Recreate\<close>

record RecreateInput =
  ri_Path :: string
  ri_Header :: Header
  ri_Extensions :: "Extension list"
  ri_Records :: "Record list"
  ri_KeepBackup :: bool
  ri_Fsync :: bool
  ri_TmpDir :: string

text \<open>The record buffers in order, and the error at the first record that does not encode.\<close>

fun record_parts :: "RecordLayout \<Rightarrow> Record list \<Rightarrow> string list \<times> mi_error option" where
  "record_parts layout [] = ([], None)"
| "record_parts layout (r # rs) =
    (case EncodeRecord (unat (lay_RecordSize layout)) layout r of
       Inl x \<Rightarrow> ([], Some x)
     | Inr buf \<Rightarrow> (case record_parts layout rs of (cs, e) \<Rightarrow> (buf # cs, e)))"

text \<open>\<^verbatim>\<open>copyTmp\<close>, and the caller's removal of \<open>src\<close> where it returns an error.\<close>

definition copyTmp :: "string \<Rightarrow> string \<Rightarrow> bool \<Rightarrow> fs_step list" where
  "copyTmp src dst fsync =
    [Must (OpenRead src) [Remove src], Must (OpenTrunc dst) [Remove src],
     Must (CopyFile src dst) [CloseFile dst, Remove dst, Remove src]] @
    (if fsync then [Must (SyncFile dst) [CloseFile dst, Remove dst, Remove src]] else []) @
    [Must (CloseFile dst) [Remove src]]"

text \<open>The temporary file: header, table if there is one, every record; then the error of a record that
  does not encode, or the flush and the close.\<close>

definition write_tmp :: "string \<Rightarrow> bool \<Rightarrow> string list \<Rightarrow> mi_error option \<Rightarrow> fs_step list" where
  "write_tmp tmpPath fsync cs e =
    [Must (OpenTrunc tmpPath) []] @
    map (\<lambda>c. Must (Append tmpPath c) [CloseFile tmpPath, Remove tmpPath]) cs @
    (case e of
       None \<Rightarrow> []
     | Some Panic \<Rightarrow> [Abort []]
     | Some _ \<Rightarrow> [Abort [CloseFile tmpPath, Remove tmpPath]]) @
    (if fsync then [Must (SyncFile tmpPath) [CloseFile tmpPath, Remove tmpPath]] else []) @
    [Must (CloseFile tmpPath) [Remove tmpPath]]"

definition commit_tmp :: "RecreateInput \<Rightarrow> string \<Rightarrow> string \<Rightarrow> fs_step list" where
  "commit_tmp inp tmpPath stagePath =
    (let commitPath = (if ri_TmpDir inp \<noteq> [] then stagePath else tmpPath);
         backupPath = ri_Path inp @ ''.backup''
     in (if ri_TmpDir inp \<noteq> []
         then copyTmp tmpPath stagePath (ri_Fsync inp) @ [Ignoring (Remove tmpPath)] else []) @
        (if ri_KeepBackup inp
         then [Ignoring (Remove backupPath),
               IfStat (ri_Path inp) (Link (ri_Path inp) backupPath) [Remove commitPath]]
         else []))"

text \<open>\<^verbatim>\<open>Recreate\<close>.  \<open>joined\<close> is the path \<^verbatim>\<open>filepath.Join\<close> gives in the temporary directory; \<open>pid\<close>, \<open>seq\<close> and
  \<open>seq'\<close> are the process number and the values of the counter \<^verbatim>\<open>tmpSeq\<close>.\<close>

definition tmp_path :: "RecreateInput \<Rightarrow> (string \<Rightarrow> string) \<Rightarrow> nat \<Rightarrow> nat \<Rightarrow> string" where
  "tmp_path inp joined pid seq =
    (let suffix = ''.tmp.'' @ itoa pid @ ''.'' @ itoa seq
     in if ri_TmpDir inp \<noteq> [] then joined suffix else ri_Path inp @ suffix)"

definition stage_path :: "RecreateInput \<Rightarrow> nat \<Rightarrow> nat \<Rightarrow> string" where
  "stage_path inp pid seq' = ri_Path inp @ ''.stage.'' @ itoa pid @ ''.'' @ itoa seq'"

definition Recreate ::
  "ext_sort \<Rightarrow> (string \<Rightarrow> string) \<Rightarrow> nat \<Rightarrow> nat \<Rightarrow> nat \<Rightarrow> RecreateInput \<Rightarrow> files \<times> fault list \<Rightarrow>
     outcome \<times> files \<times> fault list" where
  "Recreate srt joined pid seq seq' inp st =
    (if ri_Path inp = [] then (Failed, st)
     else
       (case ComputeRecordLayout srt (ri_Extensions inp) of
          Inl x \<Rightarrow> (Failed, st)
        | Inr layout \<Rightarrow>
            if lay_RecordSize layout \<noteq> hd_RecordSize (ri_Header inp) then (Failed, st)
            else
              (case EncodeExtHeaders (lay_Extensions layout) of
                 Inl x \<Rightarrow> (Failed, st)
               | Inr extBytes \<Rightarrow>
                   if hd_HeaderSize (ri_Header inp) \<noteq> of_nat HeaderMinSize + of_nat (length extBytes)
                   then (Failed, st)
                   else
                     let tmpPath = tmp_path inp joined pid seq;
                         stagePath = stage_path inp pid seq';
                         commitPath = (if ri_TmpDir inp \<noteq> [] then stagePath else tmpPath);
                         (recs, e) = (if lay_RecordSize layout > 0 \<and> ri_Records inp \<noteq> []
                                      then record_parts layout (ri_Records inp) else ([], None))
                     in run_steps
                          (write_tmp tmpPath (ri_Fsync inp)
                             (Header_EncodeBytes (ri_Header inp) #
                              (if length extBytes > 0 then [extBytes] else []) @ recs) e @
                           commit_tmp inp tmpPath stagePath @
                           [Must (Rename commitPath (ri_Path inp)) [Remove commitPath]]) st)))"

section \<open>What a script of faults can change\<close>

fun touches :: "fs_op \<Rightarrow> string set" where
  "touches (OpenTrunc p) = {p}"
| "touches (Append p bs) = {p}"
| "touches (CopyFile a b) = {b}"
| "touches (Remove p) = {p}"
| "touches (Link a b) = {b}"
| "touches (Rename a b) = {a, b}"
| "touches _ = {}"

fun step_touches :: "fs_step \<Rightarrow> string set" where
  "step_touches (Ignoring c) = touches c"
| "step_touches (Must c cs) = touches c \<union> \<Union> (touches ` set cs)"
| "step_touches (IfStat p c cs) = touches c \<union> \<Union> (touches ` set cs)"
| "step_touches (Abort cs) = \<Union> (touches ` set cs)"

lemma op_effect_other: "p \<notin> touches c \<Longrightarrow> map_of (op_effect c fs) p = map_of fs p"
  by (cases c) (auto simp: gomap_simps split: option.splits)

lemma partial_effect_other: "p \<notin> touches c \<Longrightarrow> map_of (partial_effect n c fs) p = map_of fs p"
  by (cases c) (auto simp: gomap_simps split: option.splits)

lemma attempt_other: "p \<notin> touches c \<Longrightarrow> attempt c fs = (r, fs') \<Longrightarrow> map_of fs' p = map_of fs p"
  by (auto simp: attempt_def op_effect_other split: if_splits)

lemma run_op_other: "p \<notin> touches c \<Longrightarrow> run_op c st = (r, fs', ft') \<Longrightarrow> map_of fs' p = map_of (fst st) p"
  by (induction c st rule: run_op.induct)
    (auto simp: partial_effect_other split: prod.splits dest: attempt_other intro: attempt_other [OF _ surjective_pairing])

lemma run_ignoring_other:
  "p \<notin> \<Union> (touches ` set cs) \<Longrightarrow> run_ignoring cs st = (r, fs', ft') \<Longrightarrow> map_of fs' p = map_of (fst st) p"
proof (induction cs arbitrary: st)
  case (Cons c cs)
  obtain o1 fs1 ft1 where c: "run_op c st = (o1, fs1, ft1)" by (metis prod_cases3)
  have same: "map_of fs1 p = map_of (fst st) p" using run_op_other [OF _ c] Cons.prems(1) by simp
  show ?case
  proof (cases "o1 = Crashed")
    case True
    with Cons.prems c same show ?thesis by simp
  next
    case False
    then have "run_ignoring cs (fs1, ft1) = (r, fs', ft')" using Cons.prems(2) c by (cases o1) simp_all
    with Cons.IH Cons.prems(1) same show ?thesis by simp
  qed
qed auto

lemma run_must_other:
  assumes "p \<notin> touches c \<union> \<Union> (touches ` set cs)" and "run_must c cs st = (r, fs', ft')"
  shows "map_of fs' p = map_of (fst st) p"
proof -
  obtain o1 fs1 ft1 where c: "run_op c st = (o1, fs1, ft1)" by (metis prod_cases3)
  obtain o2 fs2 ft2 where u: "run_ignoring cs (fs1, ft1) = (o2, fs2, ft2)" by (metis prod_cases3)
  have "map_of fs1 p = map_of (fst st) p" using run_op_other [OF _ c] assms(1) by simp
  moreover have "map_of fs2 p = map_of fs1 p" using run_ignoring_other [OF _ u] assms(1) by simp
  ultimately show ?thesis
    using assms(2) c u by (cases o1) (auto simp: run_must_def split: outcome.splits)
qed

lemma run_steps_other:
  "p \<notin> \<Union> (step_touches ` set ss) \<Longrightarrow> run_steps ss st = (r, fs', ft') \<Longrightarrow> map_of fs' p = map_of (fst st) p"
proof (induction ss st arbitrary: r fs' ft' rule: run_steps.induct)
  case (2 c ss st)
  obtain o1 fs1 ft1 where c: "run_op c st = (o1, fs1, ft1)" by (metis prod_cases3)
  have "map_of fs1 p = map_of (fst st) p" using run_op_other [OF _ c] 2(3) by simp
  with 2 c show ?case by (cases o1) auto
next
  case (3 c cleanup ss st)
  obtain o1 fs1 ft1 where c: "run_must c cleanup st = (o1, fs1, ft1)" by (metis prod_cases3)
  have "map_of fs1 p = map_of (fst st) p" using run_must_other [OF _ c] 3(2) by simp
  with 3 c show ?case by (cases o1) auto
next
  case (4 q c cleanup ss st)
  obtain o1 fs1 ft1 where c: "run_op (Stat q) st = (o1, fs1, ft1)" by (metis prod_cases3)
  obtain o2 fs2 ft2 where u: "run_must c cleanup (fs1, ft1) = (o2, fs2, ft2)" by (metis prod_cases3)
  have "map_of fs1 p = map_of (fst st) p" using run_op_other [OF _ c] by simp
  moreover have "map_of fs2 p = map_of fs1 p" using run_must_other [OF _ u] 4(3) by simp
  ultimately show ?case using 4 c u by (cases o1; cases o2) auto
next
  case (5 cleanup ss st)
  obtain o2 fs2 ft2 where u: "run_ignoring cleanup st = (o2, fs2, ft2)" by (metis prod_cases3)
  then have "map_of fs2 p = map_of (fst st) p" using run_ignoring_other 5(1) by fastforce
  with 5 u show ?case by (auto split: outcome.splits)
qed auto

lemma run_steps_append:
  "run_steps (xs @ ys) st = (case run_steps xs st of (Done, st') \<Rightarrow> run_steps ys st' | r \<Rightarrow> r)"
proof (induction xs st rule: run_steps.induct)
  case (2 c ss st)
  then show ?case by (auto split: prod.splits outcome.splits)
next
  case (3 c cleanup ss st)
  then show ?case by (auto split: prod.splits outcome.splits)
next
  case (4 p c cleanup ss st)
  then show ?case by (auto split: prod.splits outcome.splits)
next
  case (5 cleanup ss st)
  then show ?case by (auto split: prod.splits outcome.splits)
qed simp

lemma run_op_Done: "run_op c st = (Done, fs', ft') \<Longrightarrow> fs' = op_effect c (fst st)"
  by (induction c st rule: run_op.induct) (auto simp: attempt_def split: if_splits)

lemma run_must_Done: "run_must c cs st = (Done, fs', ft') \<Longrightarrow> fs' = op_effect c (fst st)"
  using run_op_Done [of c st] by (auto simp: run_must_def split: prod.splits outcome.splits)

lemma run_Must_Done:
  "run_steps (Must c cs # ss) st = (Done, fs', ft') \<Longrightarrow>
     \<exists>ft. run_steps ss (op_effect c (fst st), ft) = (Done, fs', ft')"
proof -
  assume run: "run_steps (Must c cs # ss) st = (Done, fs', ft')"
  obtain o1 fs1 ft1 where c: "run_must c cs st = (o1, fs1, ft1)" by (metis prod_cases3)
  with run have "o1 = Done" by (cases o1) auto
  with run c run_must_Done [of c cs st fs1 ft1] show ?thesis by auto
qed

lemma run_IfStat_Done:
  assumes run: "run_steps (IfStat q c cs # ss) st = (Done, fs', ft')" and "p \<notin> touches c"
  shows "\<exists>fs1 ft1. map_of fs1 p = map_of (fst st) p \<and> run_steps ss (fs1, ft1) = (Done, fs', ft')"
proof -
  obtain o1 fs1 ft1 where c: "run_op (Stat q) st = (o1, fs1, ft1)" by (metis prod_cases3)
  have s1: "map_of fs1 p = map_of (fst st) p" using run_op_other [OF _ c] by simp
  obtain o2 fs2 ft2 where u: "run_must c cs (fs1, ft1) = (o2, fs2, ft2)" by (metis prod_cases3)
  show ?thesis
  proof (cases "o1 = Done")
    case True
    with run c u have "o2 = Done" and r: "run_steps ss (fs2, ft2) = (Done, fs', ft')" by (cases o2; simp)+
    with run_must_Done [of c cs "(fs1, ft1)" fs2 ft2] u op_effect_other [OF assms(2), of fs1] s1
    show ?thesis by auto
  next
    case False
    then have "run_steps ss (fs1, ft1) = (Done, fs', ft')" using run c by (cases o1) simp_all
    with s1 show ?thesis by blast
  qed
qed


section \<open>Atomicity\<close>

lemma run_Ignoring_Done:
  assumes "run_steps (Ignoring c # ss) st = (Done, fs', ft')" and "p \<notin> touches c"
  shows "\<exists>fs1 ft1. map_of fs1 p = map_of (fst st) p \<and> run_steps ss (fs1, ft1) = (Done, fs', ft')"
proof -
  obtain o1 fs1 ft1 where c: "run_op c st = (o1, fs1, ft1)" by (metis prod_cases3)
  with assms(1) have "run_steps ss (fs1, ft1) = (Done, fs', ft')" by (cases o1) auto
  with run_op_other [OF assms(2) c] show ?thesis by blast
qed

lemma appends_Done:
  "run_steps (map (\<lambda>c. Must (Append p c) cl) cs @ ss) (fs, ft) = (Done, fs', ft') \<Longrightarrow> map_of fs p = Some s \<Longrightarrow>
     \<exists>fs1 ft1. map_of fs1 p = Some (s @ concat cs) \<and> run_steps ss (fs1, ft1) = (Done, fs', ft')"
proof (induction cs arbitrary: fs ft s)
  case (Cons c cs)
  from Cons.prems(1) have "run_steps (Must (Append p c) cl # (map (\<lambda>c. Must (Append p c) cl) cs @ ss)) (fs, ft) =
      (Done, fs', ft')" by simp
  from run_Must_Done [OF this] Cons.prems(2) obtain ft1 where
    "run_steps (map (\<lambda>c. Must (Append p c) cl) cs @ ss) (AList.update p (s @ c) fs, ft1) = (Done, fs', ft')"
    by auto
  from Cons.IH [OF this, of "s @ c"] show ?case by (simp add: gomap_simps)
qed auto

lemma write_tmp_Done:
  assumes "run_steps (write_tmp tmp fsync cs e @ ss) st = (Done, fs', ft')"
  shows "e = None \<and> (\<exists>fs1 ft1. map_of fs1 tmp = Some (concat cs) \<and> run_steps ss (fs1, ft1) = (Done, fs', ft'))"
proof -
  define cl where "cl = [CloseFile tmp, Remove tmp]"
  define tail where "tail = (case e of None \<Rightarrow> [] | Some Panic \<Rightarrow> [Abort []] | Some _ \<Rightarrow> [Abort cl]) @
    (if fsync then [Must (SyncFile tmp) cl] else []) @ [Must (CloseFile tmp) [Remove tmp]] @ ss"
  have "run_steps (Must (OpenTrunc tmp) [] # (map (\<lambda>c. Must (Append tmp c) cl) cs @ tail)) st = (Done, fs', ft')"
    using assms unfolding write_tmp_def tail_def cl_def append_assoc append_Cons append_Nil .
  from run_Must_Done [OF this] obtain ft0 where
    "run_steps (map (\<lambda>c. Must (Append tmp c) cl) cs @ tail) (AList.update tmp [] (fst st), ft0) = (Done, fs', ft')"
    by auto
  from appends_Done [OF this, of "[]"] obtain fs1 ft1 where
    c: "map_of fs1 tmp = Some (concat cs)" and t: "run_steps tail (fs1, ft1) = (Done, fs', ft')"
    by (auto simp: gomap_simps)
  have e: "e = None"
  proof (rule ccontr)
    assume "e \<noteq> None"
    then obtain x where x: "e = Some x" by blast
    have "\<exists>cl' rest. tail = Abort cl' # rest"
      unfolding tail_def x option.case by (cases x) simp_all
    then obtain cl' rest where "tail = Abort cl' # rest" by blast
    with t show False by (auto split: prod.splits outcome.splits)
  qed
  show ?thesis
  proof (cases fsync)
    case True
    then have "run_steps (Must (SyncFile tmp) cl # Must (CloseFile tmp) [Remove tmp] # ss) (fs1, ft1) = (Done, fs', ft')"
      using t e True by (simp add: tail_def del: run_steps.simps)
    from run_Must_Done [OF this] obtain ft2 where
      "run_steps (Must (CloseFile tmp) [Remove tmp] # ss) (fs1, ft2) = (Done, fs', ft')" by auto
    from run_Must_Done [OF this] c e show ?thesis by auto
  next
    case False
    then have "run_steps (Must (CloseFile tmp) [Remove tmp] # ss) (fs1, ft1) = (Done, fs', ft')"
      using t e by (simp add: tail_def del: run_steps.simps)
    from run_Must_Done [OF this] c e show ?thesis by auto
  qed
qed

lemma copyTmp_Done:
  assumes "run_steps (copyTmp src dst fsync @ ss) (fs, ft) = (Done, fs', ft')" and "map_of fs src = Some c"
    and "src \<noteq> dst"
  shows "\<exists>fs1 ft1. map_of fs1 dst = Some c \<and> run_steps ss (fs1, ft1) = (Done, fs', ft')"
proof -
  define cl where "cl = [CloseFile dst, Remove dst, Remove src]"
  define t1 where "t1 = (if fsync then [Must (SyncFile dst) cl] else []) @ Must (CloseFile dst) [Remove src] # ss"
  have "run_steps (Must (OpenRead src) [Remove src] # Must (OpenTrunc dst) [Remove src] #
      Must (CopyFile src dst) cl # t1) (fs, ft) = (Done, fs', ft')"
    using assms(1) unfolding copyTmp_def t1_def cl_def append_assoc append_Cons append_Nil .
  from run_Must_Done [OF this] obtain ft1 where
    "run_steps (Must (OpenTrunc dst) [Remove src] # Must (CopyFile src dst) cl # t1) (fs, ft1) = (Done, fs', ft')"
    by auto
  from run_Must_Done [OF this] obtain ft2 where
    "run_steps (Must (CopyFile src dst) cl # t1) (AList.update dst [] fs, ft2) = (Done, fs', ft')" by auto
  from run_Must_Done [OF this] obtain fs3 ft3 where
    t: "run_steps t1 (fs3, ft3) = (Done, fs', ft')" and c: "map_of fs3 dst = Some c"
    using assms(2,3) by (auto simp: gomap_simps)
  show ?thesis
  proof (cases fsync)
    case True
    then have "run_steps (Must (SyncFile dst) cl # Must (CloseFile dst) [Remove src] # ss) (fs3, ft3) = (Done, fs', ft')"
      using t by (simp add: t1_def del: run_steps.simps)
    from run_Must_Done [OF this] obtain ft4 where
      "run_steps (Must (CloseFile dst) [Remove src] # ss) (fs3, ft4) = (Done, fs', ft')" by auto
    from run_Must_Done [OF this] c show ?thesis by auto
  next
    case False
    then have "run_steps (Must (CloseFile dst) [Remove src] # ss) (fs3, ft3) = (Done, fs', ft')"
      using t by (simp add: t1_def del: run_steps.simps)
    from run_Must_Done [OF this] c show ?thesis by auto
  qed
qed

lemma commit_tmp_Done:
  assumes run: "run_steps (commit_tmp inp tmp stage @ ss) (fs, ft) = (Done, fs', ft')"
    and c: "map_of fs tmp = Some c"
    and commit: "commit = (if ri_TmpDir inp \<noteq> [] then stage else tmp)"
    and ne: "tmp \<noteq> stage" "ri_Path inp @ ''.backup'' \<noteq> commit"
  shows "\<exists>fs1 ft1. map_of fs1 commit = Some c \<and> run_steps ss (fs1, ft1) = (Done, fs', ft')"
proof -
  define bk where "bk = ri_Path inp @ ''.backup''"
  define b where "b = (if ri_KeepBackup inp
    then [Ignoring (Remove bk), IfStat (ri_Path inp) (Link (ri_Path inp) bk) [Remove commit]] else [])"
  have ct: "commit_tmp inp tmp stage =
      (if ri_TmpDir inp \<noteq> [] then copyTmp tmp stage (ri_Fsync inp) @ [Ignoring (Remove tmp)] else []) @ b"
    unfolding commit_tmp_def Let_def b_def bk_def commit by (rule refl)
  have "\<exists>fs1 ft1. map_of fs1 commit = Some c \<and> run_steps (b @ ss) (fs1, ft1) = (Done, fs', ft')"
  proof (cases "ri_TmpDir inp \<noteq> []")
    case True
    then have "run_steps (copyTmp tmp stage (ri_Fsync inp) @ (Ignoring (Remove tmp) # (b @ ss))) (fs, ft) = (Done, fs', ft')"
      using run unfolding ct by (simp del: run_steps.simps)
    from copyTmp_Done [OF this c ne(1)] obtain fs1 ft1 where c1: "map_of fs1 stage = Some c"
      and r1: "run_steps (Ignoring (Remove tmp) # (b @ ss)) (fs1, ft1) = (Done, fs', ft')" by blast
    from run_Ignoring_Done [OF r1, of stage] ne(1) c1 True commit show ?thesis by auto
  next
    case False
    then have "run_steps (b @ ss) (fs, ft) = (Done, fs', ft')"
      using run unfolding ct by simp
    with False c commit show ?thesis by auto
  qed
  then obtain fs1 ft1 where c1: "map_of fs1 commit = Some c"
    and r1: "run_steps (b @ ss) (fs1, ft1) = (Done, fs', ft')" by blast
  show ?thesis
  proof (cases "ri_KeepBackup inp")
    case True
    then have "run_steps (Ignoring (Remove bk) # IfStat (ri_Path inp) (Link (ri_Path inp) bk) [Remove commit] # ss) (fs1, ft1) =
        (Done, fs', ft')" using r1 unfolding b_def by (simp del: run_steps.simps)
    from run_Ignoring_Done [OF this, of commit] ne(2) c1 obtain fs2 ft2 where c2: "map_of fs2 commit = Some c"
      and r2: "run_steps (IfStat (ri_Path inp) (Link (ri_Path inp) bk) [Remove commit] # ss) (fs2, ft2) = (Done, fs', ft')"
      by (auto simp: bk_def)
    from run_IfStat_Done [OF r2, of commit] ne(2) c2 show ?thesis by (auto simp: bk_def)
  next
    case False
    with r1 c1 show ?thesis by (auto simp: b_def)
  qed
qed

lemma record_parts_bytes: "record_parts layout rs = (cs, None) \<Longrightarrow> encode_records layout rs = Inr (concat cs)"
  by (induction rs arbitrary: cs) (auto split: sum.splits prod.splits)


lemma rename_outcomes:
  assumes "run_steps [Must (Rename a b) [Remove a]] (fs, ft) = (r, fs', ft')" and "map_of fs a = Some c" and "a \<noteq> b"
  shows "(r = Done \<longrightarrow> map_of fs' b = Some c) \<and> (r = Failed \<longrightarrow> map_of fs' b = map_of fs b) \<and>
         (map_of fs' b = map_of fs b \<or> map_of fs' b = Some c)"
proof -
  obtain o1 fs1 ft1 where c: "run_op (Rename a b) (fs, ft) = (o1, fs1, ft1)" by (metis prod_cases3)
  have o: "(o1 = Done \<longrightarrow> map_of fs1 b = Some c) \<and> (o1 = Failed \<longrightarrow> map_of fs1 b = map_of fs b) \<and>
      (map_of fs1 b = map_of fs b \<or> map_of fs1 b = Some c)"
    using c assms(2,3)
    by (cases "(Rename a b, fs, ft)" rule: run_op.cases) (auto simp: gomap_simps attempt_def)
  show ?thesis
  proof (cases "o1 = Failed")
    case True
    obtain o2 fs2 ft2 where u: "run_ignoring [Remove a] (fs1, ft1) = (o2, fs2, ft2)" by (metis prod_cases3)
    have "map_of fs2 b = map_of fs1 b" using run_ignoring_other [OF _ u, of b] assms(3) by simp
    moreover have "fs' = fs2" "r \<noteq> Done"
      using assms(1) c u True by (auto simp: run_must_def simp del: run_ignoring.simps split: outcome.splits)
    ultimately show ?thesis using o True by simp
  next
    case False
    then have "fs' = fs1" "r = o1" using assms(1) c by (cases o1; auto simp: run_must_def)+
    with o False show ?thesis by simp
  qed
qed

lemma install_outcomes:
  assumes run: "run_steps (pre @ [Must (Rename a b) [Remove a]]) st = (r, fs', ft')"
    and pre: "b \<notin> \<Union> (step_touches ` set pre)" and ne: "a \<noteq> b"
    and content: "\<And>fs1 ft1. run_steps pre st = (Done, fs1, ft1) \<Longrightarrow> map_of fs1 a = Some c \<and> good"
  shows "(r = Done \<longrightarrow> map_of fs' b = Some c \<and> good) \<and> (r = Failed \<longrightarrow> map_of fs' b = map_of (fst st) b) \<and>
         (map_of fs' b = map_of (fst st) b \<or> map_of fs' b = Some c \<and> good)"
proof -
  obtain o1 fs1 ft1 where p: "run_steps pre st = (o1, fs1, ft1)" by (metis prod_cases3)
  have keep: "map_of fs1 b = map_of (fst st) b" by (rule run_steps_other [OF pre p])
  show ?thesis
  proof (cases "o1 = Done")
    case True
    then have "run_steps [Must (Rename a b) [Remove a]] (fs1, ft1) = (r, fs', ft')"
      using run p unfolding run_steps_append by (simp del: run_steps.simps)
    from rename_outcomes [OF this _ ne] content p True keep show ?thesis by auto
  next
    case False
    then have "(r, fs', ft') = (o1, fs1, ft1)"
      using run p unfolding run_steps_append by (cases o1) (simp_all del: run_steps.simps)
    with keep False show ?thesis by simp
  qed
qed

lemma write_tmp_touches: "\<Union> (step_touches ` set (write_tmp tmp f cs e)) \<subseteq> {tmp}"
proof -
  have "\<Union> (step_touches ` set (case e of None \<Rightarrow> [] | Some Panic \<Rightarrow> [Abort []]
      | Some _ \<Rightarrow> [Abort [CloseFile tmp, Remove tmp]])) \<subseteq> {tmp}"
  proof (cases e)
    case (Some x)
    then show ?thesis by (cases x) simp_all
  qed simp
  then show ?thesis unfolding write_tmp_def by (auto split: if_splits)
qed

lemma commit_tmp_touches:
  "\<Union> (step_touches ` set (commit_tmp inp tmp stage)) \<subseteq> {tmp, stage, ri_Path inp @ ''.backup''}"
  by (auto simp: commit_tmp_def copyTmp_def Let_def split: if_splits)

lemma temporary_names:
  "ri_TmpDir inp = [] \<Longrightarrow> tmp_path inp joined pid seq \<noteq> stage_path inp pid seq'"
  "ri_TmpDir inp = [] \<Longrightarrow> tmp_path inp joined pid seq \<noteq> ri_Path inp"
  "ri_TmpDir inp = [] \<Longrightarrow> ri_Path inp @ ''.backup'' \<noteq> tmp_path inp joined pid seq"
  "stage_path inp pid seq' \<noteq> ri_Path inp" "ri_Path inp @ ''.backup'' \<noteq> stage_path inp pid seq'"
  by (simp_all add: tmp_path_def stage_path_def)

text \<open>C24. Rewriting an index is atomic: whatever calls fail or wherever the process dies (the machine stays up), the file under the
  index path is afterwards either the one that was there or the complete new image, never a mix.  It is the
  new image when \<^verbatim>\<open>Recreate\<close> returns success and the old file when it returns an error.  A temporary
  directory is assumed to give a path other than the index and its staging file.\<close>

theorem Recreate_atomic:
  assumes run: "Recreate srt joined pid seq seq' inp (fs, ft) = (r, fs', ft')"
    and tmp: "ri_TmpDir inp \<noteq> [] \<longrightarrow> tmp_path inp joined pid seq \<notin> {ri_Path inp, stage_path inp pid seq'}"
  shows "(r = Done \<longrightarrow> (\<exists>image. recreate_bytes srt (ri_Header inp) (ri_Extensions inp) (ri_Records inp) = Inr image \<and>
            map_of fs' (ri_Path inp) = Some image)) \<and>
         (r = Failed \<longrightarrow> map_of fs' (ri_Path inp) = map_of fs (ri_Path inp)) \<and>
         (map_of fs' (ri_Path inp) = map_of fs (ri_Path inp) \<or>
          (\<exists>image. recreate_bytes srt (ri_Header inp) (ri_Extensions inp) (ri_Records inp) = Inr image \<and>
            map_of fs' (ri_Path inp) = Some image))"
proof (cases "\<exists>layout ext. ri_Path inp \<noteq> [] \<and> ComputeRecordLayout srt (ri_Extensions inp) = Inr layout \<and>
    lay_RecordSize layout = hd_RecordSize (ri_Header inp) \<and> EncodeExtHeaders (lay_Extensions layout) = Inr ext \<and>
    hd_HeaderSize (ri_Header inp) = of_nat HeaderMinSize + of_nat (length ext)")
  case False
  then have "(r, fs', ft') = (Failed, fs, ft)"
    using run unfolding Recreate_def by (auto split: if_splits sum.splits)
  then show ?thesis by simp
next
  case True
  then obtain layout ext where l: "ComputeRecordLayout srt (ri_Extensions inp) = Inr layout"
    and x: "EncodeExtHeaders (lay_Extensions layout) = Inr ext" and g: "ri_Path inp \<noteq> []"
      "lay_RecordSize layout = hd_RecordSize (ri_Header inp)"
      "hd_HeaderSize (ri_Header inp) = of_nat HeaderMinSize + of_nat (length ext)" by blast
  let ?tmp = "tmp_path inp joined pid seq" and ?stage = "stage_path inp pid seq'"
  define commit where "commit = (if ri_TmpDir inp \<noteq> [] then ?stage else ?tmp)"
  obtain recs e where rec: "(if lay_RecordSize layout > 0 \<and> ri_Records inp \<noteq> []
      then record_parts layout (ri_Records inp) else ([], None)) = (recs, e)" by (metis surj_pair)
  define cs where "cs = Header_EncodeBytes (ri_Header inp) # (if length ext > 0 then [ext] else []) @ recs"
  define pre where "pre = write_tmp ?tmp (ri_Fsync inp) cs e @ commit_tmp inp ?tmp ?stage"
  have names: "?tmp \<noteq> ?stage" "?tmp \<noteq> ri_Path inp" "commit \<noteq> ri_Path inp" "ri_Path inp @ ''.backup'' \<noteq> commit"
    using temporary_names tmp by (cases "ri_TmpDir inp = []"; simp add: commit_def)+
  have run': "run_steps (pre @ [Must (Rename commit (ri_Path inp)) [Remove commit]]) (fs, ft) = (r, fs', ft')"
  proof -
    have g': "\<not> lay_RecordSize layout \<noteq> hd_RecordSize (ri_Header inp)"
      "\<not> hd_HeaderSize (ri_Header inp) \<noteq> of_nat HeaderMinSize + of_nat (length ext)" using g by simp_all
    show ?thesis
      using run unfolding Recreate_def if_not_P [OF g(1)] l sum.case if_not_P [OF g'(1)] x if_not_P [OF g'(2)]
        Let_def rec prod.case pre_def cs_def commit_def append_assoc .
  qed
  have image: "recreate_bytes srt (ri_Header inp) (ri_Extensions inp) (ri_Records inp) = Inr (concat cs)" if "e = None"
  proof -
    have "(if lay_RecordSize layout > 0 \<and> ri_Records inp \<noteq> [] then encode_records layout (ri_Records inp)
        else Inr []) = Inr (concat recs)"
      using rec that record_parts_bytes by (auto split: if_splits)
    then show ?thesis using l x g by (simp add: recreate_bytes_def cs_def)
  qed
  have content: "map_of fs1 commit = Some (concat cs) \<and>
      recreate_bytes srt (ri_Header inp) (ri_Extensions inp) (ri_Records inp) = Inr (concat cs)"
    if dn: "run_steps pre (fs, ft) = (Done, fs1, ft1)" for fs1 ft1
  proof -
    from write_tmp_Done [OF dn [unfolded pre_def]] obtain fs2 ft2 where "e = None"
      "map_of fs2 ?tmp = Some (concat cs)" "run_steps (commit_tmp inp ?tmp ?stage @ []) (fs2, ft2) = (Done, fs1, ft1)"
      by auto
    with commit_tmp_Done [OF this(3,2) commit_def names(1,4)] image show ?thesis by auto
  qed
  have touch: "ri_Path inp \<notin> \<Union> (step_touches ` set pre)"
    using write_tmp_touches [of ?tmp "ri_Fsync inp" cs e] commit_tmp_touches [of inp ?tmp ?stage]
      names temporary_names(4) [of inp pid seq'] unfolding pre_def by (auto simp: subset_iff)
  from install_outcomes [OF run' touch names(3) content] show ?thesis by auto
qed

theorem Recreate_atomic_witness:
  "\<exists>fs' ft'. Recreate isort_by id 7 1 2
       \<lparr> ri_Path = ''idx'', ri_Header = NewHeader 3, ri_Extensions = [], ri_Records = [], ri_KeepBackup = False,
         ri_Fsync = True, ri_TmpDir = [] \<rparr> ([(''idx'', ''old'')], [Good, Fails 7]) = (Failed, fs', ft') \<and>
     map_of fs' ''idx'' = Some ''old''"
proof -
  define inp where "inp = \<lparr> ri_Path = ''idx'', ri_Header = NewHeader 3, ri_Extensions = [], ri_Records = [],
    ri_KeepBackup = False, ri_Fsync = True, ri_TmpDir = [] \<rparr>"
  have "fst (Recreate isort_by id 7 1 2 inp ([(''idx'', ''old'')], [Good, Fails 7])) = Failed"
    by (simp add: inp_def Recreate_def ComputeRecordLayout_def EncodeExtHeaders_def RecordMinSize_def NewHeader_def
        write_tmp_def Let_def run_must_def attempt_def)
  then obtain fs' ft' where r: "Recreate isort_by id 7 1 2 inp ([(''idx'', ''old'')], [Good, Fails 7]) = (Failed, fs', ft')"
    by (metis prod.collapse)
  from Recreate_atomic [OF r] have "map_of fs' ''idx'' = Some ''old''" by (simp add: inp_def)
  with r show ?thesis unfolding inp_def by blast
qed

end
