(* ===== verification/Mail_Log.thy ===== *)
theory Mail_Log
  imports Mail_Index
begin

unbundle bit_operations_syntax

text \<open>
  Package \<^verbatim>\<open>internal/storage/mailindex\<close>, the transaction log: its header, the size framing that shows a
  torn write, the header of a transaction (\<^verbatim>\<open>log.go\<close>) and the payloads of the transactions
  (\<^verbatim>\<open>log_tx.go\<close>), at the byte level.
\<close>

section \<open>The log header\<close>

definition LogMajorVersion :: uint8 where "LogMajorVersion = 1"
definition LogMinorVersion :: uint8 where "LogMinorVersion = 3"
definition LogHeaderMinSize :: nat where "LogHeaderMinSize = 24"
definition LogHeaderSize :: nat where "LogHeaderSize = 40"

record LogHeader =
  lh_MajorVersion :: uint8
  lh_MinorVersion :: uint8
  lh_HdrSize :: uint16
  lh_IndexID :: uint32
  lh_FileSeq :: uint32
  lh_PrevFileSeq :: uint32
  lh_PrevFileOffset :: uint32
  lh_CreateStamp :: uint32
  lh_InitialModSeq :: uint64
  lh_CompatFlags :: uint8

definition NewLogHeader :: "uint32 \<Rightarrow> uint32 \<Rightarrow> uint32 \<Rightarrow> LogHeader" where
  "NewLogHeader indexID fileSeq createStamp =
    \<lparr> lh_MajorVersion = LogMajorVersion, lh_MinorVersion = LogMinorVersion, lh_HdrSize = of_nat LogHeaderSize,
      lh_IndexID = indexID, lh_FileSeq = fileSeq, lh_PrevFileSeq = 0, lh_PrevFileOffset = 0,
      lh_CreateStamp = createStamp, lh_InitialModSeq = 0, lh_CompatFlags = CompatLittleEndian \<rparr>"

definition log_header_writes :: "LogHeader \<Rightarrow> (nat \<times> string) list" where
  "log_header_writes h =
    [(0, enc8 (lh_MajorVersion h)), (1, enc8 (lh_MinorVersion h)), (2, enc16 (lh_HdrSize h)),
     (4, enc32 (lh_IndexID h)), (8, enc32 (lh_FileSeq h)), (12, enc32 (lh_PrevFileSeq h)),
     (16, enc32 (lh_PrevFileOffset h)), (20, enc32 (lh_CreateStamp h)), (24, enc64 (lh_InitialModSeq h)),
     (32, enc8 (lh_CompatFlags h))]"

definition LogHeader_encodeInto :: "LogHeader \<Rightarrow> string \<Rightarrow> string" where
  "LogHeader_encodeInto h buf = write_all (log_header_writes h) buf"

definition LogHeader_EncodeBytes :: "LogHeader \<Rightarrow> string" where
  "LogHeader_EncodeBytes h = LogHeader_encodeInto h (zeros LogHeaderSize)"

definition LogHeader_Encode :: "LogHeader \<Rightarrow> mi_error + string" where
  "LogHeader_Encode h =
    (if lh_HdrSize h < of_nat LogHeaderMinSize then Inl ErrCorrupted
     else if lh_CompatFlags h AND CompatLittleEndian = 0 then Inl ErrEndian
     else Inr (LogHeader_EncodeBytes h))"

definition LogHeader_decodeFrom :: "string \<Rightarrow> LogHeader \<Rightarrow> LogHeader" where
  "LogHeader_decodeFrom buf h =
    h \<lparr> lh_IndexID := dec32 buf 4, lh_FileSeq := dec32 buf 8, lh_PrevFileSeq := dec32 buf 12,
        lh_PrevFileOffset := dec32 buf 16, lh_CreateStamp := dec32 buf 20, lh_InitialModSeq := dec64 buf 24,
        lh_CompatFlags := (if length buf \<ge> 33 then dec8 buf 32 else lh_CompatFlags h) \<rparr>"

text \<open>\<^verbatim>\<open>DecodeLogHeader\<close>: the header and the rest of the reader.\<close>

definition DecodeLogHeader :: "string \<Rightarrow> mi_error + LogHeader \<times> string" where
  "DecodeLogHeader r =
    (case ReadFull 4 r of
       Inl _ \<Rightarrow> Inl ErrShortRead
     | Inr (prefix, r1) \<Rightarrow>
         let h = \<lparr> lh_MajorVersion = dec8 prefix 0, lh_MinorVersion = dec8 prefix 1, lh_HdrSize = dec16 prefix 2,
                   lh_IndexID = 0, lh_FileSeq = 0, lh_PrevFileSeq = 0, lh_PrevFileOffset = 0,
                   lh_CreateStamp = 0, lh_InitialModSeq = 0, lh_CompatFlags = 0 \<rparr>
         in if lh_MajorVersion h \<noteq> LogMajorVersion then Inl ErrMajorMismatch
            else if lh_HdrSize h < of_nat LogHeaderMinSize then Inl ErrCorrupted
            else
              (case ReadFull (unat (lh_HdrSize h - 4)) r1 of
                 Inl e \<Rightarrow> Inl (ErrIO e)
               | Inr (rest, r2) \<Rightarrow>
                   let buf = prefix @ rest;
                       buf = (if length buf < LogHeaderSize then buf @ zeros (LogHeaderSize - length buf) else buf)
                   in Inr (LogHeader_decodeFrom buf h, r2)))"

section \<open>Framed sizes\<close>

definition byteSwap32 :: "uint32 \<Rightarrow> uint32" where
  "byteSwap32 v =
    (drop_bit 24 v AND 0xFF) OR push_bit 8 (drop_bit 16 v AND 0xFF) OR
    push_bit 16 (drop_bit 8 v AND 0xFF) OR push_bit 24 (v AND 0xFF)"

definition EncodeFramedSize :: "uint32 \<Rightarrow> mi_error + uint32" where
  "EncodeFramedSize offset =
    (if offset \<ge> 0x40000000 then Inl ErrCorrupted
     else if offset AND 3 \<noteq> 0 then Inl ErrCorrupted
     else
       let off = drop_bit 2 offset
       in Inr (byteSwap32
            (0x80808080 OR (off AND 0x7F) OR push_bit 8 (drop_bit 7 off AND 0x7F) OR
             push_bit 16 (drop_bit 14 off AND 0x7F) OR push_bit 24 (drop_bit 21 off AND 0x7F))))"

definition DecodeFramedSize :: "uint32 \<Rightarrow> uint32" where
  "DecodeFramedSize framed =
    (let f = byteSwap32 framed
     in if f AND 0x80808080 \<noteq> 0x80808080 then 0
        else push_bit 2
          ((f AND 0x7F) OR push_bit 7 (drop_bit 8 f AND 0x7F) OR push_bit 14 (drop_bit 16 f AND 0x7F) OR
           push_bit 21 (drop_bit 24 f AND 0x7F)))"

section \<open>The header of a transaction\<close>

record TxHeader =
  tx_Size :: uint32
  tx_Type :: uint32

definition TxFlagExternal :: uint32 where "TxFlagExternal = 0x10000000"
definition TxFlagSync :: uint32 where "TxFlagSync = 0x20000000"
definition TxTypeMask :: uint32 where "TxTypeMask = 0x0FFFFFFF"

definition tx_Kind :: "uint32 \<Rightarrow> uint32" where
  "tx_Kind t = t AND TxTypeMask"

definition tx_Flags :: "uint32 \<Rightarrow> uint32" where
  "tx_Flags t = t AND NOT TxTypeMask"

definition tx_Has :: "uint32 \<Rightarrow> uint32 \<Rightarrow> bool" where
  "tx_Has t f \<longleftrightarrow> t AND f = f"

definition EncodeTxHeader :: "string \<Rightarrow> TxHeader \<Rightarrow> mi_error + string" where
  "EncodeTxHeader buf h =
    (if length buf < 8 then Inl ErrShortRead
     else
       (case EncodeFramedSize (tx_Size h) of
          Inl x \<Rightarrow> Inl x
        | Inr framed \<Rightarrow> Inr (copy_at 4 (enc32 (tx_Type h)) (copy_at 0 (enc32 framed) buf))))"

definition DecodeTxHeader :: "string \<Rightarrow> mi_error + TxHeader" where
  "DecodeTxHeader buf =
    (if length buf < 8 then Inl ErrShortRead
     else
       let sz = DecodeFramedSize (dec32 buf 0)
       in if sz = 0 then Inl ErrCorrupted
          else if sz < 8 then Inl ErrCorrupted
          else Inr \<lparr> tx_Size = sz, tx_Type = dec32 buf 4 \<rparr>)"

section \<open>Payloads\<close>

definition TxTypeExpunge :: uint32 where "TxTypeExpunge = 0x00000001"
definition TxTypeAppend :: uint32 where "TxTypeAppend = 0x00000002"
definition TxTypeFlagUpdate :: uint32 where "TxTypeFlagUpdate = 0x00000004"
definition TxTypeKeywordUpdate :: uint32 where "TxTypeKeywordUpdate = 0x00000400"
definition TxTypeKeywordReset :: uint32 where "TxTypeKeywordReset = 0x00000800"
definition TxTypeExtAtomicInc :: uint32 where "TxTypeExtAtomicInc = 0x00001000"

type_synonym TxExpunge = "uint32 \<times> uint32"
type_synonym TxKeywordUIDRange = "uint32 \<times> uint32"
type_synonym TxKeywordReset = "uint32 \<times> uint32"

record TxExpungeGUID =
  xg_UID :: uint32
  xg_GUID :: string

record TxFlagUpdate =
  fu_UID1 :: uint32
  fu_UID2 :: uint32
  fu_AddFlags :: uint8
  fu_RemoveFlags :: uint8
  fu_ModSeqIncFlag :: uint8
  fu_Padding :: uint8

record TxModseqUpdate =
  mu_UID :: uint32
  mu_ModSeqLow32 :: uint32
  mu_ModSeqHigh32 :: uint32

record TxExtIntro =
  xi_ExtID :: uint32
  xi_ResetID :: uint32
  xi_HdrSize :: uint32
  xi_RecordSize :: uint16
  xi_RecordAlign :: uint16
  xi_Flags :: uint16
  xi_Name :: string

record TxExtRecUpdate =
  xr_UID :: uint32
  xr_Data :: string

record TxExtAtomicInc =
  ai_UID :: uint32
  ai_Diff :: "32 word"

record TxKeywordUpdate =
  ku_ModifyType :: uint8
  ku_Padding :: uint8
  ku_Name :: string
  ku_UIDRanges :: "TxKeywordUIDRange list"

text \<open>A payload of fixed-size entries, written one after the other into a zeroed buffer.\<close>

definition uid_pair :: "uint32 \<times> uint32 \<Rightarrow> string" where
  "uid_pair r = enc32 (fst r) @ enc32 (snd r)"

definition EncodeTxExpungePayload :: "TxExpunge list \<Rightarrow> string" where
  "EncodeTxExpungePayload recs = concat (map uid_pair recs)"

definition EncodeTxExpungeGUIDPayload :: "TxExpungeGUID list \<Rightarrow> string" where
  "EncodeTxExpungeGUIDPayload recs = concat (map (\<lambda>r. enc32 (xg_UID r) @ xg_GUID r) recs)"

definition EncodeTxFlagUpdatePayload :: "TxFlagUpdate list \<Rightarrow> string" where
  "EncodeTxFlagUpdatePayload recs =
    concat (map (\<lambda>r. enc32 (fu_UID1 r) @ enc32 (fu_UID2 r) @ enc8 (fu_AddFlags r) @ enc8 (fu_RemoveFlags r) @
                      enc8 (fu_ModSeqIncFlag r) @ enc8 (fu_Padding r)) recs)"

definition EncodeTxModseqUpdatePayload :: "TxModseqUpdate list \<Rightarrow> string" where
  "EncodeTxModseqUpdatePayload recs =
    concat (map (\<lambda>r. enc32 (mu_UID r) @ enc32 (mu_ModSeqLow32 r) @ enc32 (mu_ModSeqHigh32 r)) recs)"

definition pad4 :: "nat \<Rightarrow> nat" where
  "pad4 n = (4 - n mod 4) mod 4"

definition EncodeTxHeaderUpdatePayload :: "uint16 \<Rightarrow> string \<Rightarrow> string" where
  "EncodeTxHeaderUpdatePayload offset data =
    write_all [(0, enc16 offset), (2, enc16 (of_nat (length data))), (4, data)]
      (zeros (4 + length data + pad4 (4 + length data)))"

definition EncodeTxExtIntroPayload :: "TxExtIntro \<Rightarrow> string" where
  "EncodeTxExtIntroPayload r =
    write_all [(0, enc32 (xi_ExtID r)), (4, enc32 (xi_ResetID r)), (8, enc32 (xi_HdrSize r)),
               (12, enc16 (xi_RecordSize r)), (14, enc16 (xi_RecordAlign r)), (16, enc16 (xi_Flags r)),
               (18, enc16 (of_nat (length (xi_Name r)))), (20, xi_Name r)]
      (zeros (20 + length (xi_Name r)))"

definition EncodeTxExtResetPayload :: "uint32 \<Rightarrow> uint8 \<Rightarrow> string \<Rightarrow> string" where
  "EncodeTxExtResetPayload newResetID preserveData unusedPadding =
    write_all [(0, enc32 newResetID), (4, enc8 preserveData), (5, unusedPadding)] (zeros 8)"

definition EncodeTxExtHdrUpdatePayload :: "uint16 \<Rightarrow> string \<Rightarrow> string" where
  "EncodeTxExtHdrUpdatePayload offset data =
    write_all [(0, enc16 offset), (2, enc16 (of_nat (length data))), (4, data)]
      (zeros (4 + length data + pad4 (4 + length data)))"

definition EncodeTxExtHdrUpdate32Payload :: "uint32 \<Rightarrow> string \<Rightarrow> string" where
  "EncodeTxExtHdrUpdate32Payload offset data =
    write_all [(0, enc32 offset), (4, enc32 (of_nat (length data))), (8, data)]
      (zeros (8 + length data + pad4 (8 + length data)))"

definition EncodeTxExtRecUpdatePayload :: "TxExtRecUpdate list \<Rightarrow> mi_error + string" where
  "EncodeTxExtRecUpdatePayload recs =
    (case recs of
       [] \<Rightarrow> Inr []
     | r0 # _ \<Rightarrow>
         let n = length (xr_Data r0)
         in if \<not> list_all (\<lambda>r. length (xr_Data r) = n) recs then Inl ErrCorrupted
            else Inr (concat (map (\<lambda>r. enc32 (xr_UID r) @ xr_Data r @ zeros (pad4 (4 + n))) recs)))"

definition EncodeTxExtAtomicIncPayload :: "TxExtAtomicInc list \<Rightarrow> string" where
  "EncodeTxExtAtomicIncPayload recs = concat (map (\<lambda>r. uid_pair (ai_UID r, ai_Diff r)) recs)"

text \<open>The loop of the fixed-stride decoders: the pairs of whole entries, a partial one at the end ignored.\<close>

function decode_pairs :: "string \<Rightarrow> (uint32 \<times> uint32) list" where
  "decode_pairs p = (if 8 \<le> length p then (dec32 p 0, dec32 p 4) # decode_pairs (drop 8 p) else [])"
  by pat_completeness auto
termination
  by (relation "measure length") auto

declare decode_pairs.simps [simp del]

definition DecodeTxExtAtomicIncPayload :: "string \<Rightarrow> TxExtAtomicInc list" where
  "DecodeTxExtAtomicIncPayload payload = map (\<lambda>(u, d). \<lparr> ai_UID = u, ai_Diff = d \<rparr>) (decode_pairs payload)"

definition EncodeTxKeywordUpdatePayload :: "TxKeywordUpdate \<Rightarrow> string" where
  "EncodeTxKeywordUpdatePayload rec =
    (let headerLen = 4 + length (ku_Name rec)
     in write_all [(0, enc8 (ku_ModifyType rec)), (1, enc8 (ku_Padding rec)),
                   (2, enc16 (of_nat (length (ku_Name rec)))), (4, ku_Name rec)]
          (zeros (headerLen + pad4 headerLen)) @
        concat (map uid_pair (ku_UIDRanges rec)))"

definition DecodeTxKeywordUpdatePayload :: "string \<Rightarrow> TxKeywordUpdate option" where
  "DecodeTxKeywordUpdatePayload payload =
    (if length payload < 4 then None
     else
       let nameLen = unat (dec16 payload 2); headerLen = 4 + nameLen
       in if 4 + nameLen > length payload then None
          else Some \<lparr> ku_ModifyType = dec8 payload 0, ku_Padding = dec8 payload 1,
                      ku_Name = sub_bytes 4 nameLen payload,
                      ku_UIDRanges = decode_pairs (drop (headerLen + pad4 headerLen) payload) \<rparr>)"

definition DecodeTxKeywordResetPayload :: "string \<Rightarrow> TxKeywordReset list" where
  "DecodeTxKeywordResetPayload payload = decode_pairs payload"

definition EncodeTxKeywordResetPayload :: "TxKeywordReset list \<Rightarrow> string" where
  "EncodeTxKeywordResetPayload recs = concat (map uid_pair recs)"

definition EncodeTxBoundaryPayload :: "uint32 \<Rightarrow> string" where
  "EncodeTxBoundaryPayload sz = enc32 sz"

fun EncodeTxAppendPayload :: "RecordLayout \<Rightarrow> Record list \<Rightarrow> mi_error + string" where
  "EncodeTxAppendPayload layout [] = Inr []"
| "EncodeTxAppendPayload layout (rec # recs) =
    (case EncodeRecord (unat (lay_RecordSize layout)) layout rec of
       Inl x \<Rightarrow> Inl x
     | Inr buf \<Rightarrow> (case EncodeTxAppendPayload layout recs of Inl x \<Rightarrow> Inl x | Inr bs \<Rightarrow> Inr (buf @ bs)))"


unbundle bit_operations_syntax

section \<open>Framing\<close>

text \<open>A word of 32 bits is determined by its bits at 0 to 31.\<close>

lemma upt32: "[0..<32] = [0, 1, 2, 3, 4, 5, 6, 7, 8, 9, 10, 11, 12, 13, 14, 15, 16, 17, 18, 19, 20, 21, 22,
    23, 24, 25, 26, 27, 28, 29, 30, 31 :: nat]"
  by (simp add: upt_conv_Cons)

lemma word32_eqI:
  "list_all (\<lambda>n. bit (a :: uint32) n = bit b n) [0, 1, 2, 3, 4, 5, 6, 7, 8, 9, 10, 11, 12, 13, 14, 15, 16, 17, 18, 19,
    20, 21, 22, 23, 24, 25, 26, 27, 28, 29, 30, 31] \<Longrightarrow> a = b"
  unfolding upt32 [symmetric] by (rule bit_word_eqI) (simp add: list_all_iff)

lemma byteSwap32_swap: "byteSwap32 (byteSwap32 v) = v"
  by (rule word32_eqI) (simp add: byteSwap32_def bit_simps)

lemma bits_above: "(n :: uint32) < 0x40000000 \<Longrightarrow> 30 \<le> i \<Longrightarrow> \<not> bit n i"
proof -
  assume n: "n < 0x40000000" "30 \<le> i"
  have "unat n < 2 ^ 30" using n(1) by (simp add: word_less_nat_alt)
  then have "take_bit 30 (unat n) = unat n" by (simp add: take_bit_nat_eq_self)
  then have "\<not> bit (unat n) i" using n(2) by (metis bit_take_bit_iff leD)
  then show ?thesis by (simp add: bit_unsigned_iff)
qed

lemma low_bits_clear: "(n :: uint32) AND 3 = 0 \<Longrightarrow> \<not> bit n 0 \<and> \<not> bit n 1"
proof -
  assume n: "n AND 3 = 0"
  then have "\<not> bit (n AND 3) 0" "\<not> bit (n AND 3) 1" by simp_all
  then show ?thesis by (simp add: bit_and_iff)
qed

lemma framed_size_roundtrip: "EncodeFramedSize n = Inr f \<Longrightarrow> DecodeFramedSize f = n"
proof -
  assume e: "EncodeFramedSize n = Inr f"
  define off where "off = drop_bit 2 n"
  define v where "v = 0x80808080 OR (off AND 0x7F) OR push_bit 8 (drop_bit 7 off AND 0x7F) OR
    push_bit 16 (drop_bit 14 off AND 0x7F) OR push_bit 24 (drop_bit 21 off AND 0x7F)"
  have n: "\<not> n \<ge> 0x40000000" "n AND 3 = 0" and f: "f = byteSwap32 v"
    using e unfolding EncodeFramedSize_def Let_def if_Inl_iff v_def off_def by simp_all
  have "n < 0x40000000" using n(1) by simp
  from bits_above [OF this] have hi: "\<not> bit n 30" "\<not> bit n 31" by simp_all
  note lo = low_bits_clear [OF n(2)]
  have magic: "v AND 0x80808080 = 0x80808080" by (rule word32_eqI) (simp add: v_def bit_simps)
  have "push_bit 2 ((v AND 0x7F) OR push_bit 7 (drop_bit 8 v AND 0x7F) OR push_bit 14 (drop_bit 16 v AND 0x7F) OR
      push_bit 21 (drop_bit 24 v AND 0x7F)) = n"
    by (rule word32_eqI) (use hi lo in \<open>simp add: v_def off_def bit_simps numeral_2_eq_2 [symmetric] numeral_3_eq_3 [symmetric]\<close>)
  with magic show ?thesis by (simp add: DecodeFramedSize_def f byteSwap32_swap Let_def)
qed

lemma torn_frame:
  assumes "\<not> bit f 7 \<or> \<not> bit f 15 \<or> \<not> bit f 23 \<or> \<not> bit f 31"
  shows "DecodeFramedSize f = 0"
proof -
  have "byteSwap32 f AND 0x80808080 \<noteq> 0x80808080"
  proof
    assume "byteSwap32 f AND 0x80808080 = 0x80808080"
    then have "bit (byteSwap32 f AND 0x80808080) k = bit (0x80808080 :: uint32) k" for k by simp
    from this [of 7] this [of 15] this [of 23] this [of 31] assms show False
      by (simp add: byteSwap32_def bit_simps)
  qed
  then show ?thesis by (simp add: DecodeFramedSize_def)
qed

lemma bit_le_int: "n < 8 * length s \<Longrightarrow> bit (le_int s) n = bit (of_char (s ! (n div 8)) :: int) (n mod 8)"
proof (induction s arbitrary: n)
  case (Cons c s)
  have a: "take_bit 8 (of_char c :: int) = of_char c"
    using of_char_range [of c] by (simp add: take_bit_int_eq_self)
  have top: "\<not> bit (of_char c :: int) k" if "8 \<le> k" for k
    using a that by (metis bit_take_bit_iff leD)
  have "le_int (c # s) = of_char c + push_bit 8 (le_int s)" by (simp add: push_bit_eq_mult mult.commute)
  also have "\<dots> = of_char c OR push_bit 8 (le_int s)"
    by (rule disjunctive_add) (use top in \<open>auto simp: bit_simps not_less\<close>)
  finally have "le_int (c # s) = of_char c OR push_bit 8 (le_int s)" .
  then have *: "bit (le_int (c # s)) n = (if n < 8 then bit (of_char c :: int) n else bit (le_int s) (n - 8))"
    using top [of n] by (auto simp: bit_simps)
  show ?case
  proof (cases "n < 8")
    case False
    with Cons have "bit (le_int s) (n - 8) = bit (of_char (s ! ((n - 8) div 8)) :: int) ((n - 8) mod 8)" by simp
    moreover have "n div 8 = Suc ((n - 8) div 8)" "n mod 8 = (n - 8) mod 8"
      using False by (simp_all add: le_div_geq le_mod_geq)
    ultimately show ?thesis using * False by simp
  qed (use * in simp)
qed simp

lemma high_bit_clear: "(of_char c :: nat) < 128 \<Longrightarrow> \<not> bit (of_char c :: int) 7"
proof -
  assume c: "(of_char c :: nat) < 128"
  then have "take_bit 7 (of_char c :: nat) = of_char c" by (simp add: take_bit_nat_eq_self)
  then have "\<not> bit (of_char c :: nat) 7" by (metis bit_take_bit_iff less_irrefl)
  then show ?thesis by (metis bit_of_nat_iff_bit of_nat_of_char)
qed


unbundle bit_operations_syntax

lemma tx_header_bytes:
  assumes "EncodeTxHeader buf h = Inr out"
  shows "\<exists>framed. EncodeFramedSize (tx_Size h) = Inr framed \<and> length out = length buf \<and> 8 \<le> length buf \<and>
           dec32 out 0 = framed \<and> dec32 out 4 = tx_Type h \<and> drop 8 out = drop 8 buf"
proof -
  from assms obtain framed where f: "EncodeFramedSize (tx_Size h) = Inr framed" and l: "8 \<le> length buf"
    and out: "out = copy_at 4 (enc32 (tx_Type h)) (copy_at 0 (enc32 framed) buf)"
    unfolding EncodeTxHeader_def if_Inl_iff sum_case_Inr_iff by (auto simp: not_less)
  have "dec32 out 0 = framed" "dec32 out 4 = tx_Type h" using l by (simp_all add: out buffer_simps)
  moreover have "drop 8 out = drop 8 buf"
    by (rule nth_equalityI) (auto simp: out nth_copy_at)
  ultimately show ?thesis using f l by (simp add: out)
qed

lemma tx_header_roundtrip:
  assumes "8 \<le> tx_Size h" and "EncodeTxHeader buf h = Inr out"
  shows "DecodeTxHeader out = Inr h"
proof -
  from tx_header_bytes [OF assms(2)] obtain framed where f: "EncodeFramedSize (tx_Size h) = Inr framed"
    and o: "length out = length buf" "8 \<le> length buf" "dec32 out 0 = framed" "dec32 out 4 = tx_Type h" by blast
  have z: "\<not> tx_Size h < 8" "tx_Size h \<noteq> 0" using assms(1) by auto
  show ?thesis
    unfolding DecodeTxHeader_def Let_def o(3,4) framed_size_roundtrip [OF f] if_not_P [OF z(1)] if_not_P [OF z(2)]
    using o(1,2) by simp
qed

text \<open>C30. Transaction headers survive the disk and a torn one is never taken for a header: what
  \<^verbatim>\<open>EncodeTxHeader\<close> writes for a size of at least eight reads back as the same size and type; and
  eight bytes of which one of the first four lacks its high bit, as after a partly written frame on a zeroed
  block, are refused as corrupt.\<close>

theorem tx_header_torn_or_intact:
  "(8 \<le> tx_Size h \<longrightarrow> EncodeTxHeader buf h = Inr out \<longrightarrow> DecodeTxHeader out = Inr h) \<and>
   (8 \<le> length t \<longrightarrow> i < 4 \<longrightarrow> (of_char (t ! i) :: nat) < 128 \<longrightarrow> DecodeTxHeader t = Inl ErrCorrupted)"
proof (intro conjI impI)
  assume "8 \<le> tx_Size h" and "EncodeTxHeader buf h = Inr out"
  then show "DecodeTxHeader out = Inr h" by (rule tx_header_roundtrip)
next
  assume t: "8 \<le> length t" and i: "i < 4" and c: "(of_char (t ! i) :: nat) < 128"
  have "\<not> bit (dec32 t 0) (8 * i + 7)"
  proof -
    have "bit (le_int (sub_bytes 0 4 t)) (8 * i + 7) = bit (of_char (sub_bytes 0 4 t ! i) :: int) 7"
      using bit_le_int [of "8 * i + 7" "sub_bytes 0 4 t"] t i by simp
    also have "\<dots> = bit (of_char (t ! i) :: int) 7" using t i by (simp add: nth_sub_bytes)
    finally show ?thesis using high_bit_clear [OF c] by (simp add: dec32_def bit_word_of_int_iff)
  qed
  moreover have "8 * i + 7 \<in> {7, 15, 23, 31}" using i by auto
  ultimately have "DecodeFramedSize (dec32 t 0) = 0" by (intro torn_frame) auto
  then show "DecodeTxHeader t = Inl ErrCorrupted" using t by (simp add: DecodeTxHeader_def)
qed

theorem tx_header_torn_or_intact_witness:
  "DecodeTxHeader [CHR 0x80, CHR 0x80, CHR 0x80, CHR 0x00, CHR 0x02, CHR 0x00, CHR 0x00, CHR 0x00] = Inl ErrCorrupted"
  using tx_header_torn_or_intact [of "\<lparr> tx_Size = 8, tx_Type = 2 \<rparr>" "[]" "[]"
      "[CHR 0x80, CHR 0x80, CHR 0x80, CHR 0x00, CHR 0x02, CHR 0x00, CHR 0x00, CHR 0x00]" 3]
  by simp

section \<open>Payloads\<close>

lemma decode_pairs_Cons: "decode_pairs (uid_pair r @ p) = r # decode_pairs p"
  by (subst decode_pairs.simps) (simp add: uid_pair_def dec32_def sub_bytes_def le_int_enc)

lemma decode_pairs_concat: "length t < 8 \<Longrightarrow> decode_pairs (concat (map uid_pair rs) @ t) = rs"
  by (induction rs) (simp_all add: decode_pairs_Cons decode_pairs.simps [of t])

lemma keyword_header:
  assumes "N = length name" and "N < 2 ^ 16" and "H = 4 + N + pad4 (4 + N)"
  shows "dec8 (write_all [(0, enc8 a), (1, enc8 b), (2, enc16 (of_nat N)), (4, name)] (zeros H) @ t) 0 = a"
    "dec8 (write_all [(0, enc8 a), (1, enc8 b), (2, enc16 (of_nat N)), (4, name)] (zeros H) @ t) 1 = b"
    "unat (dec16 (write_all [(0, enc8 a), (1, enc8 b), (2, enc16 (of_nat N)), (4, name)] (zeros H) @ t) 2) = N"
    "sub_bytes 4 N (write_all [(0, enc8 a), (1, enc8 b), (2, enc16 (of_nat N)), (4, name)] (zeros H) @ t) = name"
proof -
  let ?ws = "[(0, enc8 a), (1, enc8 b), (2, enc16 (of_nat N)), (4, name)]"
  let ?b = "write_all ?ws (zeros H)"
  have asc: "ascending_writes ?ws" by simp
  have app: "sub_bytes k n (?b @ t) = sub_bytes k n ?b" if "k + n \<le> H" for k n
    using that by (simp add: sub_bytes_def)
  have "sub_bytes 0 1 ?b = enc8 a" "sub_bytes 1 1 ?b = enc8 b" "sub_bytes 2 2 ?b = enc16 (of_nat N)"
    "sub_bytes 4 N ?b = name"
    using write_all_read [OF asc, of 0 "enc8 a" "zeros H"] write_all_read [OF asc, of 1 "enc8 b" "zeros H"]
      write_all_read [OF asc, of 2 "enc16 (of_nat N)" "zeros H"] write_all_read [OF asc, of 4 name "zeros H"] assms
    by simp_all
  then have s: "sub_bytes 0 1 (?b @ t) = enc8 a" "sub_bytes 1 1 (?b @ t) = enc8 b"
    "sub_bytes 2 2 (?b @ t) = enc16 (of_nat N)" "sub_bytes 4 N (?b @ t) = name"
    using app [of 0 1] app [of 1 1] app [of 2 2] app [of 4 N] assms by simp_all
  have "unat (of_nat N :: uint16) = N" using assms(2) by (simp add: unat_of_nat take_bit_nat_eq_self)
  with s show "dec8 (?b @ t) 0 = a" "dec8 (?b @ t) 1 = b" "unat (dec16 (?b @ t) 2) = N" "sub_bytes 4 N (?b @ t) = name"
    using dec_sub(1) [OF s(1)] dec_sub(1) [OF s(2)] dec_sub(2) [OF s(3)] by simp_all
qed

text \<open>C31. The payloads a replay decodes come back as they were encoded, whatever fewer than eight bytes of padding
  or torn entry follow: keyword updates with a name of up to 65535 bytes, keyword resets and refcount
  increments.\<close>

theorem tx_payload_roundtrip:
  assumes "length t < 8"
  shows "DecodeTxExtAtomicIncPayload (EncodeTxExtAtomicIncPayload incs @ t) = incs \<and>
         DecodeTxKeywordResetPayload (EncodeTxKeywordResetPayload resets @ t) = resets \<and>
         (length (ku_Name ku) < 2 ^ 16 \<longrightarrow>
            DecodeTxKeywordUpdatePayload (EncodeTxKeywordUpdatePayload ku @ t) = Some ku)"
proof (intro conjI impI)
  have "decode_pairs (concat (map (\<lambda>r. uid_pair (ai_UID r, ai_Diff r)) incs) @ t) =
      map (\<lambda>r. (ai_UID r, ai_Diff r)) incs"
    using decode_pairs_concat [OF assms, of "map (\<lambda>r. (ai_UID r, ai_Diff r)) incs"] by (simp add: comp_def)
  then show "DecodeTxExtAtomicIncPayload (EncodeTxExtAtomicIncPayload incs @ t) = incs"
    by (simp add: DecodeTxExtAtomicIncPayload_def EncodeTxExtAtomicIncPayload_def comp_def map_idI)
  show "DecodeTxKeywordResetPayload (EncodeTxKeywordResetPayload resets @ t) = resets"
    using decode_pairs_concat [OF assms]
    by (simp add: DecodeTxKeywordResetPayload_def EncodeTxKeywordResetPayload_def)
next
  assume n: "length (ku_Name ku) < 2 ^ 16"
  let ?H = "4 + length (ku_Name ku) + pad4 (4 + length (ku_Name ku))"
  note h = keyword_header [OF refl n refl, of "ku_ModifyType ku" "ku_Padding ku" "concat (map uid_pair (ku_UIDRanges ku)) @ t"]
  show "DecodeTxKeywordUpdatePayload (EncodeTxKeywordUpdatePayload ku @ t) = Some ku"
    using decode_pairs_concat [OF assms]
    unfolding DecodeTxKeywordUpdatePayload_def EncodeTxKeywordUpdatePayload_def Let_def append_assoc h by simp
qed

theorem tx_payload_roundtrip_witness:
  "DecodeTxKeywordUpdatePayload (EncodeTxKeywordUpdatePayload
     \<lparr> ku_ModifyType = 0, ku_Padding = 0, ku_Name = ''$Junk'', ku_UIDRanges = [(1, 5), (9, 9)] \<rparr> @ zeros 3) =
   Some \<lparr> ku_ModifyType = 0, ku_Padding = 0, ku_Name = ''$Junk'', ku_UIDRanges = [(1, 5), (9, 9)] \<rparr>"
  using tx_payload_roundtrip [of "zeros 3" "[]" "[]"
      "\<lparr> ku_ModifyType = 0, ku_Padding = 0, ku_Name = ''$Junk'', ku_UIDRanges = [(1, 5), (9, 9)] \<rparr>"]
  by simp


section \<open>The log header reads back\<close>

lemma log_header_ascending: "ascending_writes (log_header_writes h)"
  by (simp add: log_header_writes_def)

lemma length_LogHeader_EncodeBytes [simp]: "length (LogHeader_EncodeBytes h) = LogHeaderSize"
  by (simp add: LogHeader_EncodeBytes_def LogHeader_encodeInto_def)

lemma log_header_fields:
  "dec8 (LogHeader_EncodeBytes h) 0 = lh_MajorVersion h" "dec8 (LogHeader_EncodeBytes h) 1 = lh_MinorVersion h"
  "dec16 (LogHeader_EncodeBytes h) 2 = lh_HdrSize h" "dec32 (LogHeader_EncodeBytes h) 4 = lh_IndexID h"
  "dec32 (LogHeader_EncodeBytes h) 8 = lh_FileSeq h" "dec32 (LogHeader_EncodeBytes h) 12 = lh_PrevFileSeq h"
  "dec32 (LogHeader_EncodeBytes h) 16 = lh_PrevFileOffset h" "dec32 (LogHeader_EncodeBytes h) 20 = lh_CreateStamp h"
  "dec64 (LogHeader_EncodeBytes h) 24 = lh_InitialModSeq h" "dec8 (LogHeader_EncodeBytes h) 32 = lh_CompatFlags h"
  unfolding LogHeader_EncodeBytes_def LogHeader_encodeInto_def
  by (rule dec_write_all [OF log_header_ascending]; simp add: log_header_writes_def LogHeaderSize_def)+

lemma dec_take:
  "k + 1 \<le> n \<Longrightarrow> dec8 (take n s) k = dec8 s k" "k + 2 \<le> n \<Longrightarrow> dec16 (take n s) k = dec16 s k"
  by (simp_all add: dec8_def dec16_def sub_bytes_def drop_take)

lemma log_header_roundtrip:
  assumes "lh_MajorVersion h = LogMajorVersion" and "lh_HdrSize h = 40"
  shows "DecodeLogHeader (LogHeader_EncodeBytes h @ r) = Inr (h, r)"
proof -
  let ?b = "LogHeader_EncodeBytes h"
  have l: "length ?b = 40" by (simp add: LogHeaderSize_def)
  have r4: "ReadFull 4 (?b @ r) = Inr (take 4 ?b, drop 4 ?b @ r)" using l by (simp add: ReadFull_def LogHeaderSize_def)
  have p: "dec8 (take 4 ?b) 0 = LogMajorVersion" "dec8 (take 4 ?b) 1 = lh_MinorVersion h" "dec16 (take 4 ?b) 2 = 40"
    using assms log_header_fields(1-3) [of h] dec_take(1) [of 0 4 ?b] dec_take(1) [of 1 4 ?b] dec_take(2) [of 2 4 ?b]
    by simp_all
  have r36: "ReadFull 36 (drop 4 ?b @ r) = Inr (drop 4 ?b, r)" using l by (simp add: ReadFull_def LogHeaderSize_def)
  have d: "LogHeader_decodeFrom ?b x = h"
    if "lh_MajorVersion x = LogMajorVersion" "lh_MinorVersion x = lh_MinorVersion h" "lh_HdrSize x = 40" for x
    using that assms l unfolding LogHeader_decodeFrom_def log_header_fields
    by (intro LogHeader.equality) simp_all
  show ?thesis
    unfolding DecodeLogHeader_def r4 sum.case prod.case Let_def p
    using r36 l d by (simp add: LogHeaderMinSize_def LogHeaderSize_def)
qed

end
