(* ===== verification/Mdbox_Store.thy ===== *)
theory Mdbox_Store
  imports Mail_Log
begin

text \<open>
  The record area of the mdbox map index, package \<^verbatim>\<open>internal/storage/mailbox/mdbox/mdboxmap\<close>: the codecs
  of \<^verbatim>\<open>format.go\<close>, the fixed-width base format of \<^verbatim>\<open>formatv2.go\<close> and the byte store of \<^verbatim>\<open>store.go\<close>, whose
  records are kept as raw bytes in ascending order of \<^verbatim>\<open>map_uid\<close> and found by binary search.  The store is
  shown to refine a finite map from \<^verbatim>\<open>map_uid\<close>s to entries, through the interface \<open>entry_store\<close>.

  A \<^verbatim>\<open>[16]byte\<close> is a string of sixteen bytes.  An index handed to \<open>store_at\<close> or \<open>setAt\<close> is below
  \<open>store_count\<close> at every call, where no slice expression of the code panics.
\<close>

section \<open>Entries and extension codecs\<close>

definition extMap :: string where "extMap = ''map''"
definition extMapSize :: nat where "extMapSize = 12"
definition extRef :: string where "extRef = ''ref''"
definition extRefSize :: nat where "extRefSize = 2"
definition extGUID :: string where "extGUID = ''guid''"
definition extGUIDSize :: nat where "extGUIDSize = 16"
definition mapHeaderSize :: nat where "mapHeaderSize = 20"
definition mapHeaderRebuildSize :: nat where "mapHeaderRebuildSize = 8"

record MapEntry =
  me_UID :: uint32
  me_FileID :: uint32
  me_Offset :: uint32
  me_Size :: uint32
  me_RefCount :: uint16
  me_GUID :: string

definition encodeMapExt :: "uint32 \<Rightarrow> uint32 \<Rightarrow> uint32 \<Rightarrow> string" where
  "encodeMapExt fileID offset sz =
     write_all [(0, enc32 fileID), (4, enc32 offset), (8, enc32 sz)] (zeros extMapSize)"

datatype map_error =
    ShortMapExt nat
  | UnknownBaseVersion uint8 bool
  | BaseRecordSize uint32

definition decodeMapExt :: "string \<Rightarrow> map_error + uint32 \<times> uint32 \<times> uint32" where
  "decodeMapExt b =
    (if length b < extMapSize then Inl (ShortMapExt (length b))
     else Inr (dec32 b 0, dec32 b 4, dec32 b 8))"

definition encodeRefExt :: "uint16 \<Rightarrow> string" where
  "encodeRefExt r = copy_at 0 (enc16 r) (zeros extRefSize)"

definition decodeRefExt :: "string \<Rightarrow> uint16" where
  "decodeRefExt b = (if length b < extRefSize then 0 else dec16 b 0)"

definition encodeMapHeader :: "uint32 \<Rightarrow> uint32 \<Rightarrow> uint32 \<Rightarrow> uint64 \<Rightarrow> string" where
  "encodeMapHeader highestFileID rebuildCount createFileID createTime =
     write_all [(0, enc32 highestFileID), (4, enc32 rebuildCount), (8, enc32 createFileID),
                (12, enc64 createTime)] (zeros mapHeaderSize)"

definition decodeMapHeader :: "string \<Rightarrow> uint32 \<times> uint32 \<times> uint32 \<times> uint64" where
  "decodeMapHeader b =
    (if length b \<ge> 4 then dec32 b 0 else 0,
     if length b \<ge> mapHeaderRebuildSize then dec32 b 4 else 0,
     if length b \<ge> mapHeaderSize then dec32 b 8 else 0,
     if length b \<ge> mapHeaderSize then dec64 b 12 else 0)"

definition encodeGUIDExt :: "string \<Rightarrow> string" where
  "encodeGUIDExt guid = copy_at 0 guid (zeros extGUIDSize)"

definition decodeGUIDExt :: "string \<Rightarrow> string" where
  "decodeGUIDExt b = (if length b \<ge> extGUIDSize then take extGUIDSize b else zeros 16)"

definition defaultExtensions :: "uint32 \<Rightarrow> Extension list" where
  "defaultExtensions highestFileID =
    [\<lparr> ext_Name = extMap, ext_HdrSize = of_nat mapHeaderSize, ext_RecordSize = of_nat extMapSize,
       ext_RecordAlign = 4, ext_ResetID = 0, ext_RecordOffset = 0,
       ext_HdrData = encodeMapHeader highestFileID 0 0 0 \<rparr>,
     \<lparr> ext_Name = extRef, ext_HdrSize = 0, ext_RecordSize = of_nat extRefSize, ext_RecordAlign = 2,
       ext_ResetID = 0, ext_RecordOffset = 0, ext_HdrData = [] \<rparr>,
     \<lparr> ext_Name = extGUID, ext_HdrSize = 0, ext_RecordSize = of_nat extGUIDSize, ext_RecordAlign = 1,
       ext_ResetID = 0, ext_RecordOffset = 0, ext_HdrData = [] \<rparr>]"

section \<open>The base header\<close>

definition baseMagic :: string where "baseMagic = ''YMAP''"
definition baseVersion2 :: uint8 where "baseVersion2 = 2"
definition baseHeaderLen :: nat where "baseHeaderLen = 80"
definition baseRecordLen :: nat where "baseRecordLen = 36"

record baseHeader =
  bh_Version :: uint8
  bh_RecordSize :: uint32
  bh_RecordCount :: uint32
  bh_NextMapUID :: uint32
  bh_HighestFileID :: uint32
  bh_RebuildCount :: uint32
  bh_CreateFileID :: uint32
  bh_CreateTime :: uint64
  bh_Lineage :: uint32
  bh_FoldedLineage :: uint32
  bh_FoldedOffset :: uint64
  bh_RecordsDigest :: uint64
  bh_IndexID :: uint32

definition base_header_writes :: "baseHeader \<Rightarrow> (nat \<times> string) list" where
  "base_header_writes h =
    [(0, baseMagic), (4, enc8 baseVersion2), (8, enc32 (bh_RecordSize h)), (12, enc32 (bh_RecordCount h)),
     (16, enc32 (bh_NextMapUID h)), (20, enc32 (bh_HighestFileID h)), (24, enc32 (bh_RebuildCount h)),
     (28, enc32 (bh_CreateFileID h)), (32, enc64 (bh_CreateTime h)), (40, enc64 (bh_FoldedOffset h)),
     (48, enc64 (bh_RecordsDigest h)), (56, enc32 (bh_IndexID h)), (60, enc32 (bh_Lineage h)),
     (64, enc32 (bh_FoldedLineage h))]"

definition encodeBaseHeader :: "baseHeader \<Rightarrow> string" where
  "encodeBaseHeader h = write_all (base_header_writes h) (zeros baseHeaderLen)"

definition decodeBaseHeader :: "string \<Rightarrow> map_error + baseHeader" where
  "decodeBaseHeader b =
    (if length b < baseHeaderLen then Inl (UnknownBaseVersion 0 False)
     else if sub_bytes 0 4 b \<noteq> baseMagic then Inl (UnknownBaseVersion 0 False)
     else if dec8 b 4 \<noteq> baseVersion2 then Inl (UnknownBaseVersion (dec8 b 4) True)
     else
       let h = \<lparr> bh_Version = dec8 b 4, bh_RecordSize = dec32 b 8, bh_RecordCount = dec32 b 12,
                 bh_NextMapUID = dec32 b 16, bh_HighestFileID = dec32 b 20, bh_RebuildCount = dec32 b 24,
                 bh_CreateFileID = dec32 b 28, bh_CreateTime = dec64 b 32, bh_Lineage = dec32 b 60,
                 bh_FoldedLineage = dec32 b 64, bh_FoldedOffset = dec64 b 40, bh_RecordsDigest = dec64 b 48,
                 bh_IndexID = dec32 b 56 \<rparr>
       in if bh_RecordSize h \<noteq> of_nat baseRecordLen then Inl (BaseRecordSize (bh_RecordSize h)) else Inr h)"

section \<open>Records\<close>

definition record_writes :: "MapEntry \<Rightarrow> (nat \<times> string) list" where
  "record_writes e =
    [(0, enc32 (me_UID e)), (4, enc32 (me_FileID e)), (8, enc32 (me_Offset e)), (12, enc32 (me_Size e)),
     (16, enc16 (me_RefCount e)), (18, enc16 0), (20, me_GUID e)]"

definition putRecord :: "string \<Rightarrow> MapEntry \<Rightarrow> string" where
  "putRecord b e = write_all (record_writes e) b"

definition getRecord :: "string \<Rightarrow> MapEntry" where
  "getRecord b =
    \<lparr> me_UID = dec32 b 0, me_FileID = dec32 b 4, me_Offset = dec32 b 8, me_Size = dec32 b 12,
      me_RefCount = dec16 b 16, me_GUID = sub_bytes 20 16 b \<rparr>"

definition recordUID :: "string \<Rightarrow> uint32" where
  "recordUID b = dec32 b 0"

definition digestRecords :: "string \<Rightarrow> uint64" where
  "digestRecords recs =
     fold (\<lambda>c h. (h XOR word_of_int (of_char c)) * 1099511628211) recs 14695981039346656037"

section \<open>The store\<close>

record store =
  st_recs :: string

definition store_count :: "store \<Rightarrow> nat" where
  "store_count s = length (st_recs s) div baseRecordLen"

definition store_at :: "store \<Rightarrow> nat \<Rightarrow> MapEntry" where
  "store_at s i = getRecord (drop (i * baseRecordLen) (st_recs s))"

definition setAt :: "store \<Rightarrow> nat \<Rightarrow> MapEntry \<Rightarrow> store" where
  "setAt s i e =
    (let k = i * baseRecordLen in s \<lparr> st_recs := take k (st_recs s) @ putRecord (drop k (st_recs s)) e \<rparr>)"

definition store_find :: "store \<Rightarrow> uint32 \<Rightarrow> nat \<times> bool" where
  "store_find s uid =
    (let n = store_count s;
         i = sort_search n (\<lambda>i. recordUID (drop (i * baseRecordLen) (st_recs s)) \<ge> uid)
     in if i < n \<and> recordUID (drop (i * baseRecordLen) (st_recs s)) = uid then (i, True) else (i, False))"

definition store_insert :: "store \<Rightarrow> MapEntry \<Rightarrow> store" where
  "store_insert s e =
    (let buf = putRecord (zeros baseRecordLen) e; n = store_count s; recs = st_recs s
     in if n = 0 \<or> recordUID (drop ((n - 1) * baseRecordLen) recs) < me_UID e
        then s \<lparr> st_recs := recs @ buf \<rparr>
        else
          (case store_find s (me_UID e) of
             (i, True) \<Rightarrow> s \<lparr> st_recs := copy_at (i * baseRecordLen) buf recs \<rparr>
           | (i, False) \<Rightarrow>
               let grown = recs @ zeros baseRecordLen; k = i * baseRecordLen;
                   shifted = copy_at ((i + 1) * baseRecordLen)
                     (sub_bytes k (length grown - baseRecordLen - k) grown) grown
               in s \<lparr> st_recs := copy_at k buf shifted \<rparr>))"

text \<open>The loop of \<^verbatim>\<open>removeFunc\<close> from index \<open>i\<close>, over \<open>m\<close> more records.\<close>

fun remove_loop :: "(uint32 \<Rightarrow> bool) \<Rightarrow> nat \<Rightarrow> nat \<Rightarrow> nat \<Rightarrow> string \<Rightarrow> nat \<times> string" where
  "remove_loop drp i 0 kept recs = (kept, recs)"
| "remove_loop drp i (Suc m) kept recs =
    (if drp (recordUID (drop (i * baseRecordLen) recs)) then remove_loop drp (i + 1) m kept recs
     else remove_loop drp (i + 1) m (kept + 1)
            (if kept \<noteq> i
             then copy_at (kept * baseRecordLen) (sub_bytes (i * baseRecordLen) baseRecordLen recs) recs
             else recs))"

definition removeFunc :: "store \<Rightarrow> (uint32 \<Rightarrow> bool) \<Rightarrow> nat \<times> store" where
  "removeFunc s drp =
    (let n = store_count s; (kept, recs) = remove_loop drp 0 n 0 (st_recs s)
     in (n - kept, s \<lparr> st_recs := take (kept * baseRecordLen) recs \<rparr>))"

text \<open>\<^verbatim>\<open>each\<close> calls its function on these entries in turn.\<close>

definition each :: "store \<Rightarrow> MapEntry list" where
  "each s = map (store_at s) [0..<store_count s]"


section \<open>Blocks of equal length\<close>

abbreviation blocks :: "nat \<Rightarrow> string list \<Rightarrow> bool" where
  "blocks n cs \<equiv> list_all (\<lambda>c. length c = n) cs"

lemma length_blocks: "blocks n cs \<Longrightarrow> length (concat cs) = length cs * n"
  by (induction cs) auto

lemma drop_blocks: "blocks n cs \<Longrightarrow> drop (i * n) (concat cs) = concat (drop i cs)"
proof (induction i arbitrary: cs)
  case (Suc i)
  then show ?case by (cases cs) auto
qed simp

lemma take_blocks: "blocks n cs \<Longrightarrow> take (i * n) (concat cs) = concat (take i cs)"
proof (induction i arbitrary: cs)
  case (Suc i)
  then show ?case by (cases cs) auto
qed simp

lemma sub_blocks: "blocks n cs \<Longrightarrow> sub_bytes (i * n) (m * n) (concat cs) = concat (take m (drop i cs))"
  using take_blocks [of n "drop i cs" m] drop_blocks [of n cs i]
  by (simp add: sub_bytes_def list_all_iff) (meson in_set_dropD)

lemma copy_blocks:
  assumes "blocks n cs" and "blocks n ds" and "i + length ds \<le> length cs"
  shows "copy_at (i * n) (concat ds) (concat cs) = concat (take i cs @ ds @ drop (i + length ds) cs)"
proof -
  have "i * n + length (concat ds) = (i + length ds) * n" using length_blocks [OF assms(2)] by (simp add: algebra_simps)
  then have *: "take (i * n) (concat cs) @ concat ds @ drop (i * n + length (concat ds)) (concat cs) =
      concat (take i cs @ ds @ drop (i + length ds) cs)"
    using take_blocks [OF assms(1), of i] drop_blocks [OF assms(1), of "i + length ds"] by simp
  have "blocks n (take i cs @ ds @ drop (i + length ds) cs)"
    using assms(1,2) by (auto simp: list_all_iff dest: in_set_takeD in_set_dropD)
  from length_blocks [OF this] have "length (concat (take i cs @ ds @ drop (i + length ds) cs)) = length (concat cs)"
    using assms(3) length_blocks [OF assms(1)] by simp
  then show ?thesis unfolding copy_at_def * by simp
qed

lemma blocks_exist:
  assumes "n > 0" and "length s = m * n"
  shows "\<exists>cs. s = concat cs \<and> blocks n cs \<and> length cs = m"
  using assms(2)
proof (induction m arbitrary: s)
  case (Suc m)
  then have "length (drop n s) = m * n" by simp
  with Suc.IH obtain cs where "drop n s = concat cs" "blocks n cs" "length cs = m" by blast
  moreover from this have "s = take n s @ concat cs" by (metis append_take_drop_id)
  ultimately show ?case using Suc.prems by (intro exI [of _ "take n s # cs"]) simp
qed simp

lemma blocks_update: "blocks n cs \<Longrightarrow> length c = n \<Longrightarrow> blocks n (cs[i := c])"
  by (induction cs arbitrary: i) (auto split: nat.splits)

section \<open>One record\<close>

abbreviation entry_ok :: "MapEntry \<Rightarrow> bool" where
  "entry_ok e \<equiv> length (me_GUID e) = 16"

lemma copy_at_append: "k + length bs \<le> length b \<Longrightarrow> copy_at k bs (b @ t) = copy_at k bs b @ t"
  by (simp add: copy_at_def)

lemma putRecord_append:
  "length b = baseRecordLen \<Longrightarrow> entry_ok e \<Longrightarrow> putRecord (b @ t) e = putRecord b e @ t"
  by (simp add: putRecord_def record_writes_def baseRecordLen_def copy_at_append)

lemma length_putRecord [simp]: "length (putRecord b e) = length b"
  by (simp add: putRecord_def)

lemma record_ascending: "ascending_writes (record_writes e)"
  by (simp add: record_writes_def)

lemma getRecord_putRecord:
  assumes "entry_ok e" and "length b = baseRecordLen"
  shows "getRecord (putRecord b e) = e"
proof -
  have r: "sub_bytes k (length bs) (putRecord b e) = bs" if "(k, bs) \<in> set (record_writes e)" for k bs
    unfolding putRecord_def
    by (rule write_all_read [OF record_ascending that]) (use that assms in \<open>auto simp: record_writes_def baseRecordLen_def\<close>)
  have "sub_bytes 20 16 (putRecord b e) = me_GUID e"
    using r [of 20 "me_GUID e"] assms(1) by (simp add: record_writes_def)
  then show ?thesis
    unfolding getRecord_def using assms
    by (simp add: putRecord_def dec_write_all [OF record_ascending] record_writes_def baseRecordLen_def buffer_simps)
qed

lemma getRecord_append: "length b = baseRecordLen \<Longrightarrow> getRecord (b @ t) = getRecord b"
  by (simp add: getRecord_def baseRecordLen_def buffer_simps sub_bytes_def)

lemma recordUID_append: "length b = baseRecordLen \<Longrightarrow> recordUID (b @ t) = recordUID b"
  by (simp add: recordUID_def baseRecordLen_def buffer_simps)

lemma recordUID_get: "recordUID b = me_UID (getRecord b)"
  by (simp add: recordUID_def getRecord_def)

lemma entry_ok_get: "length b = baseRecordLen \<Longrightarrow> entry_ok (getRecord b)"
  by (simp add: getRecord_def baseRecordLen_def)

text \<open>A record covers all its bytes, whatever they were.\<close>

lemma putRecord_total:
  assumes "entry_ok e" and "length b = baseRecordLen"
  shows "putRecord b e = putRecord (zeros baseRecordLen) e"
proof (rule nth_equalityI)
  fix i assume "i < length (putRecord b e)"
  then have i: "i < 36" using assms(2) by (simp add: baseRecordLen_def)
  then show "putRecord b e ! i = putRecord (zeros baseRecordLen) e ! i"
    using assms by (simp add: putRecord_def record_writes_def nth_copy_at baseRecordLen_def)
qed (use assms in simp)


section \<open>The store over its blocks\<close>

abbreviation store_of :: "string list \<Rightarrow> store" where
  "store_of cs \<equiv> \<lparr> st_recs = concat cs \<rparr>"

abbreviation rec_blocks :: "string list \<Rightarrow> bool" where
  "rec_blocks cs \<equiv> blocks baseRecordLen cs"

abbreviation rec_bytes :: "MapEntry \<Rightarrow> string" where
  "rec_bytes e \<equiv> putRecord (zeros baseRecordLen) e"

lemma baseRecordLen_pos [simp]: "0 < baseRecordLen"
  by (simp add: baseRecordLen_def)

lemma count_blocks: "rec_blocks cs \<Longrightarrow> store_count (store_of cs) = length cs"
  by (simp add: store_count_def length_blocks)

lemma drop_block:
  "rec_blocks cs \<Longrightarrow> i < length cs \<Longrightarrow> drop (i * baseRecordLen) (concat cs) = cs ! i @ concat (drop (i + 1) cs)"
  by (simp add: drop_blocks Cons_nth_drop_Suc [symmetric])

lemma length_block: "rec_blocks cs \<Longrightarrow> i < length cs \<Longrightarrow> length (cs ! i) = baseRecordLen"
  by (simp add: list_all_length)

lemma at_blocks: "rec_blocks cs \<Longrightarrow> i < length cs \<Longrightarrow> store_at (store_of cs) i = getRecord (cs ! i)"
  by (simp add: store_at_def drop_block getRecord_append length_block)

lemma uid_blocks:
  "rec_blocks cs \<Longrightarrow> i < length cs \<Longrightarrow> recordUID (drop (i * baseRecordLen) (concat cs)) = recordUID (cs ! i)"
  by (simp add: drop_block recordUID_append length_block)

lemma each_blocks: "rec_blocks cs \<Longrightarrow> each (store_of cs) = map getRecord cs"
  by (rule nth_equalityI) (simp_all add: each_def count_blocks at_blocks)

lemma setAt_blocks:
  assumes "rec_blocks cs" and "i < length cs" and "entry_ok e"
  shows "setAt (store_of cs) i e = store_of (cs[i := rec_bytes e])"
proof -
  have "putRecord (drop (i * baseRecordLen) (concat cs)) e = rec_bytes e @ concat (drop (i + 1) cs)"
    using assms by (simp add: drop_block putRecord_append length_block putRecord_total [OF assms(3), of "cs ! i"])
  then show ?thesis
    using assms by (simp add: setAt_def take_blocks upd_conv_take_nth_drop)
qed

text \<open>The binary search splits the records at the first \<^verbatim>\<open>map_uid\<close> that is not below the one sought.\<close>

abbreviation uid_sorted :: "string list \<Rightarrow> bool" where
  "uid_sorted cs \<equiv> sorted_wrt (<) (map recordUID cs)"

lemma uid_nth_less: "uid_sorted cs \<Longrightarrow> i < k \<Longrightarrow> k < length cs \<Longrightarrow> recordUID (cs ! i) < recordUID (cs ! k)"
  by (simp add: sorted_wrt_iff_nth_less)

lemma uid_nth_le:
  assumes "uid_sorted cs" and "i \<le> k" and "k < length cs"
  shows "recordUID (cs ! i) \<le> recordUID (cs ! k)"
proof (cases "i = k")
  case False
  with assms(2) have "i < k" by simp
  from uid_nth_less [OF assms(1) this assms(3)] show ?thesis by (rule less_imp_le)
qed (rule eq_refl, simp)

lemma find_blocks:
  assumes "rec_blocks cs" and "uid_sorted cs"
  shows "\<exists>i. store_find (store_of cs) uid = (i, i < length cs \<and> recordUID (cs ! i) = uid) \<and> i \<le> length cs \<and>
           (\<forall>k < i. recordUID (cs ! k) < uid) \<and> (\<forall>k. i \<le> k \<and> k < length cs \<longrightarrow> \<not> recordUID (cs ! k) < uid)"
proof -
  let ?n = "length cs" and ?f = "\<lambda>i. recordUID (drop (i * baseRecordLen) (concat cs)) \<ge> uid"
  let ?i = "sort_search ?n ?f"
  have f: "?f k \<longleftrightarrow> uid \<le> recordUID (cs ! k)" if "k < ?n" for k
    unfolding uid_blocks [OF assms(1) that] by (rule refl)
  have "up_closed ?f ?n"
    unfolding up_closed_def
  proof (intro allI impI)
    fix k l assume kl: "?f k" "k \<le> l" "l < ?n"
    then have "k < ?n" by simp
    from kl(1) [unfolded f [OF this]] uid_nth_le [OF assms(2) kl(2,3)] show "?f l"
      unfolding f [OF kl(3)] by (rule order_trans)
  qed
  from sort_search_spec [OF this] have sp: "?i \<le> ?n" "\<forall>k < ?i. \<not> ?f k" "\<forall>k. ?i \<le> k \<and> k < ?n \<longrightarrow> ?f k"
    unfolding splits_at_def by blast+
  have "store_find (store_of cs) uid = (?i, ?i < ?n \<and> recordUID (cs ! ?i) = uid)"
    unfolding store_find_def Let_def count_blocks [OF assms(1)] store.simps
    using uid_blocks [OF assms(1), of ?i] by (cases "?i < ?n") simp_all
  moreover have "\<forall>k < ?i. recordUID (cs ! k) < uid"
  proof (intro allI impI)
    fix k assume k: "k < ?i"
    with sp(1) have "k < ?n" by simp
    from sp(2) [rule_format, OF k] show "recordUID (cs ! k) < uid" unfolding f [OF \<open>k < ?n\<close>] not_le .
  qed
  moreover have "\<forall>k. ?i \<le> k \<and> k < ?n \<longrightarrow> \<not> recordUID (cs ! k) < uid"
  proof (intro allI impI)
    fix k assume k: "?i \<le> k \<and> k < ?n"
    from sp(3) [rule_format, OF k] show "\<not> recordUID (cs ! k) < uid"
      unfolding f [OF conjunct2 [OF k]] not_less .
  qed
  ultimately show ?thesis using sp(1) by blast
qed

lemma split_at_filter:
  assumes "\<forall>k < i. P (xs ! k)" and "\<forall>k. i \<le> k \<and> k < length xs \<longrightarrow> \<not> P (xs ! k)" and "i \<le> length xs"
  shows "filter P xs = take i xs" and "filter (\<lambda>x. \<not> P x) xs = drop i xs"
proof -
  have t: "\<forall>x \<in> set (take i xs). P x" and d: "\<forall>x \<in> set (drop i xs). \<not> P x"
    using assms by (auto simp: in_set_conv_nth)
  have "filter P (take i xs @ drop i xs) = take i xs" "filter (\<lambda>x. \<not> P x) (take i xs @ drop i xs) = drop i xs"
    using t d by (simp_all add: filter_id_conv filter_empty_conv del: append_take_drop_id)
  then show "filter P xs = take i xs" "filter (\<lambda>x. \<not> P x) xs = drop i xs" by simp_all
qed

text \<open>Whatever branch it takes, \<^verbatim>\<open>insert\<close> puts the record between the lower and the higher ones.\<close>

definition insert_block :: "MapEntry \<Rightarrow> string list \<Rightarrow> string list" where
  "insert_block e cs =
     filter (\<lambda>c. recordUID c < me_UID e) cs @ [rec_bytes e] @ filter (\<lambda>c. me_UID e < recordUID c) cs"

lemma insert_shift:
  assumes "rec_blocks cs" and "i \<le> length cs" and b: "length b = baseRecordLen"
  shows "copy_at (i * baseRecordLen) b
           (copy_at ((i + 1) * baseRecordLen)
              (sub_bytes (i * baseRecordLen) (length (concat cs) - i * baseRecordLen) (concat cs @ zeros baseRecordLen))
              (concat cs @ zeros baseRecordLen)) = concat (take i cs @ [b] @ drop i cs)"
proof -
  let ?z = "zeros baseRecordLen" and ?cs = "cs @ [zeros baseRecordLen]"
  have bl: "rec_blocks ?cs" "rec_blocks (drop i cs)"
    using assms(1) by (auto simp: list_all_iff dest: in_set_dropD)
  have "length (concat cs) - i * baseRecordLen = (length cs - i) * baseRecordLen"
    using assms(1) by (simp add: length_blocks diff_mult_distrib)
  then have "sub_bytes (i * baseRecordLen) (length (concat cs) - i * baseRecordLen) (concat ?cs) =
      concat (take (length cs - i) (drop i ?cs))"
    using sub_blocks [OF bl(1), of i "length cs - i"] by simp
  also have "\<dots> = concat (drop i cs)" using assms(2) by simp
  finally have src: "sub_bytes (i * baseRecordLen) (length (concat cs) - i * baseRecordLen) (concat cs @ ?z) =
      concat (drop i cs)" by simp
  let ?ds = "take (i + 1) ?cs @ drop i cs"
  have "copy_at ((i + 1) * baseRecordLen) (concat (drop i cs)) (concat ?cs) = concat ?ds"
    using copy_blocks [OF bl, of "i + 1"] assms(2) by simp
  moreover have "copy_at (i * baseRecordLen) (concat [b]) (concat ?ds) = concat (take i cs @ [b] @ drop i cs)"
  proof -
    have "rec_blocks ?ds" using bl assms(1) by (auto simp: list_all_iff dest: in_set_takeD)
    from copy_blocks [OF this, of "[b]" i] show ?thesis
      using b assms(2) by (cases "i = length cs") (simp_all add: take_Suc_conv_app_nth)
  qed
  ultimately show ?thesis using src by simp
qed

lemma insert_block_at:
  assumes so: "uid_sorted cs" and i: "i \<le> length cs" "\<forall>k < i. recordUID (cs ! k) < me_UID e"
      "\<forall>k. i \<le> k \<and> k < length cs \<longrightarrow> \<not> recordUID (cs ! k) < me_UID e"
  shows "insert_block e cs =
    take i cs @ [rec_bytes e] @ (if i < length cs \<and> recordUID (cs ! i) = me_UID e then drop (i + 1) cs else drop i cs)"
proof -
  note fl = split_at_filter [of i "\<lambda>c. recordUID c < me_UID e" cs, OF i(2,3,1)]
  have up: "filter (\<lambda>c. me_UID e < recordUID c) cs = filter (\<lambda>c. recordUID c \<noteq> me_UID e) (drop i cs)"
  proof -
    have "filter (\<lambda>c. me_UID e < recordUID c) cs =
        filter (\<lambda>c. \<not> recordUID c < me_UID e \<and> recordUID c \<noteq> me_UID e) cs"
      by (rule filter_cong [OF refl]) (metis linorder_neqE order_less_asym order_less_irrefl)
    then show ?thesis unfolding fl(2) [symmetric] filter_filter by (simp add: conj_commute)
  qed
  have above: "recordUID (cs ! k) \<noteq> me_UID e"
    if h: "i < length cs" "me_UID e \<le> recordUID (cs ! i)" "i < k" "k < length cs" for k
    using uid_nth_less [OF so h(3,4)] h(2) by (metis order_le_less_trans order_less_irrefl)
  show ?thesis
  proof (cases "i < length cs")
    case True
    then have d: "drop i cs = cs ! i # drop (i + 1) cs" by (simp add: Cons_nth_drop_Suc)
    have le: "me_UID e \<le> recordUID (cs ! i)" using i(3) True by (metis not_less order_refl)
    have "\<forall>c \<in> set (drop (i + 1) cs). recordUID c \<noteq> me_UID e"
      using above [OF True le] by (auto simp: in_set_conv_nth)
    then have "filter (\<lambda>c. recordUID c \<noteq> me_UID e) (drop (i + 1) cs) = drop (i + 1) cs"
      unfolding filter_id_conv .
    then show ?thesis unfolding insert_block_def fl(1) up d using True by simp
  next
    case False
    then show ?thesis unfolding insert_block_def fl(1) up by simp
  qed
qed

lemma insert_blocks:
  assumes bl: "rec_blocks cs" and so: "uid_sorted cs" and ok: "entry_ok e"
  shows "store_insert (store_of cs) e = store_of (insert_block e cs)"
proof (cases "cs = [] \<or> recordUID (last cs) < me_UID e")
  case True
  have "\<forall>k < length cs. recordUID (cs ! k) < me_UID e"
  proof (intro allI impI)
    fix k assume k: "k < length cs"
    then have "k \<le> length cs - 1" "length cs - 1 < length cs" "cs \<noteq> []" by auto
    with uid_nth_le [OF so, of k "length cs - 1"] have "recordUID (cs ! k) \<le> recordUID (last cs)"
      by (simp add: last_conv_nth)
    with True k show "recordUID (cs ! k) < me_UID e" by (auto intro: order_le_less_trans)
  qed
  moreover have "\<forall>k. length cs \<le> k \<and> k < length cs \<longrightarrow> \<not> recordUID (cs ! k) < me_UID e" by (meson leD)
  ultimately have "insert_block e cs = cs @ [rec_bytes e]"
    using insert_block_at [OF so order_refl, of e] by simp
  moreover have "recordUID (drop ((length cs - 1) * baseRecordLen) (concat cs)) = recordUID (last cs)" if "cs \<noteq> []"
    using uid_blocks [OF bl, of "length cs - 1"] that by (simp add: last_conv_nth)
  ultimately show ?thesis using True bl by (auto simp: store_insert_def Let_def count_blocks)
next
  case False
  then have tail: "recordUID (drop ((length cs - 1) * baseRecordLen) (concat cs)) = recordUID (last cs)"
    using uid_blocks [OF bl, of "length cs - 1"] by (simp add: last_conv_nth)
  obtain i where i: "store_find (store_of cs) (me_UID e) = (i, i < length cs \<and> recordUID (cs ! i) = me_UID e)"
      "i \<le> length cs" "\<forall>k < i. recordUID (cs ! k) < me_UID e"
      "\<forall>k. i \<le> k \<and> k < length cs \<longrightarrow> \<not> recordUID (cs ! k) < me_UID e"
    using find_blocks [OF bl so, of "me_UID e"] by blast
  let ?hit = "i < length cs \<and> recordUID (cs ! i) = me_UID e"
  have f: "\<not> (length cs = 0 \<or> recordUID (last cs) < me_UID e)" using False by simp
  show ?thesis
  proof (cases ?hit)
    case True
    then have k: "i + length [rec_bytes e] \<le> length cs" and b: "rec_blocks [rec_bytes e]" by auto
    from copy_blocks [OF bl b k] True show ?thesis
      unfolding store_insert_def Let_def count_blocks [OF bl] store.simps tail if_not_P [OF f] i(1)
        insert_block_at [OF so i(2-4)] by simp
  next
    case False
    then have h: "?hit = False" by simp
    have l: "length (concat cs @ zeros baseRecordLen) - baseRecordLen = length (concat cs)" by simp
    show ?thesis
      unfolding store_insert_def Let_def count_blocks [OF bl] store.simps tail if_not_P [OF f] i(1)
        insert_block_at [OF so i(2-4)] h if_False prod.case bool.case l
      using insert_shift [OF bl i(2), of "rec_bytes e"] by simp
  qed
qed


section \<open>The store as a map\<close>

lemma remove_blocks:
  assumes "rec_blocks cs" and "kept \<le> i" and "length cs = i + m"
  shows "\<exists>cs'. remove_loop drp i m kept (concat cs) =
            (kept + length (filter (\<lambda>c. \<not> drp (recordUID c)) (drop i cs)), concat cs') \<and>
          rec_blocks cs' \<and> length cs' = length cs \<and>
          take (kept + length (filter (\<lambda>c. \<not> drp (recordUID c)) (drop i cs))) cs' =
            take kept cs @ filter (\<lambda>c. \<not> drp (recordUID c)) (drop i cs)"
  using assms
proof (induction m arbitrary: i kept cs)
  case 0
  then show ?case by (intro exI [of _ cs]) simp
next
  case (Suc m)
  let ?P = "\<lambda>c. \<not> drp (recordUID c)"
  have i: "i < length cs" using Suc.prems(3) by simp
  have d: "drop i cs = cs ! i # drop (i + 1) cs" using i by (simp add: Cons_nth_drop_Suc)
  show ?case
  proof (cases "drp (recordUID (cs ! i))")
    case True
    with Suc.IH [OF Suc.prems(1), of kept "i + 1"] Suc.prems i show ?thesis
      by (simp add: uid_blocks d)
  next
    case False
    let ?cs = "cs[kept := cs ! i]"
    have k: "kept + length [cs ! i] \<le> length cs" using i Suc.prems(2) by simp
    have bl: "rec_blocks [cs ! i]" using Suc.prems(1) i by (simp add: list_all_length)
    have sub: "sub_bytes (i * baseRecordLen) baseRecordLen (concat cs) = concat [cs ! i]"
      using sub_blocks [OF Suc.prems(1), of i 1] i by (simp add: d)
    have "(if kept \<noteq> i then copy_at (kept * baseRecordLen) (sub_bytes (i * baseRecordLen) baseRecordLen (concat cs)) (concat cs)
           else concat cs) = concat ?cs"
      unfolding sub copy_blocks [OF Suc.prems(1) bl k]
      using k by (cases "kept = i") (simp_all add: upd_conv_take_nth_drop [of kept])
    then have step: "remove_loop drp i (Suc m) kept (concat cs) = remove_loop drp (i + 1) m (kept + 1) (concat ?cs)"
      using False Suc.prems(1) i by (simp add: uid_blocks)
    have b': "rec_blocks ?cs" using Suc.prems(1) bl by (intro blocks_update) simp_all
    have dr: "drop (i + 1) ?cs = drop (i + 1) cs" using Suc.prems(2) by simp
    have tk: "take (kept + 1) ?cs = take kept cs @ [cs ! i]"
      using k by (simp add: take_Suc_conv_app_nth)
    from Suc.IH [OF b', of "kept + 1" "i + 1"] Suc.prems(2,3) show ?thesis
      unfolding step dr tk d using False by simp
  qed
qed

lemma removeFunc_blocks:
  assumes "rec_blocks cs"
  shows "removeFunc (store_of cs) drp =
    (length (filter (\<lambda>c. drp (recordUID c)) cs), store_of (filter (\<lambda>c. \<not> drp (recordUID c)) cs))"
proof -
  let ?k = "length (filter (\<lambda>c. \<not> drp (recordUID c)) cs)"
  obtain cs' where r: "remove_loop drp 0 (length cs) 0 (concat cs) = (?k, concat cs')" "rec_blocks cs'"
      "take ?k cs' = filter (\<lambda>c. \<not> drp (recordUID c)) cs"
    using remove_blocks [OF assms, of 0 0 "length cs" drp] by auto
  have "length cs - ?k = length (filter (\<lambda>c. drp (recordUID c)) cs)"
    using sum_length_filter_compl [of "\<lambda>c. drp (recordUID c)" cs] by simp
  then show ?thesis
    using r by (simp add: removeFunc_def count_blocks [OF assms] take_blocks)
qed

text \<open>The invariant of the store: whole records in strictly ascending order of \<^verbatim>\<open>map_uid\<close>.\<close>

definition store_inv :: "store \<Rightarrow> bool" where
  "store_inv s \<longleftrightarrow> baseRecordLen dvd length (st_recs s) \<and> sorted_wrt (<) (map me_UID (each s))"

definition store_map :: "store \<Rightarrow> uint32 \<rightharpoonup> MapEntry" where
  "store_map s = map_of (map (\<lambda>e. (me_UID e, e)) (each s))"

lemma uids_map: "map recordUID cs = map me_UID (map getRecord cs)"
  by (simp add: recordUID_get)

lemma store_inv_blocks:
  "store_inv s \<longleftrightarrow> (\<exists>cs. s = store_of cs \<and> rec_blocks cs \<and> uid_sorted cs)"
proof
  assume s: "store_inv s"
  then obtain m where "length (st_recs s) = m * baseRecordLen" by (auto simp: store_inv_def dvd_def mult.commute)
  from blocks_exist [OF baseRecordLen_pos this] obtain cs where cs: "st_recs s = concat cs" "rec_blocks cs" by blast
  then have eq: "s = store_of cs" by simp
  moreover have "uid_sorted cs"
    using s cs(2) unfolding eq store_inv_def each_blocks [OF cs(2)] by (simp add: uids_map)
  ultimately show "\<exists>cs. s = store_of cs \<and> rec_blocks cs \<and> uid_sorted cs" using cs(2) by blast
qed (auto simp: store_inv_def each_blocks uids_map length_blocks)

lemma store_map_Some:
  assumes "store_inv s"
  shows "store_map s u = Some e \<longleftrightarrow> e \<in> set (each s) \<and> me_UID e = u"
proof -
  have "distinct (map me_UID (each s))"
    using assms by (auto simp: store_inv_def strict_sorted_iff)
  then have "distinct (map fst (map (\<lambda>e. (me_UID e, e)) (each s)))" by (simp add: comp_def)
  from map_of_eq_Some_iff [OF this] show ?thesis by (auto simp: store_map_def)
qed

lemma store_map_eqI:
  assumes "store_inv s" and "\<And>u e. m u = Some e \<longleftrightarrow> e \<in> set (each s) \<and> me_UID e = u"
  shows "store_map s = m"
proof
  fix u
  have "store_map s u = Some e \<longleftrightarrow> m u = Some e" for e unfolding store_map_Some [OF assms(1)] assms(2) by (rule refl)
  then show "store_map s u = m u" by (metis not_None_eq)
qed


lemma each_ok: "store_inv s \<Longrightarrow> e \<in> set (each s) \<Longrightarrow> entry_ok e"
  by (auto simp: store_inv_blocks each_blocks list_all_iff entry_ok_get)

lemma each_insert:
  assumes "store_inv s" and "entry_ok e"
  shows "each (store_insert s e) =
      filter (\<lambda>x. me_UID x < me_UID e) (each s) @ [e] @ filter (\<lambda>x. me_UID e < me_UID x) (each s)"
    and "store_inv (store_insert s e)"
proof -
  from assms(1) obtain cs where cs: "s = store_of cs" "rec_blocks cs" "uid_sorted cs" by (auto simp: store_inv_blocks)
  have bl: "rec_blocks (insert_block e cs)" using cs(2) by (auto simp: insert_block_def list_all_iff)
  note eq = insert_blocks [OF cs(2,3) assms(2)]
  have g: "getRecord (rec_bytes e) = e" by (rule getRecord_putRecord [OF assms(2)]) simp
  show ea: "each (store_insert s e) =
      filter (\<lambda>x. me_UID x < me_UID e) (each s) @ [e] @ filter (\<lambda>x. me_UID e < me_UID x) (each s)"
    unfolding cs(1) eq each_blocks [OF bl] each_blocks [OF cs(2)]
    by (simp add: insert_block_def g filter_map comp_def recordUID_get)
  have so: "sorted_wrt (<) (map me_UID (each s))" using assms(1) by (simp add: store_inv_def)
  have "sorted_wrt (<) (map me_UID (each (store_insert s e)))"
    unfolding ea using sorted_wrt_filter [OF so [unfolded sorted_wrt_map]]
    by (auto simp: sorted_wrt_append sorted_wrt_map intro: less_trans)
  then show "store_inv (store_insert s e)"
    using bl unfolding store_inv_def cs(1) eq by (simp add: length_blocks)
qed

lemma each_remove:
  assumes "store_inv s"
  shows "each (snd (removeFunc s drp)) = filter (\<lambda>e. \<not> drp (me_UID e)) (each s)"
    and "fst (removeFunc s drp) = length (filter (\<lambda>e. drp (me_UID e)) (each s))"
    and "store_inv (snd (removeFunc s drp))"
proof -
  from assms(1) obtain cs where cs: "s = store_of cs" "rec_blocks cs" "uid_sorted cs" by (auto simp: store_inv_blocks)
  have bl: "rec_blocks (filter (\<lambda>c. \<not> drp (recordUID c)) cs)" using cs(2) by (auto simp: list_all_iff)
  note eq = removeFunc_blocks [OF cs(2)]
  show ea: "each (snd (removeFunc s drp)) = filter (\<lambda>e. \<not> drp (me_UID e)) (each s)"
    unfolding cs(1) eq snd_conv each_blocks [OF bl] each_blocks [OF cs(2)] by (simp add: filter_map comp_def recordUID_get)
  show "fst (removeFunc s drp) = length (filter (\<lambda>e. drp (me_UID e)) (each s))"
    unfolding cs(1) eq fst_conv each_blocks [OF cs(2)] by (simp add: filter_map comp_def recordUID_get)
  have "sorted_wrt (<) (map me_UID (each s))" using assms(1) by (simp add: store_inv_def)
  then have "sorted_wrt (<) (map me_UID (each (snd (removeFunc s drp))))"
    unfolding ea sorted_wrt_map by (rule sorted_wrt_filter)
  then show "store_inv (snd (removeFunc s drp))"
    using bl unfolding store_inv_def cs(1) eq by (simp add: length_blocks)
qed

lemma each_setAt:
  assumes "store_inv s" and "i < store_count s" and "entry_ok e" and "me_UID e = me_UID (store_at s i)"
  shows "each (setAt s i e) = (each s)[i := e]" and "store_inv (setAt s i e)"
proof -
  from assms(1) obtain cs where cs: "s = store_of cs" "rec_blocks cs" "uid_sorted cs" by (auto simp: store_inv_blocks)
  have i: "i < length cs" using assms(2) cs by (simp add: count_blocks)
  have bl: "rec_blocks (cs[i := rec_bytes e])" by (rule blocks_update [OF cs(2)]) simp
  note eq = setAt_blocks [OF cs(2) i assms(3)]
  have g: "getRecord (rec_bytes e) = e" by (rule getRecord_putRecord [OF assms(3)]) simp
  show ea: "each (setAt s i e) = (each s)[i := e]"
    unfolding cs(1) eq each_blocks [OF bl] each_blocks [OF cs(2)] map_update g ..
  have "map me_UID ((each s)[i := e]) = map me_UID (each s)"
    using assms(2,4) by (simp add: map_update each_def list_update_same_conv)
  then show "store_inv (setAt s i e)"
    using bl assms(1) unfolding store_inv_def ea by (simp add: cs(1) eq length_blocks)
qed

lemma find_each:
  assumes "store_inv s"
  shows "store_find s u = (i, b) \<Longrightarrow> b \<longleftrightarrow> u \<in> dom (store_map s)"
    and "store_find s u = (i, True) \<Longrightarrow> i < store_count s \<and> me_UID (store_at s i) = u"
proof -
  from assms(1) obtain cs where cs: "s = store_of cs" "rec_blocks cs" "uid_sorted cs" by (auto simp: store_inv_blocks)
  obtain k where k: "store_find s u = (k, k < length cs \<and> recordUID (cs ! k) = u)"
      "\<forall>j < k. recordUID (cs ! j) < u" "\<forall>j. k \<le> j \<and> j < length cs \<longrightarrow> \<not> recordUID (cs ! j) < u"
    using find_blocks [OF cs(2,3), of u] cs(1) by blast
  have "u \<in> dom (store_map s) \<longleftrightarrow> (\<exists>j < length cs. recordUID (cs ! j) = u)"
    unfolding dom_def using store_map_Some [OF assms] each_blocks [OF cs(2)] cs(1)
    by (auto simp: in_set_conv_nth recordUID_get intro: nth_mem)
  moreover have "(\<exists>j < length cs. recordUID (cs ! j) = u) \<longleftrightarrow> k < length cs \<and> recordUID (cs ! k) = u"
  proof
    assume "\<exists>j < length cs. recordUID (cs ! j) = u"
    then obtain j where j: "j < length cs" "recordUID (cs ! j) = u" by blast
    then have "\<not> j < k" using k(2) by auto
    then have kj: "k \<le> j" by simp
    then have "recordUID (cs ! k) \<le> u" using uid_nth_le [OF cs(3) kj j(1)] j(2) by simp
    moreover have "\<not> recordUID (cs ! k) < u" using k(3) kj j(1) by (meson le_less_trans order_refl)
    ultimately show "k < length cs \<and> recordUID (cs ! k) = u" using kj j(1) by (auto simp: order_le_less)
  qed auto
  ultimately show "store_find s u = (i, b) \<Longrightarrow> b \<longleftrightarrow> u \<in> dom (store_map s)" using k(1) by auto
  show "store_find s u = (i, True) \<Longrightarrow> i < store_count s \<and> me_UID (store_at s i) = u"
    using k(1) cs by (auto simp: count_blocks at_blocks recordUID_get)
qed


section \<open>The interface of the store\<close>

text \<open>What the map relies on: a finite map from \<^verbatim>\<open>map_uid\<close>s to entries, searched, updated in place,
  extended and pruned.\<close>

locale entry_store =
  fixes inv :: "'s \<Rightarrow> bool" and entries :: "'s \<Rightarrow> uint32 \<rightharpoonup> MapEntry"
    and find :: "'s \<Rightarrow> uint32 \<Rightarrow> nat \<times> bool" and at :: "'s \<Rightarrow> nat \<Rightarrow> MapEntry"
    and update :: "'s \<Rightarrow> nat \<Rightarrow> MapEntry \<Rightarrow> 's" and ins :: "'s \<Rightarrow> MapEntry \<Rightarrow> 's"
    and remove :: "'s \<Rightarrow> (uint32 \<Rightarrow> bool) \<Rightarrow> nat \<times> 's"
  assumes entries_ok: "inv s \<Longrightarrow> entries s u = Some e \<Longrightarrow> entry_ok e \<and> me_UID e = u"
    and find_hit: "inv s \<Longrightarrow> find s u = (i, True) \<Longrightarrow> entries s u = Some (at s i)"
    and find_miss: "inv s \<Longrightarrow> find s u = (i, False) \<Longrightarrow> entries s u = None"
    and update_inv: "inv s \<Longrightarrow> find s u = (i, True) \<Longrightarrow> entry_ok e \<Longrightarrow> me_UID e = u \<Longrightarrow> inv (update s i e)"
    and update_entries: "inv s \<Longrightarrow> find s u = (i, True) \<Longrightarrow> entry_ok e \<Longrightarrow> me_UID e = u \<Longrightarrow>
           entries (update s i e) = (entries s)(u \<mapsto> e)"
    and ins_inv: "inv s \<Longrightarrow> entry_ok e \<Longrightarrow> inv (ins s e)"
    and ins_entries: "inv s \<Longrightarrow> entry_ok e \<Longrightarrow> entries (ins s e) = (entries s)(me_UID e \<mapsto> e)"
    and remove_inv: "inv s \<Longrightarrow> inv (snd (remove s drp))"
    and remove_entries: "inv s \<Longrightarrow> entries (snd (remove s drp)) = entries s |` {u. \<not> drp u}"
    and remove_count: "inv s \<Longrightarrow> fst (remove s drp) = card {u \<in> dom (entries s). drp u}"
begin

text \<open>Rewriting the entry of one \<^verbatim>\<open>map_uid\<close>, if there is one: the shape of a refcount delta.\<close>

definition adjust :: "(MapEntry \<Rightarrow> MapEntry) \<Rightarrow> uint32 \<Rightarrow> 's \<Rightarrow> 's" where
  "adjust f u s = (case find s u of (i, True) \<Rightarrow> update s i (f (at s i)) | (i, False) \<Rightarrow> s)"

lemma adjust_refines:
  assumes "inv s" and "\<And>e. entry_ok e \<Longrightarrow> entry_ok (f e) \<and> me_UID (f e) = me_UID e"
  shows "inv (adjust f u s)" and "entries (adjust f u s) = (entries s)(u := map_option f (entries s u))"
proof -
  obtain i b where fd: "find s u = (i, b)" by (cases "find s u")
  have "inv (adjust f u s) \<and> entries (adjust f u s) = (entries s)(u := map_option f (entries s u))"
  proof (cases b)
    case True
    with fd have h: "find s u = (i, True)" by simp
    note e = find_hit [OF assms(1) h]
    have "entry_ok (f (at s i))" "me_UID (f (at s i)) = u"
      using entries_ok [OF assms(1) e] assms(2) by auto
    with update_inv [OF assms(1) h] update_entries [OF assms(1) h] e h show ?thesis
      by (simp add: adjust_def)
  next
    case False
    with fd have h: "find s u = (i, False)" by simp
    with find_miss [OF assms(1) h] assms(1) show ?thesis by (simp add: adjust_def fun_upd_idem)
  qed
  then show "inv (adjust f u s)" "entries (adjust f u s) = (entries s)(u := map_option f (entries s u))" by auto
qed

lemma fold_ins_refines:
  assumes "inv s" and "list_all entry_ok es"
  shows "inv (fold (\<lambda>e s. ins s e) es s) \<and>
    entries (fold (\<lambda>e s. ins s e) es s) = entries s ++ map_of (rev (map (\<lambda>e. (me_UID e, e)) es))"
  using assms
proof (induction es arbitrary: s)
  case (Cons e es)
  from Cons.prems have "inv (ins s e)" "entries (ins s e) = (entries s)(me_UID e \<mapsto> e)"
    by (simp_all add: ins_inv ins_entries)
  with Cons.IH [of "ins s e"] Cons.prems(2) show ?case by (simp add: map_add_def fun_eq_iff split: option.splits)
qed simp

end

lemma finite_dom_store_map: "finite (dom (store_map s))"
  by (simp add: store_map_def finite_dom_map_of)

lemma remove_card:
  assumes "store_inv s"
  shows "length (filter (\<lambda>e. P (me_UID e)) (each s)) = card {u \<in> dom (store_map s). P u}"
proof -
  have "distinct (map me_UID (filter (\<lambda>e. P (me_UID e)) (each s)))"
    using assms by (auto simp: store_inv_def strict_sorted_iff distinct_map_filter)
  from distinct_card [OF this] have "length (filter (\<lambda>e. P (me_UID e)) (each s)) =
      card (me_UID ` set (filter (\<lambda>e. P (me_UID e)) (each s)))" by simp
  also have "me_UID ` set (filter (\<lambda>e. P (me_UID e)) (each s)) = {u \<in> dom (store_map s). P u}"
    using store_map_Some [OF assms] by (auto simp: dom_def)
  finally show ?thesis .
qed

lemma uid_unique: "store_inv s \<Longrightarrow> x \<in> set (each s) \<Longrightarrow> y \<in> set (each s) \<Longrightarrow> me_UID x = me_UID y \<Longrightarrow> x = y"
  using store_map_Some [of s "me_UID x" x] store_map_Some [of s "me_UID x" y] by simp

lemma setAt_map:
  assumes s: "store_inv s" and i: "i < store_count s" and e: "entry_ok e" "me_UID e = me_UID (store_at s i)"
  shows "store_map (setAt s i e) = (store_map s)(me_UID e \<mapsto> e)"
proof (rule store_map_eqI)
  note st = each_setAt [OF s i e]
  show "store_inv (setAt s i e)" by (rule st(2))
  have l: "i < length (each s)" and n: "each s ! i = store_at s i" using i by (simp_all add: each_def)
  have "distinct (each s)" using s by (auto simp: store_inv_def strict_sorted_iff distinct_map)
  from set_update_distinct [OF this l, of e] have set: "set ((each s)[i := e]) = insert e (set (each s) - {store_at s i})"
    by (simp add: n)
  have "x = store_at s i" if "x \<in> set (each s)" "me_UID x = me_UID e" for x
    using uid_unique [OF s that(1), of "store_at s i"] that(2) e(2) l n by (metis nth_mem)
  then show "((store_map s)(me_UID e \<mapsto> e)) u = Some y \<longleftrightarrow> y \<in> set (each (setAt s i e)) \<and> me_UID y = u" for u y
    unfolding st(1) set using store_map_Some [OF s, of u y] e(2) by auto
qed

interpretation mdbox: entry_store store_inv store_map store_find store_at setAt store_insert removeFunc
proof unfold_locales
  fix s u e assume s: "store_inv s"
  { assume "store_map s u = Some e"
    then show "entry_ok e \<and> me_UID e = u" using each_ok [OF s] by (auto simp: store_map_Some [OF s]) }
  { fix i assume "store_find s u = (i, True)"
    with find_each(2) [OF s] have "i < store_count s" "me_UID (store_at s i) = u" by blast+
    then show "store_map s u = Some (store_at s i)" by (auto simp: store_map_Some [OF s] each_def) }
  { fix i assume "store_find s u = (i, False)"
    then show "store_map s u = None" using find_each(1) [OF s] by blast }
  { fix i assume f: "store_find s u = (i, True)" and ok: "entry_ok e" and u: "me_UID e = u"
    from find_each(2) [OF s f] u have i: "i < store_count s" "me_UID e = me_UID (store_at s i)" by auto
    note st = each_setAt [OF s i(1) ok i(2)]
    show inv: "store_inv (setAt s i e)" by (rule st(2))
    show "store_map (setAt s i e) = (store_map s)(u \<mapsto> e)" using setAt_map [OF s i(1) ok i(2)] u by simp }
  { assume ok: "entry_ok e"
    note st = each_insert [OF s ok]
    show inv: "store_inv (store_insert s e)" by (rule st(2))
    show "store_map (store_insert s e) = (store_map s)(me_UID e \<mapsto> e)"
      by (rule store_map_eqI [OF inv]) (auto simp: st(1) store_map_Some [OF s] less_le) }
  fix drp
  show inv: "store_inv (snd (removeFunc s drp))" by (rule each_remove(3) [OF s])
  show "store_map (snd (removeFunc s drp)) = store_map s |` {u. \<not> drp u}"
    by (rule store_map_eqI [OF inv]) (auto simp: each_remove(1) [OF s] store_map_Some [OF s] restrict_map_def)
  show "fst (removeFunc s drp) = card {u \<in> dom (store_map s). drp u}"
    unfolding each_remove(2) [OF s] by (rule remove_card [OF s])
qed


section \<open>Codecs\<close>

lemma base_header_ascending: "ascending_writes (base_header_writes h)"
  by (simp add: base_header_writes_def baseMagic_def)

lemma length_encodeBaseHeader [simp]: "length (encodeBaseHeader h) = baseHeaderLen"
  by (simp add: encodeBaseHeader_def)

lemma base_header_magic: "sub_bytes 0 4 (encodeBaseHeader h @ t) = baseMagic"
proof -
  have "sub_bytes 0 (length baseMagic) (encodeBaseHeader h) = baseMagic"
    unfolding encodeBaseHeader_def
    by (rule write_all_read [OF base_header_ascending]) (simp_all add: base_header_writes_def baseMagic_def baseHeaderLen_def)
  then show ?thesis by (simp add: sub_bytes_def baseMagic_def baseHeaderLen_def eval_nat_numeral)
qed

text \<open>A base header reads back, in front of any record area, whatever the version of the handle's header.\<close>

lemma base_header_roundtrip:
  assumes "bh_RecordSize h = of_nat baseRecordLen"
  shows "decodeBaseHeader (encodeBaseHeader h @ t) = Inr (h \<lparr> bh_Version := baseVersion2 \<rparr>)"
proof -
  have l: "length (zeros baseHeaderLen) = 80" by (simp add: baseHeaderLen_def)
  note rd = dec_write_all [OF base_header_ascending [of h], where buf = "zeros baseHeaderLen", unfolded l]
  have f: "dec8 (encodeBaseHeader h) 4 = baseVersion2" "dec32 (encodeBaseHeader h) 8 = bh_RecordSize h"
    "dec32 (encodeBaseHeader h) 12 = bh_RecordCount h" "dec32 (encodeBaseHeader h) 16 = bh_NextMapUID h"
    "dec32 (encodeBaseHeader h) 20 = bh_HighestFileID h" "dec32 (encodeBaseHeader h) 24 = bh_RebuildCount h"
    "dec32 (encodeBaseHeader h) 28 = bh_CreateFileID h" "dec64 (encodeBaseHeader h) 32 = bh_CreateTime h"
    "dec64 (encodeBaseHeader h) 40 = bh_FoldedOffset h" "dec64 (encodeBaseHeader h) 48 = bh_RecordsDigest h"
    "dec32 (encodeBaseHeader h) 56 = bh_IndexID h" "dec32 (encodeBaseHeader h) 60 = bh_Lineage h"
    "dec32 (encodeBaseHeader h) 64 = bh_FoldedLineage h"
    unfolding encodeBaseHeader_def
    by (rule rd, simp add: base_header_writes_def, simp)+
  have a: "length (encodeBaseHeader h) = 80" by (simp add: baseHeaderLen_def)
  show ?thesis
    unfolding decodeBaseHeader_def base_header_magic
    using f assms a by (simp add: dec_append baseHeaderLen_def)
qed

lemma map_ext_roundtrip: "decodeMapExt (encodeMapExt f off sz) = Inr (f, off, sz)"
  by (simp add: decodeMapExt_def encodeMapExt_def extMapSize_def buffer_simps)

lemma ref_ext_roundtrip: "decodeRefExt (encodeRefExt r) = r"
  by (simp add: decodeRefExt_def encodeRefExt_def extRefSize_def buffer_simps)

lemma guid_ext_roundtrip: "length g = 16 \<Longrightarrow> decodeGUIDExt (encodeGUIDExt g) = g"
  by (simp add: decodeGUIDExt_def encodeGUIDExt_def extGUIDSize_def copy_at_def)

lemma length_exts [simp]:
  "length (encodeMapExt f off sz) = 12" "length (encodeRefExt r) = 2" "length (encodeGUIDExt g) = 16"
  "length (encodeMapHeader hf rc cf ct) = 20"
  by (simp_all add: encodeMapExt_def encodeRefExt_def encodeGUIDExt_def encodeMapHeader_def extMapSize_def
      extRefSize_def extGUIDSize_def mapHeaderSize_def)

lemma map_header_roundtrip: "decodeMapHeader (encodeMapHeader hf rc cf ct) = (hf, rc, cf, ct)"
  by (simp add: decodeMapHeader_def encodeMapHeader_def mapHeaderSize_def mapHeaderRebuildSize_def buffer_simps)


section \<open>Refinement\<close>

text \<open>C25. The byte store implements a finite map from \<^verbatim>\<open>map_uid\<close>s to entries, and every operation keeps its
  records whole and strictly ascending: the binary search finds exactly the entries there are; an insertion,
  whether at the tail, over a record or in the middle, updates the map; a record rewritten in place under its own
  \<^verbatim>\<open>map_uid\<close> changes that entry alone; and the in-place removal keeps exactly the entries not dropped and
  counts the others.\<close>

theorem store_refines_map:
  assumes "store_inv s"
  shows "(case store_find s u of
            (i, True) \<Rightarrow> store_map s u = Some (store_at s i) \<and>
              (entry_ok e \<longrightarrow> me_UID e = u \<longrightarrow>
                 store_inv (setAt s i e) \<and> store_map (setAt s i e) = (store_map s)(u \<mapsto> e))
          | (i, False) \<Rightarrow> store_map s u = None) \<and>
         (entry_ok e \<longrightarrow> store_inv (store_insert s e) \<and> store_map (store_insert s e) = (store_map s)(me_UID e \<mapsto> e)) \<and>
         store_inv (snd (removeFunc s drp)) \<and> store_map (snd (removeFunc s drp)) = store_map s |` {u. \<not> drp u} \<and>
         fst (removeFunc s drp) = card {u \<in> dom (store_map s). drp u}"
  using assms mdbox.find_hit mdbox.find_miss mdbox.update_inv mdbox.update_entries mdbox.ins_inv mdbox.ins_entries
    mdbox.remove_inv mdbox.remove_entries mdbox.remove_count
  by (auto split: prod.split bool.split)

theorem store_refines_map_witness:
  "let e = \<lparr> me_UID = 7, me_FileID = 1, me_Offset = 0, me_Size = 12, me_RefCount = 1, me_GUID = zeros 16 \<rparr>
   in store_map (store_insert \<lparr> st_recs = [] \<rparr> e) = [7 \<mapsto> e]"
  using store_refines_map [of "\<lparr> st_recs = [] \<rparr>" 7
      "\<lparr> me_UID = 7, me_FileID = 1, me_Offset = 0, me_Size = 12, me_RefCount = 1, me_GUID = zeros 16 \<rparr>" "\<lambda>_. False"]
  by (simp add: store_inv_def store_map_def each_def store_count_def baseRecordLen_def)

end
