(* ===== verification/Mdbox_Map.thy ===== *)
theory Mdbox_Map
  imports Mdbox_Store
begin

text \<open>
  The mdbox map index of a user, package \<^verbatim>\<open>internal/storage/mailbox/mdbox/mdboxmap\<close>: the handle \<^verbatim>\<open>Map\<close> of
  \<^verbatim>\<open>map.go\<close>, its append log of \<^verbatim>\<open>log.go\<close>, the older base format of \<^verbatim>\<open>formatv1.go\<close>, the conversion of
  \<^verbatim>\<open>convert.go\<close>, and the operations of \<^verbatim>\<open>append.go\<close>, \<^verbatim>\<open>refcount.go\<close>, \<^verbatim>\<open>purge.go\<close> and \<^verbatim>\<open>lookup.go\<close>.

  The files are explicit: a \<open>Disk\<close> holds the base, with the identity and the time a \<^verbatim>\<open>stat\<close> reports, and the log.
  Every operation takes an \<open>Env\<close>, which says what the world does while it runs: the clock, the inode a created
  file gets, which system calls fail, how many bytes a failing write leaves behind, and what the lock service
  answers.  A process that dies inside an operation leaves the disk of a run in which the next call failed.  An
  operation returns its error or result, the handle and the disk, all three also on an error path, as in the code,
  where an early return keeps what was already changed.

  \<^verbatim>\<open>int64\<close> sizes and offsets are integers.  Temporary files, which no one reads, and metrics are left out.
  Reading an opened file does not fail.
\<close>

section \<open>The handle, the disk and the world\<close>

definition FormatV2 :: string where "FormatV2 = ''v2''"
definition FormatV1 :: string where "FormatV1 = ''v1''"

record FileInfo =
  fi_ino :: nat
  fi_size :: int
  fi_mtime :: instant

record Map =
  m_st :: store
  m_loaded :: bool
  m_format :: string
  m_onDisk :: string
  m_nextMapUID :: uint32
  m_highestFileID :: uint32
  m_rebuildCount :: uint32
  m_createFileID :: uint32
  m_createTime :: uint64
  m_indexID :: uint32
  m_lineage :: uint32
  m_foldedLineage :: uint32
  m_foldedOffset :: int
  m_logLineage :: uint32
  m_rotateSize :: uint32
  m_logRotateSet :: bool
  m_logRotateMinSize :: int
  m_logRotateMaxSize :: int
  m_logRotateMinAge :: instant
  m_baseInfo :: "FileInfo option"
  m_logSize :: int

record base_file =
  bf_ino :: nat
  bf_mtime :: instant
  bf_bytes :: string

record Disk =
  d_base :: "base_file option"
  d_log :: "string option"

text \<open>The calls that may fail, one for each place in the code.\<close>

datatype io_call =
    OpenLogAppend | StatLogAppend | WriteLogHeader | WriteLogTx | StatLogTx
  | OpenLogIdentity | StatLogIdentity | OpenLogReplay | SeekLogReplay | RemoveStaleLog
  | ReadBase | StatBaseRead | PeekBase | StatBaseReload | StatLogReload
  | WriteBaseTmp | RenameBase | RemoveFoldedLog | StatBaseFlush | StatBaseAge | StatBaseSize | StatLogSize | RecreateBase | OpenBaseV1

datatype lock_answer = NoLocker | AlreadyHeld | Acquired | Refused

record Env =
  e_now :: instant
  e_ino :: nat
  e_fails :: "io_call \<Rightarrow> bool"
  e_written :: nat
  e_lock :: lock_answer
  e_ext_sort :: ext_sort
  e_entry_sort :: "MapEntry list \<Rightarrow> MapEntry list"

datatype md_error =
    IOError io_call
  | NotExist
  | FormatError map_error
  | IndexError mi_error
  | LogIndexMismatch
  | BaseTooShort
  | MissingExt
  | NoReturn
  | LockError
  | UIDNotFound uint32
  | BatchFinished

definition base_info :: "base_file \<Rightarrow> FileInfo" where
  "base_info f = \<lparr> fi_ino = bf_ino f, fi_size = int (length (bf_bytes f)), fi_mtime = bf_mtime f \<rparr>"

text \<open>\<^verbatim>\<open>os.Stat\<close> of the base and of the log, where a failure and an absent file look alike.\<close>

definition stat_base :: "Env \<Rightarrow> io_call \<Rightarrow> Disk \<Rightarrow> FileInfo option" where
  "stat_base env c d = (if e_fails env c then None else map_option base_info (d_base d))"

definition stat_log :: "Env \<Rightarrow> io_call \<Rightarrow> Disk \<Rightarrow> int option" where
  "stat_log env c d = (if e_fails env c then None else map_option (\<lambda>b. int (length b)) (d_log d))"

section \<open>Rotation settings\<close>

definition logrotate_MinSize :: int where "logrotate_MinSize = 32 * 2 ^ 10"
definition logrotate_MaxSize :: int where "logrotate_MaxSize = 2 ^ 20"
definition logrotate_MinAge :: instant where "logrotate_MinAge = 60 * 10 ^ 9"
definition defaultRotateSize :: uint32 where "defaultRotateSize = 10 * 1024 * 1024"

definition logRotateMinSizeOrDefault :: "Map \<Rightarrow> int" where
  "logRotateMinSizeOrDefault m = (if \<not> m_logRotateSet m then logrotate_MinSize else m_logRotateMinSize m)"

definition logRotateMaxSizeOrDefault :: "Map \<Rightarrow> int" where
  "logRotateMaxSizeOrDefault m = (if m_logRotateMaxSize m = 0 then logrotate_MaxSize else m_logRotateMaxSize m)"

definition logRotateMinAgeOrDefault :: "Map \<Rightarrow> instant" where
  "logRotateMinAgeOrDefault m = (if \<not> m_logRotateSet m then logrotate_MinAge else m_logRotateMinAge m)"

definition rotateSizeOrDefault :: "Map \<Rightarrow> uint32" where
  "rotateSizeOrDefault m = (if m_rotateSize m = 0 then defaultRotateSize else m_rotateSize m)"

definition sinceLastFoldLocked :: "Env \<Rightarrow> Map \<Rightarrow> Disk \<Rightarrow> instant" where
  "sinceLastFoldLocked env m d =
    (case m_baseInfo m of
       Some fi \<Rightarrow> e_now env - fi_mtime fi
     | None \<Rightarrow>
         (case stat_base env StatBaseAge d of
            None \<Rightarrow> 2 ^ 63 - 1
          | Some fi \<Rightarrow> e_now env - fi_mtime fi))"

definition shouldRotateLocked :: "Env \<Rightarrow> Map \<Rightarrow> Disk \<Rightarrow> bool" where
  "shouldRotateLocked env m d =
    (let minSize = logRotateMinSizeOrDefault m
     in if minSize = 0 then False
        else if m_logSize m > logRotateMaxSizeOrDefault m then True
        else if m_logSize m < minSize then False
        else sinceLastFoldLocked env m d \<ge> logRotateMinAgeOrDefault m)"

section \<open>The append log\<close>

definition logLayout :: "ext_sort \<Rightarrow> mi_error + RecordLayout" where
  "logLayout srt = ComputeRecordLayout srt (defaultExtensions 0)"

definition entryToLogRecord :: "MapEntry \<Rightarrow> Record" where
  "entryToLogRecord e =
    \<lparr> rec_UID = me_UID e, rec_Flags = 0,
      rec_Ext = [(extMap, encodeMapExt (me_FileID e) (me_Offset e) (me_Size e)),
                 (extRef, encodeRefExt (me_RefCount e)), (extGUID, encodeGUIDExt (me_GUID e))] \<rparr>"

text \<open>A missing key of a Go map reads as nil.\<close>

definition ext_data :: "string \<Rightarrow> Record \<Rightarrow> string" where
  "ext_data name rec = (case map_of (rec_Ext rec) name of None \<Rightarrow> [] | Some b \<Rightarrow> b)"

definition logRecordToEntry :: "Record \<Rightarrow> map_error + MapEntry" where
  "logRecordToEntry rec =
    (case decodeMapExt (ext_data extMap rec) of
       Inl x \<Rightarrow> Inl x
     | Inr (fileID, offset, sz) \<Rightarrow>
         Inr \<lparr> me_UID = rec_UID rec, me_FileID = fileID, me_Offset = offset, me_Size = sz,
               me_RefCount = decodeRefExt (ext_data extRef rec), me_GUID = decodeGUIDExt (ext_data extGUID rec) \<rparr>)"

definition openLogLocked :: "Env \<Rightarrow> Map \<Rightarrow> Disk \<Rightarrow> (md_error + unit) \<times> Map \<times> Disk" where
  "openLogLocked env m d =
    (if e_fails env OpenLogAppend then (Inl (IOError OpenLogAppend), m, d)
     else
       let b = (case d_log d of None \<Rightarrow> [] | Some b \<Rightarrow> b); d1 = d \<lparr> d_log := Some b \<rparr>
       in if e_fails env StatLogAppend \<or> b \<noteq> [] then (Inr (), m, d1)
          else
            let seq = (if m_format m = FormatV1 then 1 else m_lineage m);
                hdr = NewLogHeader (m_indexID m) seq (word_of_int (e_now env div 10 ^ 9))
            in (case LogHeader_Encode hdr of
                  Inl x \<Rightarrow> (Inl (IndexError x), m, d1)
                | Inr bs \<Rightarrow>
                    if e_fails env WriteLogHeader
                    then (Inl (IOError WriteLogHeader), m, d1 \<lparr> d_log := Some (take (e_written env) bs) \<rparr>)
                    else (Inr (), m \<lparr> m_logLineage := seq, m_logSize := int LogHeaderSize \<rparr>,
                          d1 \<lparr> d_log := Some bs \<rparr>)))"

definition logIdentityLocked :: "Env \<Rightarrow> Disk \<Rightarrow> md_error + uint32 \<times> int" where
  "logIdentityLocked env d =
    (case d_log d of
       None \<Rightarrow> Inr (0, 0)
     | Some b \<Rightarrow>
         if e_fails env OpenLogIdentity then Inl (IOError OpenLogIdentity)
         else if e_fails env StatLogIdentity then Inl (IOError StatLogIdentity)
         else (case DecodeLogHeader b of
                 Inl _ \<Rightarrow> Inr (0, int (length b))
               | Inr (lh, _) \<Rightarrow> Inr (lh_FileSeq lh, int (length b))))"

definition encMapLogRec :: "uint32 \<Rightarrow> string \<Rightarrow> mi_error + string" where
  "encMapLogRec txType payload =
    (let pad = (4 - length payload mod 4) mod 4;
         payload = (if pad > 0 then payload @ zeros pad else payload)
     in case EncodeTxHeader (zeros 8) \<lparr> tx_Size = of_nat (8 + length payload), tx_Type = txType \<rparr> of
          Inl x \<Rightarrow> Inl x
        | Inr hdrBuf \<Rightarrow> Inr (copy_at 8 payload (copy_at 0 hdrBuf (zeros (8 + length payload)))))"

definition writeLogTxLocked :: "Env \<Rightarrow> uint32 \<Rightarrow> string \<Rightarrow> Map \<Rightarrow> Disk \<Rightarrow> (md_error + unit) \<times> Map \<times> Disk" where
  "writeLogTxLocked env txType payload m d =
    (case openLogLocked env m d of
       (Inl x, m1, d1) \<Rightarrow> (Inl x, m1, d1)
     | (Inr _, m1, d1) \<Rightarrow>
         (case encMapLogRec txType payload of
            Inl x \<Rightarrow> (Inl (IndexError x), m1, d1)
          | Inr rec \<Rightarrow>
              let b = (case d_log d1 of None \<Rightarrow> [] | Some b \<Rightarrow> b)
              in if e_fails env WriteLogTx
                 then (Inl (IOError WriteLogTx), m1, d1 \<lparr> d_log := Some (b @ take (e_written env) rec) \<rparr>)
                 else
                   let d2 = d1 \<lparr> d_log := Some (b @ rec) \<rparr>
                   in (Inr (), (case stat_log env StatLogTx d2 of None \<Rightarrow> m1 | Some n \<Rightarrow> m1 \<lparr> m_logSize := n \<rparr>), d2)))"

definition appendLogLocked :: "Env \<Rightarrow> MapEntry list \<Rightarrow> Map \<Rightarrow> Disk \<Rightarrow> (md_error + unit) \<times> Map \<times> Disk" where
  "appendLogLocked env es m d =
    (if es = [] then (Inr (), m, d)
     else
       (case logLayout (e_ext_sort env) of
          Inl x \<Rightarrow> (Inl (IndexError x), m, d)
        | Inr layout \<Rightarrow>
            (case EncodeTxAppendPayload layout (map entryToLogRecord es) of
               Inl x \<Rightarrow> (Inl (IndexError x), m, d)
             | Inr payload \<Rightarrow> writeLogTxLocked env TxTypeAppend payload m d)))"

section \<open>Replay\<close>

text \<open>\<^verbatim>\<open>int32\<close> arithmetic wraps; \<open>sint\<close> reads the result.\<close>

definition clampRef :: "uint32 \<Rightarrow> uint16" where
  "clampRef v = (if sint v < 0 then 0 else if sint v > 0xFFFF then 0xFFFF else ucast v)"

definition add_ref :: "uint32 \<Rightarrow> MapEntry \<Rightarrow> MapEntry" where
  "add_ref diff e = e \<lparr> me_RefCount := clampRef (ucast (me_RefCount e) + diff) \<rparr>"

definition apply_delta :: "TxExtAtomicInc \<Rightarrow> store \<Rightarrow> store" where
  "apply_delta x st =
    (case store_find st (ai_UID x) of
       (i, True) \<Rightarrow> setAt st i (add_ref (ai_Diff x) (store_at st i))
     | (i, False) \<Rightarrow> st)"

definition applyRefcountDeltasLocked :: "string \<Rightarrow> Map \<Rightarrow> Map" where
  "applyRefcountDeltasLocked payload m =
     m \<lparr> m_st := fold apply_delta (DecodeTxExtAtomicIncPayload payload) (m_st m) \<rparr>"

text \<open>One new record of an append transaction.\<close>

definition replay_entry :: "MapEntry \<Rightarrow> Map \<Rightarrow> Map" where
  "replay_entry e m =
     m \<lparr> m_st := store_insert (m_st m) e,
         m_nextMapUID := (if me_UID e \<ge> m_nextMapUID m then me_UID e + 1 else m_nextMapUID m),
         m_highestFileID := (if me_FileID e > m_highestFileID m then me_FileID e else m_highestFileID m) \<rparr>"

function replay_append :: "RecordLayout \<Rightarrow> nat \<Rightarrow> string \<Rightarrow> Map \<Rightarrow> Map" where
  "replay_append layout stride payload m =
    (if stride = 0 \<or> length payload < stride then m
     else
       (case DecodeRecord (take stride payload) layout of
          Inl _ \<Rightarrow> m
        | Inr rec \<Rightarrow>
            if snd (store_find (m_st m) (rec_UID rec)) then replay_append layout stride (drop stride payload) m
            else
              (case logRecordToEntry rec of
                 Inl _ \<Rightarrow> m
               | Inr e \<Rightarrow> replay_append layout stride (drop stride payload) (replay_entry e m))))"
  by pat_completeness auto
termination
  by (relation "measure (\<lambda>(layout, stride, payload, m). length payload)") auto

declare replay_append.simps [simp del]

definition replay_tx :: "RecordLayout \<Rightarrow> uint32 \<Rightarrow> string \<Rightarrow> Map \<Rightarrow> Map" where
  "replay_tx layout txType payload m =
    (if tx_Kind txType = TxTypeExtAtomicInc then applyRefcountDeltasLocked payload m
     else if tx_Kind txType \<noteq> TxTypeAppend then m
     else replay_append layout (unat (lay_RecordSize layout)) payload m)"

function replay_loop :: "RecordLayout \<Rightarrow> string \<Rightarrow> int \<Rightarrow> Map \<Rightarrow> int \<times> Map" where
  "replay_loop layout r pos m =
    (case ReadFull 8 r of
       Inl _ \<Rightarrow> (pos, m)
     | Inr (hdrBuf, r1) \<Rightarrow>
         (case DecodeTxHeader hdrBuf of
            Inl _ \<Rightarrow> (pos, m)
          | Inr txHdr \<Rightarrow>
              let payloadLen = int (unat (tx_Size txHdr)) - 8
              in if payloadLen < 0 \<or> payloadLen > 2 ^ 24 then (pos, m)
                 else
                   (case ReadFull (nat payloadLen) r1 of
                      Inl _ \<Rightarrow> (pos, m)
                    | Inr (payload, r2) \<Rightarrow>
                        replay_loop layout r2 (pos + 8 + payloadLen) (replay_tx layout (tx_Type txHdr) payload m))))"
  by pat_completeness auto
termination
  by (relation "measure (\<lambda>(layout, r, pos, m). length r)") (auto simp: ReadFull_def split: if_splits)

declare replay_loop.simps [simp del]

definition replayLogInnerLocked :: "Env \<Rightarrow> int \<Rightarrow> Map \<Rightarrow> Disk \<Rightarrow> (md_error option \<times> int) \<times> Map" where
  "replayLogInnerLocked env from m d =
    (case d_log d of
       None \<Rightarrow> ((None, from), m)
     | Some b \<Rightarrow>
         if e_fails env OpenLogReplay then ((Some (IOError OpenLogReplay), from), m)
         else
           (case DecodeLogHeader b of
              Inl _ \<Rightarrow> ((None, from), m)
            | Inr (lh, rest) \<Rightarrow>
                if lh_IndexID lh \<noteq> m_indexID m then ((Some LogIndexMismatch, from), m)
                else if from > int LogHeaderSize \<and> e_fails env SeekLogReplay
                then ((Some (IOError SeekLogReplay), from), m)
                else
                  let (r, pos) = (if from > int LogHeaderSize then (drop (nat from) b, from)
                                  else (rest, int LogHeaderSize))
                  in (case logLayout (e_ext_sort env) of
                        Inl x \<Rightarrow> ((Some (IndexError x), from), m)
                      | Inr layout \<Rightarrow>
                          if lay_RecordSize layout = 0 then ((None, pos), m)
                          else (case replay_loop layout r pos m of (pos', m') \<Rightarrow> ((None, pos'), m')))))"

definition replayFromPersistedLocked :: "Env \<Rightarrow> Map \<Rightarrow> Disk \<Rightarrow> (md_error option \<times> int) \<times> Map" where
  "replayFromPersistedLocked env m d =
    (case logIdentityLocked env d of
       Inl x \<Rightarrow> ((Some x, 0), m)
     | Inr (seq, _) \<Rightarrow>
         if seq = 0 then ((None, 0), m)
         else if m_onDisk m = FormatV1
         then replayLogInnerLocked env (int LogHeaderSize) (m \<lparr> m_logLineage := seq \<rparr>) d
         else if seq = m_lineage m
         then replayLogInnerLocked env (int LogHeaderSize) (m \<lparr> m_logLineage := seq \<rparr>) d
         else if seq = m_foldedLineage m
         then replayLogInnerLocked env (max (m_foldedOffset m) (int LogHeaderSize)) (m \<lparr> m_logLineage := seq \<rparr>) d
         else ((Some LogIndexMismatch, 0), m))"

section \<open>Reading and writing the base\<close>

definition applyHeaderLocked :: "baseHeader \<Rightarrow> Map \<Rightarrow> Map" where
  "applyHeaderLocked h m =
     m \<lparr> m_nextMapUID := (if bh_NextMapUID h = 0 then 1 else bh_NextMapUID h), m_highestFileID := bh_HighestFileID h,
         m_rebuildCount := bh_RebuildCount h, m_createFileID := bh_CreateFileID h, m_createTime := bh_CreateTime h,
         m_indexID := bh_IndexID h, m_lineage := bh_Lineage h, m_foldedLineage := bh_FoldedLineage h,
         m_foldedOffset := sint (bh_FoldedOffset h) \<rparr>"

definition headerLocked :: "Map \<Rightarrow> baseHeader" where
  "headerLocked m =
    \<lparr> bh_Version = baseVersion2, bh_RecordSize = of_nat baseRecordLen,
      bh_RecordCount = of_nat (store_count (m_st m)), bh_NextMapUID = m_nextMapUID m,
      bh_HighestFileID = m_highestFileID m, bh_RebuildCount = m_rebuildCount m,
      bh_CreateFileID = m_createFileID m, bh_CreateTime = m_createTime m, bh_Lineage = m_lineage m,
      bh_FoldedLineage = m_foldedLineage m, bh_FoldedOffset = word_of_int (m_foldedOffset m),
      bh_RecordsDigest = digestRecords (st_recs (m_st m)), bh_IndexID = m_indexID m \<rparr>"

definition readBaseLocked :: "Env \<Rightarrow> Map \<Rightarrow> Disk \<Rightarrow> md_error option \<times> Map" where
  "readBaseLocked env m d =
    (case d_base d of
       None \<Rightarrow> (Some NotExist, m)
     | Some f \<Rightarrow>
         if e_fails env ReadBase then (Some (IOError ReadBase), m)
         else
           (case decodeBaseHeader (bf_bytes f) of
              Inl x \<Rightarrow> (Some (FormatError x), m)
            | Inr h \<Rightarrow>
                let n = unat (bh_RecordCount h) * baseRecordLen
                in if length (bf_bytes f) < baseHeaderLen + n then (Some BaseTooShort, m)
                   else
                     let m1 = applyHeaderLocked h
                           (m \<lparr> m_st := (m_st m) \<lparr> st_recs := sub_bytes baseHeaderLen n (bf_bytes f) \<rparr>,
                                m_loaded := True, m_onDisk := FormatV2 \<rparr>)
                     in (None, (case stat_base env StatBaseRead d of
                                  None \<Rightarrow> m1 | Some fi \<Rightarrow> m1 \<lparr> m_baseInfo := Some fi \<rparr>))))"

definition findExt :: "string \<Rightarrow> Extension list \<Rightarrow> Extension option" where
  "findExt name exts = find (\<lambda>x. ext_Name x = name) exts"

definition write_base :: "Env \<Rightarrow> string \<Rightarrow> Disk \<Rightarrow> Disk" where
  "write_base env bs d = d \<lparr> d_base := Some \<lparr> bf_ino = e_ino env, bf_mtime = e_now env, bf_bytes = bs \<rparr> \<rparr>"

text \<open>The entries of a v1 base, with the greatest \<^verbatim>\<open>map_uid\<close> and file id among them.\<close>

fun v1_entries :: "Record list \<Rightarrow> map_error + MapEntry list" where
  "v1_entries [] = Inr []"
| "v1_entries (rec # recs) =
    (case logRecordToEntry rec of
       Inl x \<Rightarrow> Inl x
     | Inr e \<Rightarrow> (case v1_entries recs of Inl x \<Rightarrow> Inl x | Inr es \<Rightarrow> Inr (e # es)))"

definition readBaseV1Locked :: "Env \<Rightarrow> Map \<Rightarrow> Disk \<Rightarrow> md_error option \<times> Map" where
  "readBaseV1Locked env m d =
    (case d_base d of
       None \<Rightarrow> (Some NotExist, m)
     | Some bf \<Rightarrow>
         if e_fails env OpenBaseV1 then (Some (IOError OpenBaseV1), m)
         else
           (case read_file (e_ext_sort env) (bf_bytes bf) of
              None \<Rightarrow> (Some NoReturn, m)
            | Some (Inl x) \<Rightarrow> (Some (IndexError x), m)
            | Some (Inr f) \<Rightarrow>
                (case v1_entries (fl_Records f) of
                   Inl x \<Rightarrow> (Some (FormatError x), m)
                 | Inr es \<Rightarrow>
                     let maxUID = fold (\<lambda>e k. if me_UID e > k then me_UID e else k) es 0;
                         maxFileID = fold (\<lambda>e k. if me_FileID e > k then me_FileID e else k) es 0;
                         recs = concat (map (putRecord (zeros baseRecordLen)) (e_entry_sort env es));
                         next0 = hd_NextUID (fl_Header f);
                         next1 = (if maxUID + 1 > next0 then maxUID + 1 else next0);
                         (highest, rebuild, createID, createT) =
                           (case findExt extMap (fl_Extensions f) of
                              None \<Rightarrow> (0, 0, 0, 0)
                            | Some ext \<Rightarrow> decodeMapHeader (ext_HdrData ext))
                     in (None, m \<lparr> m_st := \<lparr> st_recs = recs \<rparr>, m_loaded := True, m_onDisk := FormatV1,
                                  m_indexID := hd_IndexID (fl_Header f),
                                  m_nextMapUID := (if next1 = 0 then 1 else next1),
                                  m_highestFileID := (if maxFileID > highest then maxFileID else highest),
                                  m_rebuildCount := rebuild, m_createFileID := createID, m_createTime := createT,
                                  m_lineage := 0, m_foldedLineage := 0, m_foldedOffset := 0 \<rparr>))))"

definition writeBaseV1Locked :: "Env \<Rightarrow> Map \<Rightarrow> Disk \<Rightarrow> md_error option \<times> Map \<times> Disk" where
  "writeBaseV1Locked env m d =
    (case NewFile (e_ext_sort env) (m_indexID m) (defaultExtensions (m_highestFileID m)) of
       Inl x \<Rightarrow> (Some (IndexError x), m, d)
     | Inr f \<Rightarrow>
         let recs = fl_Records f @ map entryToLogRecord (each (m_st m));
             hdrData = encodeMapHeader (m_highestFileID m) (m_rebuildCount m) (m_createFileID m) (m_createTime m)
         in if findExt extMap (fl_Extensions f) = None then (Some MissingExt, m, d)
            else
              let exts = map (\<lambda>x. if ext_Name x = extMap
                                  then x \<lparr> ext_HdrData := hdrData, ext_HdrSize := of_nat (length hdrData) \<rparr>
                                  else x) (fl_Extensions f)
              in (case ComputeRecordLayout (e_ext_sort env) exts of
                    Inl x \<Rightarrow> (Some (IndexError x), m, d)
                  | Inr layout \<Rightarrow>
                      (case EncodeExtHeaders (lay_Extensions layout) of
                         Inl x \<Rightarrow> (Some (IndexError x), m, d)
                       | Inr extBytes \<Rightarrow>
                           let hdr = (fl_Header f)
                                 \<lparr> hd_RecordSize := lay_RecordSize layout,
                                   hd_HeaderSize := of_nat HeaderMinSize + of_nat (length extBytes),
                                   hd_NextUID := m_nextMapUID m,
                                   hd_MessagesCount := of_nat (store_count (m_st m)) \<rparr>
                           in (case recreate_bytes (e_ext_sort env) hdr (lay_Extensions layout) recs of
                                 Inl x \<Rightarrow> (Some (IndexError x), m, d)
                               | Inr bs \<Rightarrow>
                                   if e_fails env RecreateBase then (Some (IOError RecreateBase), m, d)
                                   else (None, m \<lparr> m_onDisk := FormatV1 \<rparr>, write_base env bs d)))))"

definition writeBaseLocked :: "Env \<Rightarrow> Map \<Rightarrow> Disk \<Rightarrow> md_error option \<times> Map \<times> Disk" where
  "writeBaseLocked env m d =
    (if m_format m = FormatV1 then writeBaseV1Locked env m d
     else if e_fails env WriteBaseTmp then (Some (IOError WriteBaseTmp), m, d)
     else if e_fails env RenameBase then (Some (IOError RenameBase), m, d)
     else (None, m \<lparr> m_onDisk := FormatV2 \<rparr>,
           write_base env (encodeBaseHeader (headerLocked m) @ st_recs (m_st m)) d))"

section \<open>Folding and reloading\<close>

definition applyLogTailLocked :: "Env \<Rightarrow> Map \<Rightarrow> Disk \<Rightarrow> md_error option \<times> Map \<times> Disk" where
  "applyLogTailLocked env m d =
    (case replayFromPersistedLocked env m d of
       ((Some LogIndexMismatch, _), m1) \<Rightarrow>
         (None, m1 \<lparr> m_logSize := 0 \<rparr>, if e_fails env RemoveStaleLog then d else d \<lparr> d_log := None \<rparr>)
     | ((Some x, _), m1) \<Rightarrow> (Some x, m1, d)
     | ((None, applied), m1) \<Rightarrow> (None, m1 \<lparr> m_logSize := applied \<rparr>, d))"

definition sameBaseLocked :: "Map \<Rightarrow> FileInfo option \<Rightarrow> bool" where
  "sameBaseLocked m st =
    (case (m_baseInfo m, st) of
       (Some a, Some b) \<Rightarrow> fi_ino a = fi_ino b \<and> fi_size b = fi_size a \<and> fi_mtime b = fi_mtime a
     | _ \<Rightarrow> False)"

definition peekHeaderLocked :: "Env \<Rightarrow> Disk \<Rightarrow> md_error + baseHeader" where
  "peekHeaderLocked env d =
    (case d_base d of
       None \<Rightarrow> Inl NotExist
     | Some f \<Rightarrow>
         if e_fails env PeekBase then Inl (IOError PeekBase)
         else if length (bf_bytes f) < baseHeaderLen then Inl (IOError PeekBase)
         else (case decodeBaseHeader (take baseHeaderLen (bf_bytes f)) of
                 Inl x \<Rightarrow> Inl (FormatError x) | Inr h \<Rightarrow> Inr h))"

definition adoptFoldLocked :: "baseHeader \<Rightarrow> FileInfo option \<Rightarrow> Map \<Rightarrow> bool \<times> Map" where
  "adoptFoldLocked h info m =
    (if bh_FoldedLineage h \<noteq> m_logLineage m \<or> m_logSize m < sint (bh_FoldedOffset h) then (False, m)
     else if bh_RecordsDigest h \<noteq> digestRecords (st_recs (m_st m)) then (False, m)
     else (True, (applyHeaderLocked h m) \<lparr> m_logLineage := bh_Lineage h, m_logSize := 0, m_baseInfo := info \<rparr>))"

definition findLocked :: "Map \<Rightarrow> uint32 \<Rightarrow> nat \<times> bool" where
  "findLocked m uid = (if \<not> m_loaded m then (0, False) else store_find (m_st m) uid)"

definition invalidateLocked :: "Map \<Rightarrow> Map" where
  "invalidateLocked m = m \<lparr> m_baseInfo := None, m_logSize := -1 \<rparr>"

definition flushLocked :: "Env \<Rightarrow> Map \<Rightarrow> Disk \<Rightarrow> md_error option \<times> Map \<times> Disk" where
  "flushLocked env m d =
    (case logIdentityLocked env d of
       Inl x \<Rightarrow> (Some x, m, d)
     | Inr (seq, sz) \<Rightarrow>
         let m1 = m \<lparr> m_foldedLineage := seq, m_foldedOffset := sz, m_lineage := m_lineage m + 1 \<rparr>
         in (case writeBaseLocked env m1 d of
               (Some x, m2, d2) \<Rightarrow> (Some x, m2, d2)
             | (None, m2, d2) \<Rightarrow>
                 if e_fails env RemoveFoldedLog \<and> d_log d2 \<noteq> None then (Some (IOError RemoveFoldedLog), m2, d2)
                 else
                   let d3 = d2 \<lparr> d_log := None \<rparr>; m3 = m2 \<lparr> m_logLineage := m_lineage m2, m_logSize := 0 \<rparr>
                   in (None, (case stat_base env StatBaseFlush d3 of
                                None \<Rightarrow> m3 | Some fi \<Rightarrow> m3 \<lparr> m_baseInfo := Some fi \<rparr>), d3)))"

definition reloadLocked :: "Env \<Rightarrow> Map \<Rightarrow> Disk \<Rightarrow> md_error option \<times> Map \<times> Disk" where
  "reloadLocked env m d =
    (let baseStat = stat_base env StatBaseReload d;
         logSize = (case stat_log env StatLogReload d of None \<Rightarrow> 0 | Some n \<Rightarrow> n);
         sameBase = (m_loaded m \<and> sameBaseLocked m baseStat);
         logShrank = logSize < m_logSize m;
         reopen =
           (case readBaseLocked env m d of
              (Some x, m1) \<Rightarrow> (Some x, m1, d)
            | (None, m1) \<Rightarrow> applyLogTailLocked env m1 d)
     in if sameBase \<and> \<not> logShrank \<and> logSize = m_logSize m then (None, m, d)
        else if \<not> m_loaded m \<or> \<not> sameBase \<or> logShrank then
          (if baseStat = None then (Some (IOError StatBaseReload), m, d)
           else if m_loaded m \<and> m_onDisk m = FormatV2 \<and> m_format m = FormatV2 then
             (case peekHeaderLocked env d of
                Inl x \<Rightarrow> (Some x, m, d)
              | Inr h \<Rightarrow>
                  (case adoptFoldLocked h baseStat m of
                     (True, m1) \<Rightarrow> applyLogTailLocked env m1 d
                   | (False, _) \<Rightarrow> reopen))
           else reopen)
        else if logSize > m_logSize m then
          (case replayLogInnerLocked env (m_logSize m) m d of
             ((Some x, applied), m1) \<Rightarrow>
               if x \<noteq> LogIndexMismatch then (Some x, m1, d) else (None, m1 \<lparr> m_logSize := applied \<rparr>, d)
           | ((None, applied), m1) \<Rightarrow> (None, m1 \<lparr> m_logSize := applied \<rparr>, d))
        else (None, m, d))"

section \<open>Opening\<close>

definition isForeignBase :: "md_error option \<Rightarrow> bool" where
  "isForeignBase x \<longleftrightarrow> (case x of Some (FormatError (UnknownBaseVersion v magicOK)) \<Rightarrow> \<not> magicOK | _ \<Rightarrow> False)"

definition convertToConfiguredLocked :: "Env \<Rightarrow> Map \<Rightarrow> Disk \<Rightarrow> md_error option \<times> Map \<times> Disk" where
  "convertToConfiguredLocked env m d =
    (if m_onDisk m = m_format m then (None, m, d)
     else
       (case logIdentityLocked env d of
          Inl x \<Rightarrow> (Some x, m, d)
        | Inr (seq, _) \<Rightarrow>
            (case replayLogInnerLocked env (int LogHeaderSize) m d of
               ((rerr, applied), m1) \<Rightarrow>
                 if rerr \<noteq> None \<and> rerr \<noteq> Some LogIndexMismatch then (rerr, m1, d)
                 else
                   let applied = (if seq = 0 then 0 else applied)
                   in writeBaseLocked env
                        (m1 \<lparr> m_foldedLineage := seq, m_foldedOffset := applied, m_lineage := seq + 1,
                              m_logLineage := seq, m_logSize := applied \<rparr>) d)))"

definition createFresh :: "Env \<Rightarrow> Map \<Rightarrow> Disk \<Rightarrow> md_error option \<times> Map \<times> Disk" where
  "createFresh env m d =
     flushLocked env
       (m \<lparr> m_indexID := word_of_int (e_now env div 10 ^ 9), m_st := \<lparr> st_recs = [] \<rparr>, m_loaded := True,
            m_nextMapUID := 1, m_highestFileID := 0, m_lineage := 0, m_foldedLineage := 0, m_foldedOffset := 0 \<rparr>) d"

text \<open>\<^verbatim>\<open>loadOrInit\<close> from the point where a base of our name is there.\<close>

definition load_existing :: "Env \<Rightarrow> Map \<Rightarrow> Disk \<Rightarrow> md_error option \<times> Map \<times> Disk" where
  "load_existing env m d =
    (case (case readBaseLocked env m d of
             (err, m1) \<Rightarrow> if isForeignBase err then readBaseV1Locked env m1 d else (err, m1)) of
       (Some x, m1) \<Rightarrow> (Some x, m1, d)
     | (None, m1) \<Rightarrow>
         (case convertToConfiguredLocked env m1 d of
            (Some x, m2, d2) \<Rightarrow> (Some x, m2, d2)
          | (None, m2, d2) \<Rightarrow> applyLogTailLocked env m2 d2))"

definition Close :: "Map \<Rightarrow> Map" where
  "Close m = m \<lparr> m_st := \<lparr> st_recs = [] \<rparr>, m_loaded := False \<rparr>"

section \<open>Locked operations\<close>

type_synonym 'a outcome = "(md_error + 'a) \<times> Map \<times> Disk"

definition withMapLock :: "Env \<Rightarrow> (Map \<Rightarrow> Disk \<Rightarrow> 'a outcome) \<Rightarrow> Map \<Rightarrow> Disk \<Rightarrow> 'a outcome" where
  "withMapLock env fn m d = (case e_lock env of Refused \<Rightarrow> (Inl LockError, m, d) | _ \<Rightarrow> fn m d)"

text \<open>The opening of every locked operation: a reload, whose error is returned.\<close>

definition reload_then :: "Env \<Rightarrow> (Map \<Rightarrow> Disk \<Rightarrow> 'a outcome) \<Rightarrow> Map \<Rightarrow> Disk \<Rightarrow> 'a outcome" where
  "reload_then env fn m d =
    (case reloadLocked env m d of
       (Some x, m1, d1) \<Rightarrow> (Inl x, m1, d1)
     | (None, m1, d1) \<Rightarrow> fn m1 d1)"

text \<open>The end of an operation that rewrites the base, with the result it returns on success.\<close>

definition flush_return :: "Env \<Rightarrow> 'a \<Rightarrow> Map \<Rightarrow> Disk \<Rightarrow> 'a outcome" where
  "flush_return env r m d =
    (case flushLocked env m d of (Some x, m1, d1) \<Rightarrow> (Inl x, m1, d1) | (None, m1, d1) \<Rightarrow> (Inr r, m1, d1))"

definition Compact :: "Env \<Rightarrow> Map \<Rightarrow> Disk \<Rightarrow> unit outcome" where
  "Compact env = withMapLock env (reload_then env (flush_return env ()))"

definition CreateTime :: "Map \<Rightarrow> uint32 \<Rightarrow> int \<times> bool" where
  "CreateTime m fileID =
    (if fileID = 0 \<or> fileID \<noteq> m_createFileID m then (0, False) else (sint (m_createTime m), True))"

definition RecordFileCreated :: "Env \<Rightarrow> uint32 \<Rightarrow> int \<Rightarrow> Map \<Rightarrow> Disk \<Rightarrow> unit outcome" where
  "RecordFileCreated env fileID ts =
     withMapLock env (reload_then env (\<lambda>m d.
       if m_createFileID m = fileID then (Inr (), m, d)
       else flush_return env () (m \<lparr> m_createFileID := fileID, m_createTime := word_of_int ts \<rparr>) d))"

definition BumpRebuildCount :: "Env \<Rightarrow> Map \<Rightarrow> Disk \<Rightarrow> unit outcome" where
  "BumpRebuildCount env =
     withMapLock env (reload_then env (\<lambda>m d.
       flush_return env () (m \<lparr> m_rebuildCount := m_rebuildCount m + 1 \<rparr>) d))"

definition RebuildCountUnderCallersLock :: "Env \<Rightarrow> Map \<Rightarrow> Disk \<Rightarrow> uint32 outcome" where
  "RebuildCountUnderCallersLock env = reload_then env (\<lambda>m d. (Inr (m_rebuildCount m), m, d))"

text \<open>A file that is not there, or that cannot be looked at, counts as \<^verbatim>\<open>-1\<close>.\<close>

definition JournalSizes :: "Env \<Rightarrow> Disk \<Rightarrow> int \<times> int" where
  "JournalSizes env d =
    (case stat_base env StatBaseSize d of None \<Rightarrow> -1 | Some fi \<Rightarrow> fi_size fi,
     case stat_log env StatLogSize d of None \<Rightarrow> -1 | Some n \<Rightarrow> n)"

definition MessageCount :: "Map \<Rightarrow> nat" where
  "MessageCount m = (if \<not> m_loaded m then 0 else store_count (m_st m))"

section \<open>Appending\<close>

definition commitAppendLocked :: "Env \<Rightarrow> MapEntry list \<Rightarrow> Map \<Rightarrow> Disk \<Rightarrow> md_error option \<times> Map \<times> Disk" where
  "commitAppendLocked env es m d =
    (if es = [] then (None, m, d)
     else
       (case appendLogLocked env es m d of
          (Inl x, m1, d1) \<Rightarrow> (Some x, m1, d1)
        | (Inr _, m1, d1) \<Rightarrow> if shouldRotateLocked env m1 d1 then flushLocked env m1 d1 else (None, m1, d1)))"

record Layout =
  rl_FileID :: uint32
  rl_Offset :: uint32
  rl_Size :: uint32
  rl_GUID :: string

text \<open>The loop of \<^verbatim>\<open>AppendRecords\<close>: an entry for each layout under the next \<^verbatim>\<open>map_uid\<close>.\<close>

fun append_loop :: "Layout list \<Rightarrow> Map \<Rightarrow> MapEntry list \<times> Map" where
  "append_loop [] m = ([], m)"
| "append_loop (l # ls) m =
    (let e = \<lparr> me_UID = m_nextMapUID m, me_FileID = rl_FileID l, me_Offset = rl_Offset l, me_Size = rl_Size l,
               me_RefCount = 1, me_GUID = rl_GUID l \<rparr>;
         m1 = m \<lparr> m_st := store_insert (m_st m) e, m_nextMapUID := m_nextMapUID m + 1,
                  m_highestFileID := (if rl_FileID l > m_highestFileID m then rl_FileID l else m_highestFileID m) \<rparr>;
         (added, m2) = append_loop ls m1
     in (e # added, m2))"

definition append_commit :: "Env \<Rightarrow> (MapEntry list \<Rightarrow> 'a) \<Rightarrow> MapEntry list \<times> Map \<Rightarrow> Disk \<Rightarrow> 'a outcome" where
  "append_commit env res = (\<lambda>(added, m) d.
     case commitAppendLocked env added m d of
       (Some x, m1, d1) \<Rightarrow> (Inl x, m1, d1)
     | (None, m1, d1) \<Rightarrow> (Inr (res added), m1, d1))"

definition AppendRecords :: "Env \<Rightarrow> Layout list \<Rightarrow> Map \<Rightarrow> Disk \<Rightarrow> uint32 list outcome" where
  "AppendRecords env layouts m d =
    (if layouts = [] then (Inr [], m, d)
     else withMapLock env (reload_then env (\<lambda>m d. append_commit env (map me_UID) (append_loop layouts m) d)) m d)"

definition AppendRecord :: "Env \<Rightarrow> uint32 \<Rightarrow> uint32 \<Rightarrow> uint32 \<Rightarrow> string \<Rightarrow> Map \<Rightarrow> Disk \<Rightarrow> uint32 outcome" where
  "AppendRecord env fileID offset sz guid m d =
    (case AppendRecords env [\<lparr> rl_FileID = fileID, rl_Offset = offset, rl_Size = sz, rl_GUID = guid \<rparr>] m d of
       (Inl x, m1, d1) \<Rightarrow> (Inl x, m1, d1)
     | (Inr uids, m1, d1) \<Rightarrow> (Inr (uids ! 0), m1, d1))"

definition ImportOnce :: "Env \<Rightarrow> (md_error + Layout list) \<Rightarrow> Map \<Rightarrow> Disk \<Rightarrow> nat outcome" where
  "ImportOnce env fn =
     withMapLock env (reload_then env (\<lambda>m d.
       if store_count (m_st m) > 0 then (Inr 0, m, d)
       else (case fn of
               Inl x \<Rightarrow> (Inl x, m, d)
             | Inr layouts \<Rightarrow>
                 if layouts = [] then (Inr 0, m, d)
                 else append_commit env length (append_loop layouts m) d)))"

text \<open>The id is returned also with an error; the error hides it here.\<close>

definition AllocFileID :: "Env \<Rightarrow> Map \<Rightarrow> Disk \<Rightarrow> uint32 outcome" where
  "AllocFileID env =
     withMapLock env (reload_then env (\<lambda>m d.
       let next0 = m_highestFileID m + 1; next1 = (if next0 = 0 then 1 else next0)
       in flush_return env next1 (m \<lparr> m_highestFileID := next1 \<rparr>) d))"

record Batch =
  b_pending :: "Layout list"
  b_finished :: bool

definition batch_Next :: "Map \<Rightarrow> uint32 \<Rightarrow> Batch \<Rightarrow> (uint32 \<times> uint32) \<times> Batch" where
  "batch_Next m sz b =
    (let (fileID, offset) =
       (if b_pending b = [] then (if m_highestFileID m = 0 then 1 else m_highestFileID m, 0)
        else
          let lst = last (b_pending b); offset = rl_Offset lst + rl_Size lst
          in if offset + sz > rotateSizeOrDefault m then (rl_FileID lst + 1, 0) else (rl_FileID lst, offset))
     in ((fileID, offset),
         b \<lparr> b_pending := b_pending b @
               [\<lparr> rl_FileID = fileID, rl_Offset = offset, rl_Size = sz, rl_GUID = zeros 16 \<rparr>] \<rparr>))"

definition SetLastGUID :: "string \<Rightarrow> Batch \<Rightarrow> Batch" where
  "SetLastGUID guid b =
    (if b_pending b = [] then b
     else b \<lparr> b_pending := butlast (b_pending b) @ [(last (b_pending b)) \<lparr> rl_GUID := guid \<rparr>] \<rparr>)"

fun finish_loop :: "int \<Rightarrow> uint32 \<Rightarrow> Layout list \<Rightarrow> Map \<Rightarrow> MapEntry list \<times> uint32 \<times> Map" where
  "finish_loop baseDelta maxFileID [] m = ([], maxFileID, m)"
| "finish_loop baseDelta maxFileID (p # ps) m =
    (let id0 = word_of_int (uint (rl_FileID p) + baseDelta); fileID = (if id0 = 0 then 1 else id0);
         maxFileID = (if fileID > maxFileID then fileID else maxFileID);
         e = \<lparr> me_UID = m_nextMapUID m, me_FileID = fileID, me_Offset = rl_Offset p, me_Size = rl_Size p,
               me_RefCount = 1, me_GUID = rl_GUID p \<rparr>;
         (added, mx, m2) = finish_loop baseDelta maxFileID ps
            (m \<lparr> m_st := store_insert (m_st m) e, m_nextMapUID := m_nextMapUID m + 1 \<rparr>)
     in (e # added, mx, m2))"

definition batch_Finish :: "Env \<Rightarrow> Batch \<Rightarrow> Map \<Rightarrow> Disk \<Rightarrow> Batch \<times> uint32 list outcome" where
  "batch_Finish env b m d =
    (if b_finished b then (b, Inl BatchFinished, m, d)
     else
       (b \<lparr> b_finished := True \<rparr>,
        if b_pending b = [] then (Inr [], m, d)
        else withMapLock env (reload_then env (\<lambda>m d.
          let first = rl_FileID (hd (b_pending b));
              baseDelta = (if first > 0 then
                             (if m_highestFileID m = 0 then 1 - uint first
                              else uint (m_highestFileID m) - uint first)
                           else 0);
              max0 = (if m_highestFileID m = 0 then 1 else m_highestFileID m);
              (added, mx, m1) = finish_loop baseDelta max0 (b_pending b) m
          in append_commit env (map me_UID) (added, m1 \<lparr> m_highestFileID := mx \<rparr>) d)) m d))"

section \<open>Reference counts\<close>

definition appendRefcountLogLocked ::
  "Env \<Rightarrow> TxExtAtomicInc list \<Rightarrow> Map \<Rightarrow> Disk \<Rightarrow> md_error option \<times> Map \<times> Disk" where
  "appendRefcountLogLocked env deltas m d =
    (if deltas = [] then (None, m, d)
     else
       (case writeLogTxLocked env TxTypeExtAtomicInc (EncodeTxExtAtomicIncPayload deltas) m d of
          (Inl x, m1, d1) \<Rightarrow> (Some x, m1, d1)
        | (Inr _, m1, d1) \<Rightarrow> if shouldRotateLocked env m1 d1 then flushLocked env m1 d1 else (None, m1, d1)))"

text \<open>The loop of \<^verbatim>\<open>UpdateRefcounts\<close>: it stops at the first \<^verbatim>\<open>map_uid\<close> that is not there, the earlier records
  already changed.  \<open>delta\<close> is the \<^verbatim>\<open>int16\<close> argument as an \<^verbatim>\<open>int32\<close>.\<close>

fun refcount_loop :: "uint32 \<Rightarrow> uint32 list \<Rightarrow> Map \<Rightarrow> (md_error + TxExtAtomicInc list) \<times> Map" where
  "refcount_loop delta [] m = (Inr [], m)"
| "refcount_loop delta (uid # uids) m =
    (case findLocked m uid of
       (i, False) \<Rightarrow> (Inl (UIDNotFound uid), m)
     | (i, True) \<Rightarrow>
         (case refcount_loop delta uids (m \<lparr> m_st := setAt (m_st m) i (add_ref delta (store_at (m_st m) i)) \<rparr>) of
            (Inl x, m1) \<Rightarrow> (Inl x, m1)
          | (Inr ds, m1) \<Rightarrow> (Inr (\<lparr> ai_UID = uid, ai_Diff = delta \<rparr> # ds), m1)))"

definition UpdateRefcounts :: "Env \<Rightarrow> uint32 list \<Rightarrow> int \<Rightarrow> Map \<Rightarrow> Disk \<Rightarrow> unit outcome" where
  "UpdateRefcounts env uids delta m d =
    (if uids = [] then (Inr (), m, d)
     else withMapLock env (reload_then env (\<lambda>m d.
       case refcount_loop (word_of_int delta) uids m of
         (Inl x, m1) \<Rightarrow> (Inl x, m1, d)
       | (Inr deltas, m1) \<Rightarrow>
           (case appendRefcountLogLocked env deltas m1 d of
              (Some x, m2, d2) \<Rightarrow> (Inl x, invalidateLocked m2, d2)
            | (None, m2, d2) \<Rightarrow> (Inr (), m2, d2)))) m d)"

text \<open>A pass over all records by index that rewrites some of them.\<close>

definition rewrite_all :: "(MapEntry \<Rightarrow> MapEntry) \<Rightarrow> store \<Rightarrow> store" where
  "rewrite_all f st = fold (\<lambda>i st. setAt st i (f (store_at st i))) [0..<store_count st] st"

definition clamp_count :: "int \<Rightarrow> int" where
  "clamp_count n = (let n = (if n < 0 then 0 else n) in if n > 0xFFFF then 0xFFFF else n)"

definition refs_of :: "(uint32, int) gomap \<Rightarrow> uint32 \<Rightarrow> int" where
  "refs_of refs uid = clamp_count (case map_of refs uid of None \<Rightarrow> 0 | Some n \<Rightarrow> n)"

definition SetRefcountsFromReferences :: "Env \<Rightarrow> (uint32, int) gomap \<Rightarrow> Map \<Rightarrow> Disk \<Rightarrow> nat outcome" where
  "SetRefcountsFromReferences env refs =
     withMapLock env (reload_then env (\<lambda>m d.
       flush_return env (length (filter (\<lambda>e. refs_of refs (me_UID e) = 0) (each (m_st m))))
         (m \<lparr> m_st := rewrite_all (\<lambda>e. e \<lparr> me_RefCount := word_of_int (refs_of refs (me_UID e)) \<rparr>) (m_st m) \<rparr>) d))"

definition wants_guid :: "(uint32, string) gomap \<Rightarrow> MapEntry \<Rightarrow> bool" where
  "wants_guid guids e =
    (case map_of guids (me_UID e) of None \<Rightarrow> False | Some g \<Rightarrow> g \<noteq> zeros 16 \<and> me_GUID e = zeros 16)"

definition SetGUIDs :: "Env \<Rightarrow> (uint32, string) gomap \<Rightarrow> Map \<Rightarrow> Disk \<Rightarrow> nat outcome" where
  "SetGUIDs env guids m d =
    (if guids = [] then (Inr 0, m, d)
     else withMapLock env (reload_then env (\<lambda>m d.
       let written = length (filter (wants_guid guids) (each (m_st m)))
       in if written = 0 then (Inr 0, m, d)
          else flush_return env written
            (m \<lparr> m_st := rewrite_all (\<lambda>e. if wants_guid guids e
                                          then e \<lparr> me_GUID := the (map_of guids (me_UID e)) \<rparr> else e) (m_st m) \<rparr>) d)) m d)"

definition GetZeroRefFiles :: "Env \<Rightarrow> Map \<Rightarrow> Disk \<Rightarrow> uint32 list outcome" where
  "GetZeroRefFiles env m d =
    (if \<not> m_loaded m then (Inr [], m, d)
     else reload_then env (\<lambda>m d.
       (Inr (map fst (fold (\<lambda>e seen. if me_RefCount e = 0 then AList.update (me_FileID e) True seen else seen)
                        (each (m_st m)) [])), m, d)) m d)"

definition RecordsInFile :: "Env \<Rightarrow> uint32 \<Rightarrow> Map \<Rightarrow> Disk \<Rightarrow> MapEntry list outcome" where
  "RecordsInFile env fileID m d =
    (if \<not> m_loaded m then (Inr [], m, d)
     else reload_then env (\<lambda>m d. (Inr (filter (\<lambda>e. me_FileID e = fileID) (each (m_st m))), m, d)) m d)"

section \<open>Purging\<close>

record MovedRecord =
  mv_UID :: uint32
  mv_FileID :: uint32
  mv_Offset :: uint32
  mv_Size :: uint32
  mv_GUID :: string

fun move_loop :: "MovedRecord list \<Rightarrow> Map \<Rightarrow> md_error option \<times> Map" where
  "move_loop [] m = (None, m)"
| "move_loop (mv # mvs) m =
    (case findLocked m (mv_UID mv) of
       (i, False) \<Rightarrow> (Some (UIDNotFound (mv_UID mv)), m)
     | (i, True) \<Rightarrow>
         let e = (store_at (m_st m) i)
               \<lparr> me_FileID := mv_FileID mv, me_Offset := mv_Offset mv, me_Size := mv_Size mv \<rparr>;
             e = (if mv_GUID mv \<noteq> zeros 16 then e \<lparr> me_GUID := mv_GUID mv \<rparr> else e)
         in move_loop mvs
              (m \<lparr> m_st := setAt (m_st m) i e,
                   m_highestFileID := (if mv_FileID mv > m_highestFileID m then mv_FileID mv
                                       else m_highestFileID m) \<rparr>))"

definition AppendMove :: "Env \<Rightarrow> MovedRecord list \<Rightarrow> uint32 list \<Rightarrow> Map \<Rightarrow> Disk \<Rightarrow> unit outcome" where
  "AppendMove env moved expunged m d =
    (if moved = [] \<and> expunged = [] then (Inr (), m, d)
     else withMapLock env (reload_then env (\<lambda>m d.
       case move_loop moved m of
         (Some x, m1) \<Rightarrow> (Inl x, m1, d)
       | (None, m1) \<Rightarrow>
           (case find (\<lambda>uid. \<not> snd (findLocked m1 uid)) expunged of
              Some uid \<Rightarrow> (Inl (UIDNotFound uid), m1, d)
            | None \<Rightarrow>
                flush_return env ()
                  (if expunged = [] then m1
                   else m1 \<lparr> m_st := snd (removeFunc (m_st m1) (\<lambda>uid. uid \<in> set expunged)) \<rparr>) d))) m d)"

definition ExpungeVanished :: "Env \<Rightarrow> (uint32, bool) gomap \<Rightarrow> Map \<Rightarrow> Disk \<Rightarrow> nat outcome" where
  "ExpungeVanished env presentUIDs =
     withMapLock env (reload_then env (\<lambda>m d.
       case removeFunc (m_st m) (\<lambda>uid. map_of presentUIDs uid \<noteq> Some True) of
         (dropped, st) \<Rightarrow>
           let m1 = m \<lparr> m_st := st \<rparr>
           in if dropped = 0 then (Inr 0, m1, d) else flush_return env dropped m1 d))"

definition CompactGarbage :: "Map \<Rightarrow> uint32 list" where
  "CompactGarbage m =
    (if \<not> m_loaded m then [] else map me_UID (filter (\<lambda>e. me_RefCount e = 0) (each (m_st m))))"

section \<open>Lookup\<close>

definition lookupLocked_map :: "Map \<Rightarrow> uint32 \<Rightarrow> MapEntry option" where
  "lookupLocked_map m uid = (case findLocked m uid of (i, True) \<Rightarrow> Some (store_at (m_st m) i) | (i, False) \<Rightarrow> None)"

definition map_Lookup :: "Env \<Rightarrow> uint32 \<Rightarrow> Map \<Rightarrow> Disk \<Rightarrow> MapEntry option outcome" where
  "map_Lookup env uid m d =
    (case lookupLocked_map m uid of
       Some e \<Rightarrow> (Inr (Some e), m, d)
     | None \<Rightarrow> reload_then env (\<lambda>m d. (Inr (lookupLocked_map m uid), m, d)) m d)"

definition zero_entry :: MapEntry where
  "zero_entry = \<lparr> me_UID = 0, me_FileID = 0, me_Offset = 0, me_Size = 0, me_RefCount = 0, me_GUID = zeros 16 \<rparr>"

fun lookup_many :: "Env \<Rightarrow> bool \<Rightarrow> uint32 list \<Rightarrow> Map \<Rightarrow> Disk \<Rightarrow> MapEntry list outcome" where
  "lookup_many env refreshed [] m d = (Inr [], m, d)"
| "lookup_many env refreshed (uid # uids) m d =
    (case (if lookupLocked_map m uid = None \<and> \<not> refreshed
           then reload_then env (\<lambda>m d. (Inr (lookupLocked_map m uid, True), m, d)) m d
           else (Inr (lookupLocked_map m uid, refreshed), m, d)) of
       (Inl x, m1, d1) \<Rightarrow> (Inl x, m1, d1)
     | (Inr (r, refreshed1), m1, d1) \<Rightarrow>
         (case lookup_many env refreshed1 uids m1 d1 of
            (Inl x, m2, d2) \<Rightarrow> (Inl x, m2, d2)
          | (Inr es, m2, d2) \<Rightarrow> (Inr ((case r of None \<Rightarrow> zero_entry | Some e \<Rightarrow> e) # es), m2, d2)))"

definition LookupMany :: "Env \<Rightarrow> uint32 list \<Rightarrow> Map \<Rightarrow> Disk \<Rightarrow> MapEntry list outcome" where
  "LookupMany env uids m d = lookup_many env False uids m d"

definition Records :: "Map \<Rightarrow> MapEntry list" where
  "Records m = each (m_st m)"

definition LookupByGUID :: "string \<Rightarrow> Map \<Rightarrow> MapEntry option" where
  "LookupByGUID guid m = (if guid = zeros 16 then None else find (\<lambda>e. me_GUID e = guid) (each (m_st m)))"

end
