(* ===== verification/Mdbox_Replay.thy ===== *)
theory Mdbox_Replay
  imports Mdbox_Map
begin

text \<open>
  What the append log of the map index carries: a log that was written whole is a list of transactions, each an
  append of entries or a list of reference-count deltas, and replaying its bytes applies the transactions in order
  and stops exactly at the end.
\<close>

section \<open>The layout of a log record\<close>

definition log_layout :: RecordLayout where
  "log_layout =
    \<lparr> lay_RecordSize = 38,
      lay_Extensions =
        [(defaultExtensions 0 ! 0) \<lparr> ext_RecordOffset := 8 \<rparr>, (defaultExtensions 0 ! 1) \<lparr> ext_RecordOffset := 20 \<rparr>,
         (defaultExtensions 0 ! 2) \<lparr> ext_RecordOffset := 22 \<rparr>] \<rparr>"

lemmas ext_consts = extMap_def extRef_def extGUID_def extMapSize_def extRefSize_def extGUIDSize_def
  mapHeaderSize_def

lemma default_valid: "list_all ext_valid (defaultExtensions 0)"
  by (simp add: defaultExtensions_def ext_valid_def ExtNameMaxLength_def ext_consts)

lemma default_assign: "assign_offsets RecordMinSize (defaultExtensions 0) = Inr (38, lay_Extensions log_layout)"
  by (simp add: defaultExtensions_def log_layout_def RecordMinSize_def align_pos_def ext_consts Let_def)

lemma default_names: "distinct (map ext_Name (defaultExtensions h))"
  by (simp add: defaultExtensions_def ext_consts)

lemma logLayout_eq:
  assumes "ext_sorts srt"
  shows "logLayout srt = Inr log_layout"
proof -
  have a: "srt align_less (defaultExtensions 0) = defaultExtensions 0"
    by (rule sort_by_align_unique [OF assms refl default_names])
      (simp add: defaultExtensions_def align_less_def)
  let ?E = "lay_Extensions log_layout"
  have "srt offset_less ?E = ?E"
  proof (rule sorted_total_unique [where lt = offset_less])
    show "mset (srt offset_less ?E) = mset ?E" by (rule ext_sorts_mset [OF assms])
    then have s: "set (srt offset_less ?E) = set ?E" by (metis set_mset_mset)
    show "sorted_wrt (\<lambda>a b. \<not> offset_less b a) (srt offset_less ?E)"
      by (rule ext_sorts_sorted [OF assms weak_offset])
    show "sorted_wrt (\<lambda>a b. \<not> offset_less b a) ?E" by (simp add: log_layout_def offset_less_def)
    show "offset_less a b \<or> offset_less b a"
      if "a \<in> set (srt offset_less ?E)" "b \<in> set (srt offset_less ?E)" "a \<noteq> b" for a b
      using that unfolding s by (auto simp: log_layout_def offset_less_def)
  qed
  then show ?thesis
    using default_valid by (simp add: logLayout_def ComputeRecordLayout_def a default_assign log_layout_def)
qed

lemma log_layout_ok: "layout_ok log_layout"
  by (auto simp: log_layout_def slots_ok_def defaultExtensions_def ext_consts)

abbreviation stride :: nat where "stride \<equiv> 38"

lemma log_stride [simp]: "unat (lay_RecordSize log_layout) = stride" "lay_RecordSize log_layout \<noteq> 0"
  by (simp_all add: log_layout_def)

section \<open>Records and payloads of the log\<close>

lemma log_record_roundtrip:
  assumes "entry_ok e"
  shows "\<exists>buf rec. EncodeRecord stride log_layout (entryToLogRecord e) = Inr buf \<and> length buf = stride \<and>
           DecodeRecord buf log_layout = Inr rec \<and> rec_UID rec = me_UID e \<and> logRecordToEntry rec = Inr e"
proof -
  let ?r = "entryToLogRecord e"
  have ne: "encodeMapExt a b c \<noteq> []" "encodeRefExt r \<noteq> []" "encodeGUIDExt g \<noteq> []" for a b c r g
    by (metis length_exts list.size(3) zero_neq_numeral)+
  have fits: "data_fits (rec_Ext ?r) (lay_Extensions log_layout)"
    using ne by (auto simp: data_fits_def slot_data_def log_layout_def defaultExtensions_def entryToLogRecord_def ext_consts)
  from EncodeRecord_ok [OF log_layout_ok this] obtain buf where
    buf: "EncodeRecord stride log_layout ?r = Inr buf" "length buf = stride"
      "DecodeRecord buf log_layout = Inr (seen_record log_layout ?r)" by auto
  have "rec_UID (seen_record log_layout ?r) = me_UID e" by (simp add: seen_record_def entryToLogRecord_def)
  moreover have "logRecordToEntry (seen_record log_layout ?r) = Inr e"
    using ne assms
    by (simp add: logRecordToEntry_def seen_record_def entryToLogRecord_def ext_data_def slot_data_def log_layout_def
        defaultExtensions_def ext_consts map_ext_roundtrip ref_ext_roundtrip guid_ext_roundtrip)
  ultimately show ?thesis using buf by blast
qed

text \<open>What a replay makes of an appended entry: nothing when its \<^verbatim>\<open>map_uid\<close> is there already.\<close>

definition replay_new :: "MapEntry \<Rightarrow> Map \<Rightarrow> Map" where
  "replay_new e m = (if snd (store_find (m_st m) (me_UID e)) then m else replay_entry e m)"

lemma append_payload:
  assumes "list_all entry_ok es"
  shows "\<exists>p. EncodeTxAppendPayload log_layout (map entryToLogRecord es) = Inr p \<and> length p = stride * length es \<and>
           (\<forall>pad m. length pad < stride \<longrightarrow> replay_append log_layout stride (p @ pad) m = fold replay_new es m)"
  using assms
proof (induction es)
  case Nil
  then show ?case by (simp add: replay_append.simps)
next
  case (Cons e es)
  then obtain p where p: "EncodeTxAppendPayload log_layout (map entryToLogRecord es) = Inr p" "length p = stride * length es"
      "\<And>pad m. length pad < stride \<Longrightarrow> replay_append log_layout stride (p @ pad) m = fold replay_new es m" by auto
  from Cons.prems log_record_roundtrip [of e] obtain buf rec where
    b: "EncodeRecord stride log_layout (entryToLogRecord e) = Inr buf" "length buf = stride"
      "DecodeRecord buf log_layout = Inr rec" "rec_UID rec = me_UID e" "logRecordToEntry rec = Inr e" by auto
  have "replay_append log_layout stride ((buf @ p) @ pad) m = fold replay_new (e # es) m" if "length pad < stride" for pad m
    using b p(3) [OF that] by (subst replay_append.simps) (simp add: replay_new_def)
  then show ?case using b(1,2) p(1,2) by simp
qed

section \<open>Framed transactions\<close>

unbundle bit_operations_syntax

definition padded :: "string \<Rightarrow> string" where
  "padded p = p @ zeros ((4 - length p mod 4) mod 4)"

lemma length_padded: "4 dvd length (padded p)" "length (padded p) < length p + 4"
proof -
  let ?r = "length p mod 4"
  have r: "?r < 4" by simp
  then have c: "?r = 0 \<or> ?r = 1 \<or> ?r = 2 \<or> ?r = 3" by linarith
  have "length p = 4 * (length p div 4) + ?r" by simp
  then have "length (padded p) = 4 * (length p div 4) + (?r + (4 - ?r) mod 4)" by (simp add: padded_def)
  moreover have "4 dvd ?r + (4 - ?r) mod 4" using c by auto
  ultimately show "4 dvd length (padded p)" by (simp only: dvd_add dvd_triv_left)
  show "length (padded p) < length p + 4" by (simp add: padded_def)
qed

lemma framed_size_ok:
  assumes "n < 2 ^ 30" and "4 dvd n"
  shows "\<exists>f. EncodeFramedSize (of_nat n) = Inr f"
proof -
  have "\<not> (0x40000000 :: uint32) \<le> of_nat n"
    using of_nat_less_small [of n "2 ^ 30"] assms(1) by (simp add: not_le)
  moreover have "(of_nat n :: uint32) AND 3 = 0"
  proof -
    have "(of_nat n :: uint32) AND 3 = take_bit 2 (of_nat n)" by (simp add: take_bit_eq_mask mask_eq_exp_minus_1)
    also have "\<dots> = of_nat (take_bit 2 n)" by (simp add: take_bit_of_nat)
    also have "take_bit 2 n = 0" using assms(2) by (simp add: take_bit_eq_mod)
    finally show ?thesis by simp
  qed
  ultimately show ?thesis unfolding EncodeFramedSize_def Let_def by auto
qed

lemma encMapLogRec_ok:
  assumes "length (padded p) + 8 < 2 ^ 30"
  shows "\<exists>h. encMapLogRec ty p = Inr (h @ padded p) \<and> length h = 8 \<and>
           DecodeTxHeader h = Inr \<lparr> tx_Size = of_nat (8 + length (padded p)), tx_Type = ty \<rparr>"
proof -
  let ?P = "padded p" and ?n = "8 + length (padded p)"
  let ?H = "\<lparr> tx_Size = of_nat ?n, tx_Type = ty \<rparr> :: TxHeader"
  have P: "(let pad = (4 - length p mod 4) mod 4 in if pad > 0 then p @ zeros pad else p) = ?P"
    by (simp add: padded_def Let_def zeros_def)
  have "4 dvd ?n" using length_padded(1) [of p] by (simp add: dvd_add)
  from framed_size_ok [OF _ this] assms obtain f where f: "EncodeFramedSize (of_nat ?n) = Inr f" by auto
  let ?h = "copy_at 4 (enc32 ty) (copy_at 0 (enc32 f) (zeros 8))"
  have e: "EncodeTxHeader (zeros 8) ?H = Inr ?h" unfolding EncodeTxHeader_def TxHeader.simps f by simp
  have "8 \<le> (of_nat ?n :: uint32)"
    using of_nat_less_small [of ?n 8] assms by (simp add: not_less [symmetric])
  then have "DecodeTxHeader ?h = Inr ?H" by (intro tx_header_roundtrip [OF _ e]) simp
  moreover have "copy_at 8 ?P (copy_at 0 ?h (zeros ?n)) = ?h @ ?P"
    by (simp add: copy_at_def zeros_def)
  then have "encMapLogRec ty p = Inr (?h @ ?P)"
    using e P unfolding encMapLogRec_def Let_def by simp
  ultimately show ?thesis by (intro exI [of _ ?h]) simp
qed

lemma replay_frame:
  assumes "length h = 8" and "DecodeTxHeader h = Inr \<lparr> tx_Size = of_nat (8 + length P), tx_Type = ty \<rparr>"
    and "length P \<le> 2 ^ 24"
  shows "replay_loop layout (h @ P @ r) pos m =
           replay_loop layout r (pos + 8 + int (length P)) (replay_tx layout ty P m)"
proof -
  have "unat (of_nat (8 + length P) :: uint32) = 8 + length P" using assms(3) by (intro unat_small) simp
  then have n: "int (unat (of_nat (8 + length P) :: uint32)) - 8 = int (length P)" by simp
  have r8: "ReadFull 8 (h @ P @ r) = Inr (h, P @ r)" using assms(1) by (simp add: ReadFull_def)
  have rp: "ReadFull (nat (int (length P))) (P @ r) = Inr (P, r)" by (simp add: ReadFull_def)
  have b: "\<not> (int (length P) < 0 \<or> 2 ^ 24 < int (length P))" using assms(3) by simp
  show ?thesis
    by (subst replay_loop.simps)
      (unfold r8 sum.case prod.case assms(2) TxHeader.simps Let_def n if_not_P [OF b] rp, simp)
qed

lemma replay_end: "length r < 8 \<Longrightarrow> replay_loop layout r pos m = (pos, m)"
  by (subst replay_loop.simps) (simp add: ReadFull_def)

section \<open>Logs as lists of transactions\<close>

datatype tx = AppendTx "MapEntry list" | RefcountTx "TxExtAtomicInc list"

fun tx_wf :: "tx \<Rightarrow> bool" where
  "tx_wf (AppendTx es) \<longleftrightarrow> list_all entry_ok es \<and> stride * length es + 4 \<le> 2 ^ 24"
| "tx_wf (RefcountTx ds) \<longleftrightarrow> 8 * length ds + 4 \<le> 2 ^ 24"

fun tx_code :: "tx \<Rightarrow> uint32" where
  "tx_code (AppendTx es) = TxTypeAppend"
| "tx_code (RefcountTx ds) = TxTypeExtAtomicInc"

fun tx_payload :: "tx \<Rightarrow> string" where
  "tx_payload (AppendTx es) = projr (EncodeTxAppendPayload log_layout (map entryToLogRecord es))"
| "tx_payload (RefcountTx ds) = EncodeTxExtAtomicIncPayload ds"

definition tx_bytes :: "tx \<Rightarrow> string" where
  "tx_bytes t = projr (encMapLogRec (tx_code t) (tx_payload t))"

fun tx_apply :: "tx \<Rightarrow> Map \<Rightarrow> Map" where
  "tx_apply (AppendTx es) m = fold replay_new es m"
| "tx_apply (RefcountTx ds) m = m \<lparr> m_st := fold apply_delta ds (m_st m) \<rparr>"

lemma length_inc_payload [simp]: "length (EncodeTxExtAtomicIncPayload ds) = 8 * length ds"
  by (induction ds) (simp_all add: EncodeTxExtAtomicIncPayload_def uid_pair_def)

lemma inc_payload_decode:
  "length t < 8 \<Longrightarrow> DecodeTxExtAtomicIncPayload (EncodeTxExtAtomicIncPayload ds @ t) = ds"
  using decode_pairs_concat [of t "map (\<lambda>r. (ai_UID r, ai_Diff r)) ds"]
  by (simp add: DecodeTxExtAtomicIncPayload_def EncodeTxExtAtomicIncPayload_def comp_def map_idI)

lemma length_tx_payload: "tx_wf t \<Longrightarrow> length (tx_payload t) + 4 \<le> 2 ^ 24"
  by (cases t) (use append_payload in fastforce)+

lemma tx_kinds:
  "tx_Kind TxTypeAppend = TxTypeAppend" "tx_Kind TxTypeExtAtomicInc = TxTypeExtAtomicInc"
  "TxTypeAppend \<noteq> TxTypeExtAtomicInc"
  by (simp_all add: tx_Kind_def TxTypeMask_def TxTypeAppend_def TxTypeExtAtomicInc_def)

lemma replay_tx_padded: "tx_wf t \<Longrightarrow> replay_tx log_layout (tx_code t) (padded (tx_payload t)) m = tx_apply t m"
proof (cases t)
  case (AppendTx es)
  assume "tx_wf t"
  with AppendTx append_payload [of es] obtain p where p: "tx_payload t = p"
      "\<And>pad. length pad < stride \<Longrightarrow> replay_append log_layout stride (p @ pad) m = fold replay_new es m" by auto
  have "replay_append log_layout stride (padded p) m = fold replay_new es m"
    unfolding padded_def by (rule p(2)) simp
  with AppendTx p(1) show ?thesis by (simp add: replay_tx_def tx_kinds)
next
  case (RefcountTx ds)
  have "DecodeTxExtAtomicIncPayload (padded (EncodeTxExtAtomicIncPayload ds)) = ds"
    unfolding padded_def by (rule inc_payload_decode) simp
  with RefcountTx show ?thesis by (simp add: replay_tx_def tx_kinds applyRefcountDeltasLocked_def)
qed

lemma tx_bytes_frame:
  assumes "tx_wf t"
  shows "\<exists>h. encMapLogRec (tx_code t) (tx_payload t) = Inr (tx_bytes t) \<and> tx_bytes t = h @ padded (tx_payload t) \<and>
     length h = 8 \<and>
     DecodeTxHeader h = Inr \<lparr> tx_Size = of_nat (8 + length (padded (tx_payload t))), tx_Type = tx_code t \<rparr> \<and>
     length (padded (tx_payload t)) \<le> 2 ^ 24"
proof -
  have l: "length (padded (tx_payload t)) < 2 ^ 24"
    using length_tx_payload [OF assms] length_padded(2) [of "tx_payload t"] by linarith
  with encMapLogRec_ok [of "tx_payload t" "tx_code t"] show ?thesis by (auto simp: tx_bytes_def)
qed

lemma replay_tx_bytes:
  assumes "tx_wf t"
  shows "replay_loop log_layout (tx_bytes t @ r) pos m =
           replay_loop log_layout r (pos + int (length (tx_bytes t))) (tx_apply t m)"
proof -
  from tx_bytes_frame [OF assms] obtain h where h: "tx_bytes t = h @ padded (tx_payload t)" "length h = 8"
    "DecodeTxHeader h = Inr \<lparr> tx_Size = of_nat (8 + length (padded (tx_payload t))), tx_Type = tx_code t \<rparr>"
    "length (padded (tx_payload t)) \<le> 2 ^ 24" by blast
  from replay_frame [OF h(2-4), of log_layout r pos m] show ?thesis
    using h(1,2) by (simp add: replay_tx_padded [OF assms] add.assoc)
qed

abbreviation log_bytes :: "tx list \<Rightarrow> string" where
  "log_bytes ts \<equiv> concat (map tx_bytes ts)"

lemma replay_log_bytes:
  "list_all tx_wf ts \<Longrightarrow> replay_loop log_layout (log_bytes ts @ r) pos m =
     replay_loop log_layout r (pos + int (length (log_bytes ts))) (fold tx_apply ts m)"
  by (induction ts arbitrary: pos m) (simp_all add: replay_tx_bytes add.assoc)

end
