(* ===== verification/Mdbox_Sync.thy ===== *)
theory Mdbox_Sync
  imports Mdbox_Replay
begin

text \<open>
  The map index shared by several handles.  A volume says what the bytes of a well-formed disk stand for; a handle
  is synced with it when it holds exactly the records of the base and of the transactions its log adds, and stale
  when it has seen an earlier state.  Reloading brings a stale handle up to date, every operation leaves the disk
  well formed and its handle synced, and a crash inside a fold neither loses nor repeats a transaction.
\<close>

section \<open>What a transaction changes\<close>

record Content =
  c_st :: store
  c_next :: uint32
  c_high :: uint32
  c_rebuild :: uint32
  c_createFile :: uint32
  c_createTime :: uint64

definition content :: "Map \<Rightarrow> Content" where
  "content m = \<lparr> c_st = m_st m, c_next = m_nextMapUID m, c_high = m_highestFileID m, c_rebuild = m_rebuildCount m,
     c_createFile = m_createFileID m, c_createTime = m_createTime m \<rparr>"

definition put_content :: "Content \<Rightarrow> Map \<Rightarrow> Map" where
  "put_content c m = m \<lparr> m_st := c_st c, m_nextMapUID := c_next c, m_highestFileID := c_high c, m_rebuildCount := c_rebuild c,
     m_createFileID := c_createFile c, m_createTime := c_createTime c \<rparr>"

definition new_step :: "MapEntry \<Rightarrow> Content \<Rightarrow> Content" where
  "new_step e c =
    (if snd (store_find (c_st c) (me_UID e)) then c
     else c \<lparr> c_st := store_insert (c_st c) e, c_next := (if me_UID e \<ge> c_next c then me_UID e + 1 else c_next c),
              c_high := (if me_FileID e > c_high c then me_FileID e else c_high c) \<rparr>)"

fun tx_step :: "tx \<Rightarrow> Content \<Rightarrow> Content" where
  "tx_step (AppendTx es) c = fold new_step es c"
| "tx_step (RefcountTx ds) c = c \<lparr> c_st := fold apply_delta ds (c_st c) \<rparr>"

lemma content_put [simp]: "content (put_content c m) = c"
  by (simp add: content_def put_content_def)

lemma put_content_same [simp]: "put_content (content m) m = m"
  by (simp add: content_def put_content_def)

lemma put_put [simp]: "put_content c (put_content c' m) = put_content c m"
  by (simp add: put_content_def)

lemma put_fields [simp]:
  "m_loaded (put_content c m) = m_loaded m" "m_format (put_content c m) = m_format m"
  "m_onDisk (put_content c m) = m_onDisk m" "m_rebuildCount (put_content c m) = c_rebuild c"
  "m_createFileID (put_content c m) = c_createFile c" "m_createTime (put_content c m) = c_createTime c"
  "m_indexID (put_content c m) = m_indexID m" "m_lineage (put_content c m) = m_lineage m"
  "m_foldedLineage (put_content c m) = m_foldedLineage m" "m_foldedOffset (put_content c m) = m_foldedOffset m"
  "m_baseInfo (put_content c m) = m_baseInfo m" "m_logSize (put_content c m) = m_logSize m"
  "m_logLineage (put_content c m) = m_logLineage m"
  "m_st (put_content c m) = c_st c" "m_nextMapUID (put_content c m) = c_next c" "m_highestFileID (put_content c m) = c_high c"
  by (simp_all add: put_content_def)

lemma replay_new_content: "replay_new e m = put_content (new_step e (content m)) m"
  by (simp add: replay_new_def new_step_def replay_entry_def content_def put_content_def)

lemma fold_replay_new: "fold replay_new es m = put_content (fold new_step es (content m)) m"
  by (induction es arbitrary: m) (simp_all add: replay_new_content)

lemma tx_apply_content: "tx_apply t m = put_content (tx_step t (content m)) m"
  by (cases t) (simp_all add: fold_replay_new, simp add: content_def put_content_def)

lemma fold_tx_apply: "fold tx_apply ts m = put_content (fold tx_step ts (content m)) m"
  by (induction ts arbitrary: m) (simp_all add: tx_apply_content)

section \<open>A well-formed volume\<close>

text \<open>The bytes on the disk and what they stand for: the base with its header and records, and the log with its
  sequence number, its creation stamp, the transactions the base has folded in and those it has not.\<close>

record MapLog =
  l_seq :: uint32
  l_stamp :: uint32
  l_old :: "tx list"
  l_new :: "tx list"

record Vol =
  v_ino :: nat
  v_mtime :: instant
  v_hdr :: baseHeader
  v_recs :: string
  v_log :: "MapLog option"

definition map_log :: "uint32 \<Rightarrow> uint32 \<Rightarrow> uint32 \<Rightarrow> tx list \<Rightarrow> string" where
  "map_log indexID seq stamp ts = LogHeader_EncodeBytes (NewLogHeader indexID seq stamp) @ log_bytes ts"

definition vol_file :: "Vol \<Rightarrow> base_file" where
  "vol_file v = \<lparr> bf_ino = v_ino v, bf_mtime = v_mtime v, bf_bytes = encodeBaseHeader (v_hdr v) @ v_recs v \<rparr>"

definition vol_log_bytes :: "Vol \<Rightarrow> MapLog \<Rightarrow> string" where
  "vol_log_bytes v l = map_log (bh_IndexID (v_hdr v)) (l_seq l) (l_stamp l) (l_old l @ l_new l)"

definition stores :: "Vol \<Rightarrow> Disk \<Rightarrow> bool" where
  "stores v d \<longleftrightarrow> d_base d = Some (vol_file v) \<and> d_log d = map_option (vol_log_bytes v) (v_log v)"

definition log_size :: "Vol \<Rightarrow> int" where
  "log_size v = (case v_log v of None \<Rightarrow> 0 | Some l \<Rightarrow> int (length (vol_log_bytes v l)))"

definition base_content :: "Vol \<Rightarrow> Content" where
  "base_content v = \<lparr> c_st = \<lparr> st_recs = v_recs v \<rparr>, c_next = bh_NextMapUID (v_hdr v), c_high = bh_HighestFileID (v_hdr v),
     c_rebuild = bh_RebuildCount (v_hdr v), c_createFile = bh_CreateFileID (v_hdr v), c_createTime = bh_CreateTime (v_hdr v) \<rparr>"

definition vol_content :: "Vol \<Rightarrow> Content" where
  "vol_content v = fold tx_step (case v_log v of None \<Rightarrow> [] | Some l \<Rightarrow> l_new l) (base_content v)"

text \<open>The invariant of the records: every \<^verbatim>\<open>map_uid\<close> handed out is below the next one.\<close>

definition content_ok :: "Content \<Rightarrow> bool" where
  "content_ok c \<longleftrightarrow> c_next c \<noteq> 0 \<and> store_inv (c_st c) \<and> (\<forall>e \<in> set (each (c_st c)). me_UID e < c_next c)"

definition log_ok :: "Vol \<Rightarrow> MapLog \<Rightarrow> bool" where
  "log_ok v l \<longleftrightarrow>
     l_seq l \<noteq> 0 \<and> list_all tx_wf (l_old l @ l_new l) \<and>
     (l_seq l = bh_Lineage (v_hdr v) \<and> l_old l = [] \<or>
      l_seq l < bh_Lineage (v_hdr v) \<and> l_seq l = bh_FoldedLineage (v_hdr v) \<and>
      sint (bh_FoldedOffset (v_hdr v)) = int (length (map_log (bh_IndexID (v_hdr v)) (l_seq l) (l_stamp l) (l_old l))))"

definition vol_ok :: "Vol \<Rightarrow> bool" where
  "vol_ok v \<longleftrightarrow>
     bh_Version (v_hdr v) = baseVersion2 \<and> bh_RecordSize (v_hdr v) = of_nat baseRecordLen \<and>
     length (v_recs v) = unat (bh_RecordCount (v_hdr v)) * baseRecordLen \<and>
     bh_NextMapUID (v_hdr v) \<noteq> 0 \<and> bh_Lineage (v_hdr v) \<noteq> 0 \<and>
     bh_RecordsDigest (v_hdr v) = digestRecords (v_recs v) \<and>
     content_ok (base_content v) \<and> content_ok (vol_content v) \<and> (\<forall>l. v_log v = Some l \<longrightarrow> log_ok v l)"

text \<open>A world in which no call fails and sorting sorts.\<close>

definition quiet :: "Env \<Rightarrow> bool" where
  "quiet env \<longleftrightarrow> (\<forall>c. \<not> e_fails env c) \<and> ext_sorts (e_ext_sort env) \<and> e_lock env \<noteq> Refused"

section \<open>Reading a volume\<close>

lemma decode_map_log_tail: "DecodeLogHeader (map_log i s t ts @ z) = Inr (NewLogHeader i s t, log_bytes ts @ z)"
  unfolding map_log_def append_assoc
  by (rule log_header_roundtrip) (simp_all add: NewLogHeader_def LogHeaderSize_def)

lemmas decode_map_log = decode_map_log_tail [where z = "[]", unfolded append_Nil2]

lemma NewLogHeader_fields [simp]: "lh_IndexID (NewLogHeader i s t) = i" "lh_FileSeq (NewLogHeader i s t) = s"
  by (simp_all add: NewLogHeader_def)

lemma length_map_log [simp]: "length (map_log i s t ts) = LogHeaderSize + length (log_bytes ts)"
  by (simp add: map_log_def)

lemma drop_map_log: "drop (length (map_log i s t ts)) (map_log i s t (ts @ us) @ z) = log_bytes us @ z"
  by (simp add: map_log_def)

lemma decode_vol:
  assumes "vol_ok v"
  shows "decodeBaseHeader (encodeBaseHeader (v_hdr v) @ t) = Inr (v_hdr v)"
  using base_header_roundtrip [of "v_hdr v" t] assms by (simp add: vol_ok_def)

text \<open>The handle a read of the base gives.\<close>

definition based :: "Vol \<Rightarrow> Map \<Rightarrow> bool" where
  "based v m \<longleftrightarrow>
     m_loaded m \<and> m_onDisk m = FormatV2 \<and> m_indexID m = bh_IndexID (v_hdr v) \<and> m_lineage m = bh_Lineage (v_hdr v) \<and>
     m_foldedLineage m = bh_FoldedLineage (v_hdr v) \<and> m_foldedOffset m = sint (bh_FoldedOffset (v_hdr v)) \<and>
     m_baseInfo m = Some (base_info (vol_file v))"

text \<open>What no operation changes of a handle.\<close>

definition config :: "Map \<Rightarrow> string \<times> uint32 \<times> bool \<times> int \<times> int \<times> instant" where
  "config m = (m_format m, m_rotateSize m, m_logRotateSet m, m_logRotateMinSize m, m_logRotateMaxSize m,
               m_logRotateMinAge m)"

lemma read_vol:
  assumes v: "vol_ok v" "stores v d" and q: "quiet env"
  shows "\<exists>m'. readBaseLocked env m d = (None, m') \<and> based v m' \<and> content m' = base_content v \<and> config m' = config m \<and>
           m_logSize m' = m_logSize m"
proof -
  let ?n = "unat (bh_RecordCount (v_hdr v)) * baseRecordLen" and ?b = "encodeBaseHeader (v_hdr v) @ v_recs v"
  have b: "d_base d = Some (vol_file v)" "bf_bytes (vol_file v) = ?b" using v(2) by (simp_all add: stores_def vol_file_def)
  have l: "length (v_recs v) = ?n" "bh_NextMapUID (v_hdr v) \<noteq> 0" using v(1) by (simp_all add: vol_ok_def)
  have "sub_bytes baseHeaderLen ?n ?b = v_recs v" using l by (simp add: sub_bytes_def)
  then show ?thesis
    using q b(1) l
    by (simp add: readBaseLocked_def b decode_vol [OF v(1)] Let_def quiet_def stat_base_def applyHeaderLocked_def
        based_def content_def base_content_def config_def)
qed

lemma peek_vol:
  assumes v: "vol_ok v" "stores v d" and q: "quiet env"
  shows "peekHeaderLocked env d = Inr (v_hdr v)"
  using assms decode_vol [OF v(1), of "[]"]
  by (simp add: peekHeaderLocked_def stores_def vol_file_def quiet_def)

section \<open>Catching up with the log\<close>

text \<open>Bytes at which a replay stops.\<close>

definition ends_replay :: "string \<Rightarrow> bool" where
  "ends_replay z \<longleftrightarrow> (\<forall>pos m. replay_loop log_layout z pos m = (pos, m))"

lemma ends_replay_Nil: "ends_replay []"
  by (simp add: ends_replay_def replay_end)

lemma replay_inner:
  assumes q: "quiet env" and log: "d_log d = Some (map_log i s t (pre @ post) @ z)" and z: "ends_replay z"
    and i: "m_indexID m = i" and wf: "list_all tx_wf post"
    and fr: "from = int (length (map_log i s t pre)) \<or> pre = [] \<and> from \<le> int LogHeaderSize"
  shows "replayLogInnerLocked env from m d =
           ((None, int (length (map_log i s t (pre @ post)))), put_content (fold tx_step post (content m)) m)"
proof -
  let ?b = "map_log i s t (pre @ post)" and ?H = "int LogHeaderSize"
  have rp: "replay_loop log_layout (log_bytes post @ z) pos m =
      (pos + int (length (log_bytes post)), put_content (fold tx_step post (content m)) m)" for pos
    using replay_log_bytes [OF wf, of z pos m] z by (simp add: ends_replay_def fold_tx_apply)
  have st: "(if from > ?H then (drop (nat from) (?b @ z), from) else (log_bytes (pre @ post) @ z, ?H)) =
      (log_bytes post @ z, int (length (map_log i s t pre)))"
  proof (cases "from > ?H")
    case True
    with fr have f: "nat from = length (map_log i s t pre)" "from = int (length (map_log i s t pre))" by auto
    then show ?thesis using True drop_map_log [of i s t pre post z] by (simp del: drop_append)
  next
    case False
    with fr have "log_bytes pre = []" by auto
    then show ?thesis using False by simp
  qed
  have nf: "\<not> e_fails env c" and srt: "ext_sorts (e_ext_sort env)" for c using q by (auto simp: quiet_def)
  show ?thesis
    unfolding replayLogInnerLocked_def log option.case decode_map_log_tail sum.case prod.case NewLogHeader_fields i st Let_def
      logLayout_eq [OF srt]
    using nf rp by simp
qed

lemma identity_vol:
  assumes "stores v d" and "quiet env"
  shows "logIdentityLocked env d = Inr (case v_log v of None \<Rightarrow> 0 | Some l \<Rightarrow> l_seq l, log_size v)"
  using assms
  by (auto simp: logIdentityLocked_def stores_def quiet_def vol_log_bytes_def decode_map_log log_size_def split: option.splits)

text \<open>A handle whose state is that of the volume, its log included.\<close>

definition synced :: "Vol \<Rightarrow> Map \<Rightarrow> bool" where
  "synced v m \<longleftrightarrow> based v m \<and> content m = vol_content v \<and> m_logSize m = log_size v"

lemma apply_tail:
  assumes v: "vol_ok v" and log: "d_log d = map_option (\<lambda>l. vol_log_bytes v l @ z) (v_log v)" and z: "ends_replay z"
    and q: "quiet env" and m: "based v m" "content m = base_content v"
  shows "\<exists>m'. applyLogTailLocked env m d = (None, m', d) \<and> synced v m' \<and> config m' = config m"
proof (cases "v_log v")
  case None
  then have "replayFromPersistedLocked env m d = ((None, 0), m)"
    using log by (simp add: replayFromPersistedLocked_def logIdentityLocked_def)
  then show ?thesis
    using None m
    by (simp add: applyLogTailLocked_def synced_def based_def content_def vol_content_def log_size_def config_def)
next
  case (Some l)
  let ?m = "m \<lparr> m_logLineage := l_seq l \<rparr>" and ?h = "v_hdr v"
  let ?from = "if l_seq l = bh_Lineage ?h then int LogHeaderSize else max (sint (bh_FoldedOffset ?h)) (int LogHeaderSize)"
  have l: "log_ok v l" using v Some by (simp add: vol_ok_def)
  have log: "d_log d = Some (map_log (bh_IndexID ?h) (l_seq l) (l_stamp l) (l_old l @ l_new l) @ z)"
    using log Some by (simp add: vol_log_bytes_def)
  have v2: "FormatV2 \<noteq> FormatV1" by (simp add: FormatV1_def FormatV2_def)
  have "\<exists>k. logIdentityLocked env d = Inr (l_seq l, k)"
    using q by (simp add: logIdentityLocked_def log decode_map_log_tail quiet_def)
  then have "replayFromPersistedLocked env m d = replayLogInnerLocked env ?from ?m d"
    using l m(1) v2 by (auto simp: replayFromPersistedLocked_def based_def log_ok_def)
  moreover have "replayLogInnerLocked env ?from ?m d =
      ((None, int (length (vol_log_bytes v l))), put_content (fold tx_step (l_new l) (content ?m)) ?m)"
    unfolding vol_log_bytes_def
    by (rule replay_inner [OF q log z]) (use l m(1) in \<open>auto simp: log_ok_def based_def\<close>)
  moreover have "content ?m = content m" by (simp add: content_def)
  ultimately show ?thesis
    using Some m
    by (simp add: applyLogTailLocked_def synced_def based_def vol_content_def log_size_def config_def put_content_def content_def)
qed

lemma apply_tail_vol:
  assumes v: "vol_ok v" "stores v d" and q: "quiet env" and m: "based v m" "content m = base_content v"
  shows "\<exists>m'. applyLogTailLocked env m d = (None, m', d) \<and> synced v m' \<and> config m' = config m"
  by (rule apply_tail [OF v(1) _ ends_replay_Nil q m]) (use v(2) in \<open>simp add: stores_def\<close>)

text \<open>A handle that has seen an earlier state of the volume: of this base, with a part of the log, or of another
  base, with no accident in the digests of the two record areas.\<close>

definition behind :: "Vol \<Rightarrow> Map \<Rightarrow> bool" where
  "behind v m \<longleftrightarrow>
     based v m \<and>
     (case v_log v of
        None \<Rightarrow> content m = base_content v \<and> m_logSize m = 0
      | Some l \<Rightarrow>
          \<exists>pre post. l_new l = pre @ post \<and> content m = fold tx_step pre (base_content v) \<and>
            (m_logSize m = int (length (map_log (bh_IndexID (v_hdr v)) (l_seq l) (l_stamp l) (l_old l @ pre))) \<or>
             m_logSize m = 0 \<and> l_old l = [] \<and> pre = []))"

definition stale :: "Vol \<Rightarrow> Map \<Rightarrow> bool" where
  "stale v m \<longleftrightarrow>
     m_format m = FormatV2 \<and> m_loaded m \<and> m_onDisk m = FormatV2 \<and>
     (behind v m \<or>
      m_baseInfo m \<noteq> Some (base_info (vol_file v)) \<and>
      (digestRecords (v_recs v) = digestRecords (st_recs (m_st m)) \<longrightarrow> v_recs v = st_recs (m_st m)))"

lemma synced_behind: "synced v m \<Longrightarrow> behind v m"
  by (cases "v_log v") (auto simp: synced_def behind_def vol_content_def log_size_def vol_log_bytes_def)

lemma adopt_vol:
  assumes "vol_ok v" and "adoptFoldLocked (v_hdr v) (Some (base_info (vol_file v))) m = (True, m')"
    and "m_loaded m" and "m_onDisk m = FormatV2"
    and "digestRecords (v_recs v) = digestRecords (st_recs (m_st m)) \<longrightarrow> v_recs v = st_recs (m_st m)"
  shows "based v m' \<and> content m' = base_content v \<and> config m' = config m"
  using assms
  by (auto simp: adoptFoldLocked_def vol_ok_def based_def content_def base_content_def config_def applyHeaderLocked_def
      split: if_splits)

lemma reopen_vol:
  assumes v: "vol_ok v" "stores v d" and q: "quiet env"
  shows "\<exists>m'. (case readBaseLocked env m d of (Some x, m1) \<Rightarrow> (Some x, m1, d) | (None, m1) \<Rightarrow> applyLogTailLocked env m1 d) =
           (None, m', d) \<and> synced v m' \<and> config m' = config m"
proof -
  from read_vol [OF v q, of m] obtain m1 where m1: "readBaseLocked env m d = (None, m1)" "based v m1"
    "content m1 = base_content v" "config m1 = config m" by blast
  from apply_tail_vol [OF v q m1(2,3)] m1(1,4) show ?thesis by auto
qed

lemma sameBase_iff: "sameBaseLocked m (Some fi) \<longleftrightarrow> m_baseInfo m = Some fi"
  by (cases "m_baseInfo m") (auto simp: sameBaseLocked_def)

lemma tx_bytes_long: "tx_wf t \<Longrightarrow> 8 \<le> length (tx_bytes t)"
  using tx_bytes_frame [of t] by auto

lemma log_bytes_Nil: "list_all tx_wf ts \<Longrightarrow> log_bytes ts = [] \<longleftrightarrow> ts = []"
proof (cases ts)
  case (Cons t us)
  assume "list_all tx_wf ts"
  with Cons tx_bytes_long [of t] show ?thesis by auto
qed simp

text \<open>A handle that is behind on the same base catches up by replaying the rest of the log.\<close>

lemma behind_catches_up:
  assumes v: "vol_ok v" "stores v d" and q: "quiet env" and m: "behind v m"
  shows "m_logSize m \<le> log_size v" and "m_logSize m = log_size v \<Longrightarrow> synced v m"
    and "m_logSize m < log_size v \<Longrightarrow>
      \<exists>m'. replayLogInnerLocked env (m_logSize m) m d = ((None, log_size v), m') \<and>
        synced v (m' \<lparr> m_logSize := log_size v \<rparr>) \<and> config m' = config m"
proof -
  have b: "based v m" using m by (simp add: behind_def)
  have "m_logSize m \<le> log_size v \<and> (m_logSize m = log_size v \<longrightarrow> synced v m) \<and>
    (m_logSize m < log_size v \<longrightarrow> (\<exists>m'. replayLogInnerLocked env (m_logSize m) m d = ((None, log_size v), m') \<and>
        synced v (m' \<lparr> m_logSize := log_size v \<rparr>) \<and> config m' = config m))"
  proof (cases "v_log v")
    case None
    then show ?thesis using m by (simp add: behind_def synced_def log_size_def vol_content_def)
  next
    case (Some l)
    let ?h = "v_hdr v" and ?L = "\<lambda>ts. map_log (bh_IndexID (v_hdr v)) (l_seq l) (l_stamp l) ts"
    from m Some obtain pre post where p: "l_new l = pre @ post" "content m = fold tx_step pre (base_content v)"
      "m_logSize m = int (length (?L (l_old l @ pre))) \<or> m_logSize m = 0 \<and> l_old l = [] \<and> pre = []"
      by (auto simp: behind_def)
    have l: "log_ok v l" using v(1) Some by (simp add: vol_ok_def)
    then have wf: "list_all tx_wf post" using p(1) by (simp add: log_ok_def)
    have sz: "log_size v = int (length (?L ((l_old l @ pre) @ post)))"
      using Some p(1) by (simp add: log_size_def vol_log_bytes_def)
    have log: "d_log d = Some (?L ((l_old l @ pre) @ post) @ [])"
      using v(2) Some p(1) by (simp add: stores_def vol_log_bytes_def)
    have i: "m_indexID m = bh_IndexID ?h" using b by (simp add: based_def)
    have c: "vol_content v = fold tx_step post (content m)" using Some p(1,2) by (simp add: vol_content_def)
    have "replayLogInnerLocked env (m_logSize m) m d = ((None, log_size v), put_content (fold tx_step post (content m)) m)"
      unfolding sz by (rule replay_inner [OF q log ends_replay_Nil i wf]) (use p(3) in auto)
    moreover have "synced v ((put_content (vol_content v) m) \<lparr> m_logSize := log_size v \<rparr>)"
      using b by (simp add: synced_def based_def content_def put_content_def)
    moreover have "config (put_content (vol_content v) m) = config m" by (simp add: config_def put_content_def)
    moreover have "synced v m" if "m_logSize m = log_size v"
    proof -
      have "log_bytes post = []" using that p(3) sz by (auto simp: LogHeaderSize_def)
      with log_bytes_Nil [OF wf] have "post = []" by blast
      with that b c show ?thesis by (simp add: synced_def)
    qed
    ultimately show ?thesis using p(3) sz c by auto
  qed
  then show "m_logSize m \<le> log_size v" "m_logSize m = log_size v \<Longrightarrow> synced v m"
    "m_logSize m < log_size v \<Longrightarrow>
      \<exists>m'. replayLogInnerLocked env (m_logSize m) m d = ((None, log_size v), m') \<and>
        synced v (m' \<lparr> m_logSize := log_size v \<rparr>) \<and> config m' = config m" by auto
qed

lemma stat_vol:
  assumes "stores v d" and "quiet env"
  shows "stat_base env c d = Some (base_info (vol_file v))"
    and "(case stat_log env c d of None \<Rightarrow> 0 | Some n \<Rightarrow> n) = log_size v"
  using assms by (auto simp: stat_base_def stat_log_def stores_def quiet_def log_size_def split: option.splits)

lemma config_logSize [simp]: "config (m \<lparr> m_logSize := n \<rparr>) = config m"
  by (simp add: config_def)

lemma reload_vol:
  assumes v: "vol_ok v" "stores v d" and q: "quiet env" and m: "stale v m"
  shows "\<exists>m'. reloadLocked env m d = (None, m', d) \<and> synced v m' \<and> config m' = config m"
proof (cases "behind v m")
  case True
  then have bi: "sameBaseLocked m (Some (base_info (vol_file v)))" "m_loaded m"
    by (simp_all add: behind_def based_def sameBase_iff)
  note cu = behind_catches_up [OF v q True]
  have nl: "\<not> log_size v < m_logSize m" using cu(1) by simp
  show ?thesis
  proof (cases "m_logSize m = log_size v")
    case True
    with cu(2) bi show ?thesis by (simp add: reloadLocked_def Let_def stat_vol [OF v(2) q])
  next
    case False
    with cu(1) have lt: "m_logSize m < log_size v" by simp
    with cu(3) obtain m' where m': "replayLogInnerLocked env (m_logSize m) m d = ((None, log_size v), m')"
      "synced v (m' \<lparr> m_logSize := log_size v \<rparr>)" "config m' = config m" by blast
    then show ?thesis using bi lt by (simp add: reloadLocked_def Let_def stat_vol [OF v(2) q])
  qed
next
  case False
  with m have d: "m_baseInfo m \<noteq> Some (base_info (vol_file v))"
    "digestRecords (v_recs v) = digestRecords (st_recs (m_st m)) \<longrightarrow> v_recs v = st_recs (m_st m)"
    and f: "m_format m = FormatV2" "m_loaded m" "m_onDisk m = FormatV2" by (auto simp: stale_def)
  obtain a m1 where ad: "adoptFoldLocked (v_hdr v) (Some (base_info (vol_file v))) m = (a, m1)" by fastforce
  have "reloadLocked env m d = (if a then applyLogTailLocked env m1 d else
      (case readBaseLocked env m d of (Some x, m1) \<Rightarrow> (Some x, m1, d) | (None, m1) \<Rightarrow> applyLogTailLocked env m1 d))"
    using f d(1) by (simp add: reloadLocked_def Let_def stat_vol [OF v(2) q] sameBase_iff peek_vol [OF v q] ad)
  moreover have "\<exists>m'. applyLogTailLocked env m1 d = (None, m', d) \<and> synced v m' \<and> config m' = config m" if a
    using adopt_vol [OF v(1), of m m1] ad that f d(2) apply_tail_vol [OF v q, of m1] by auto
  ultimately show ?thesis using reopen_vol [OF v q, of m] by auto
qed


section \<open>Folding\<close>

text \<open>The volume a fold of the handle's records leaves, with the old log still there or not.\<close>

definition fold_map :: "Vol \<Rightarrow> Map \<Rightarrow> Map" where
  "fold_map v m =
     m \<lparr> m_foldedLineage := (case v_log v of None \<Rightarrow> 0 | Some l \<Rightarrow> l_seq l), m_foldedOffset := log_size v,
         m_lineage := m_lineage m + 1 \<rparr>"

definition fold_vol :: "Env \<Rightarrow> Vol \<Rightarrow> Map \<Rightarrow> bool \<Rightarrow> Vol" where
  "fold_vol env v m kept =
    \<lparr> v_ino = e_ino env, v_mtime = e_now env, v_hdr = headerLocked (fold_map v m), v_recs = st_recs (m_st m),
      v_log = (if kept then map_option (\<lambda>l. l \<lparr> l_old := l_old l @ l_new l, l_new := [] \<rparr>) (v_log v) else None) \<rparr>"

text \<open>What a fold asks of the handle: the identity of the base it replaces, well-formed records, and room for the
  counters.\<close>

definition foldable :: "Vol \<Rightarrow> Map \<Rightarrow> bool" where
  "foldable v m \<longleftrightarrow>
     m_format m = FormatV2 \<and> m_loaded m \<and> m_indexID m = bh_IndexID (v_hdr v) \<and> m_lineage m = bh_Lineage (v_hdr v) \<and>
     content_ok (content m) \<and> m_nextMapUID m \<noteq> 0 \<and> m_lineage m + 1 \<noteq> 0 \<and>
     store_count (m_st m) < 2 ^ 32 \<and> log_size v < 2 ^ 63"

lemma succ_greater: "(x :: uint32) + 1 \<noteq> 0 \<Longrightarrow> x < x + 1"
  using unatSuc [of x] by (simp add: word_less_nat_alt add.commute)

lemma sint_small: "0 \<le> k \<Longrightarrow> k < 2 ^ 63 \<Longrightarrow> sint (word_of_int k :: uint64) = k"
  by (simp add: sint_sbintrunc' signed_take_bit_int_eq_self)

lemma content_recs: "content_ok c \<Longrightarrow> length (st_recs (c_st c)) = store_count (c_st c) * baseRecordLen"
  by (simp add: content_ok_def store_inv_def store_count_def)

lemma fold_vol_content:
  "vol_content (fold_vol env v m kept) = content m" "base_content (fold_vol env v m kept) = content m"
  by (auto simp: vol_content_def base_content_def fold_vol_def headerLocked_def fold_map_def content_def split: option.splits)

lemma log_size_nonneg: "0 \<le> log_size v"
  by (simp add: log_size_def split: option.splits)

lemma fold_vol_ok:
  assumes v: "vol_ok v" and m: "foldable v m"
  shows "vol_ok (fold_vol env v m kept)"
proof -
  let ?v = "fold_vol env v m kept" and ?L = "bh_Lineage (v_hdr v)"
  have cnt: "unat (of_nat (store_count (m_st m)) :: uint32) = store_count (m_st m)"
    using m by (intro unat_small) (simp add: foldable_def)
  have "length (st_recs (m_st m)) = store_count (m_st m) * baseRecordLen"
    using content_recs [of "content m"] m by (simp add: foldable_def content_def)
  then have len: "length (v_recs ?v) = unat (bh_RecordCount (v_hdr ?v)) * baseRecordLen"
    using cnt by (simp add: fold_vol_def headerLocked_def fold_map_def)
  have lt: "?L < ?L + 1" using m by (intro succ_greater) (auto simp: foldable_def)
  have sz: "sint (word_of_int (log_size v) :: uint64) = log_size v"
    using m log_size_nonneg [of v] by (intro sint_small) (simp_all add: foldable_def)
  have "log_ok ?v l'" if l': "v_log ?v = Some l'" for l'
  proof -
    from l' obtain l where l: "v_log v = Some l" "l' = l \<lparr> l_old := l_old l @ l_new l, l_new := [] \<rparr>"
      by (auto simp: fold_vol_def split: if_splits)
    have ok: "log_ok v l" using v l(1) by (simp add: vol_ok_def)
    then have "l_seq l \<le> ?L" by (auto simp: log_ok_def)
    then have "l_seq l < ?L + 1" using lt by (rule order_le_less_trans)
    with ok l m sz show ?thesis
      by (simp add: log_ok_def fold_vol_def headerLocked_def fold_map_def foldable_def log_size_def vol_log_bytes_def)
  qed
  moreover have "bh_Version (v_hdr ?v) = baseVersion2" "bh_RecordSize (v_hdr ?v) = of_nat baseRecordLen"
    "bh_NextMapUID (v_hdr ?v) \<noteq> 0" "bh_Lineage (v_hdr ?v) \<noteq> 0"
    "bh_RecordsDigest (v_hdr ?v) = digestRecords (v_recs ?v)" "content_ok (content m)"
    using m by (auto simp: foldable_def fold_vol_def headerLocked_def fold_map_def)
  ultimately show ?thesis using len unfolding vol_ok_def fold_vol_content by blast
qed

lemma write_fold:
  assumes "stores v d" and "foldable v m"
  shows "stores (fold_vol env v m True) (write_base env (encodeBaseHeader (headerLocked (fold_map v m)) @ st_recs (m_st m)) d)"
    and "stores (fold_vol env v m False)
      ((write_base env (encodeBaseHeader (headerLocked (fold_map v m)) @ st_recs (m_st m)) d) \<lparr> d_log := None \<rparr>)"
  using assms
  by (auto simp: stores_def fold_vol_def write_base_def vol_file_def vol_log_bytes_def headerLocked_def fold_map_def foldable_def
      split: option.splits)

text \<open>A fold under any failures: it left the disk alone, or wrote the new base and kept or removed the log; and it
  reports success only in the last case.\<close>

lemma flush_outcomes:
  assumes d: "stores v d" and m: "foldable v m" and fl: "flushLocked env m d = (r, m', d')"
  shows "d' = d \<and> r \<noteq> None \<or> stores (fold_vol env v m True) d' \<and> r \<noteq> None \<or> stores (fold_vol env v m False) d' \<and> r = None"
proof (cases "logIdentityLocked env d")
  case (Inl x)
  with fl show ?thesis by (auto simp: flushLocked_def)
next
  case (Inr p)
  then have "logIdentityLocked env d = Inr (case v_log v of None \<Rightarrow> 0 | Some l \<Rightarrow> l_seq l, log_size v)"
    using d
    by (auto simp: logIdentityLocked_def stores_def vol_log_bytes_def decode_map_log log_size_def split: option.splits if_splits)
  moreover have "m_format m \<noteq> FormatV1" using m by (simp add: foldable_def FormatV1_def FormatV2_def)
  ultimately have "\<exists>x m1. flushLocked env m d =
      (if e_fails env WriteBaseTmp \<or> e_fails env RenameBase then (Some x, m1, d)
       else if e_fails env RemoveFoldedLog \<and> d_log d \<noteq> None
       then (Some x, m1, write_base env (encodeBaseHeader (headerLocked (fold_map v m)) @ st_recs (m_st m)) d)
       else (None, m1, (write_base env (encodeBaseHeader (headerLocked (fold_map v m)) @ st_recs (m_st m)) d) \<lparr> d_log := None \<rparr>))"
    by (auto simp: flushLocked_def writeBaseLocked_def Let_def fold_map_def write_base_def)
  with fl write_fold [OF d m, of env] show ?thesis by (auto split: if_splits)
qed

lemma flush_quiet:
  assumes v: "vol_ok v" "stores v d" and q: "quiet env" and m: "foldable v m"
  shows "\<exists>m' d'. flushLocked env m d = (None, m', d') \<and> stores (fold_vol env v m False) d' \<and>
           synced (fold_vol env v m False) m' \<and> config m' = config m \<and> content m' = content m"
proof -
  let ?d = "(write_base env (encodeBaseHeader (headerLocked (fold_map v m)) @ st_recs (m_st m)) d) \<lparr> d_log := None \<rparr>"
  let ?v = "fold_vol env v m False"
  have s: "stores ?v ?d" by (rule write_fold(2) [OF v(2) m])
  have f: "m_format m \<noteq> FormatV1" using m by (simp add: foldable_def FormatV1_def FormatV2_def)
  have sz: "sint (word_of_int (log_size v) :: uint64) = log_size v"
    using m log_size_nonneg [of v] by (intro sint_small) (simp_all add: foldable_def)
  have st: "stat_base env StatBaseFlush ?d = Some (base_info (vol_file ?v))" by (rule stat_vol(1) [OF s q])
  let ?m' = "(fold_map v m) \<lparr> m_onDisk := FormatV2, m_logLineage := m_lineage m + 1, m_logSize := 0,
    m_baseInfo := Some (base_info (vol_file ?v)) \<rparr>"
  have "flushLocked env m d = (None, ?m', ?d)"
    using q f st identity_vol [OF v(2) q]
    by (simp add: flushLocked_def writeBaseLocked_def quiet_def Let_def fold_map_def [symmetric]) (simp add: fold_map_def)
  moreover have "content ?m' = content m" "config ?m' = config m" by (simp_all add: content_def fold_map_def config_def)
  moreover have "synced ?v ?m'"
    using m sz unfolding synced_def based_def fold_vol_content
    by (simp add: content_def fold_map_def foldable_def fold_vol_def headerLocked_def log_size_def)
  ultimately show ?thesis using s by blast
qed


section \<open>Appending to the log\<close>

definition append_vol :: "Env \<Rightarrow> tx \<Rightarrow> Vol \<Rightarrow> Vol" where
  "append_vol env t v =
     v \<lparr> v_log := Some (case v_log v of
           None \<Rightarrow> \<lparr> l_seq = bh_Lineage (v_hdr v), l_stamp = word_of_int (e_now env div 10 ^ 9), l_old = [], l_new = [t] \<rparr>
         | Some l \<Rightarrow> l \<lparr> l_new := l_new l @ [t] \<rparr>) \<rparr>"

lemma append_vol_fields [simp]:
  "vol_content (append_vol env t v) = tx_step t (vol_content v)" "base_content (append_vol env t v) = base_content v"
  "v_hdr (append_vol env t v) = v_hdr v" "vol_file (append_vol env t v) = vol_file v"
  "based (append_vol env t v) m = based v m" "v_recs (append_vol env t v) = v_recs v"
  by (auto simp: vol_content_def base_content_def append_vol_def vol_file_def based_def split: option.splits)

lemma append_vol_ok:
  assumes "vol_ok v" and "tx_wf t" and "content_ok (tx_step t (vol_content v))"
  shows "vol_ok (append_vol env t v)"
proof -
  have "log_ok (append_vol env t v) l" if "v_log (append_vol env t v) = Some l" for l
  proof (cases "v_log v")
    case None
    with that assms(1,2) show ?thesis by (auto simp: append_vol_def log_ok_def vol_ok_def)
  next
    case (Some l0)
    with assms(1) have "log_ok v l0" by (simp add: vol_ok_def)
    with Some that assms(2) show ?thesis by (auto simp: append_vol_def log_ok_def)
  qed
  with assms(1,3) show ?thesis by (simp add: vol_ok_def)
qed

lemma log_header_encodes: "LogHeader_Encode (NewLogHeader i s t) = Inr (LogHeader_EncodeBytes (NewLogHeader i s t))"
  by (simp add: LogHeader_Encode_def NewLogHeader_def LogHeaderSize_def LogHeaderMinSize_def CompatLittleEndian_def)

text \<open>The log after the header it may need has been written.\<close>

definition opened_log :: "Env \<Rightarrow> Vol \<Rightarrow> string" where
  "opened_log env v =
    (case v_log v of
       None \<Rightarrow> map_log (bh_IndexID (v_hdr v)) (bh_Lineage (v_hdr v)) (word_of_int (e_now env div 10 ^ 9)) []
     | Some l \<Rightarrow> vol_log_bytes v l)"

definition log_owner :: "Vol \<Rightarrow> Map \<Rightarrow> bool" where
  "log_owner v m \<longleftrightarrow> m_format m = FormatV2 \<and> m_indexID m = bh_IndexID (v_hdr v) \<and> m_lineage m = bh_Lineage (v_hdr v)"

lemma vol_log_ne: "vol_log_bytes v l \<noteq> []"
  by (metis add_is_0 length_map_log list.size(3) vol_log_bytes_def LogHeaderSize_def zero_neq_numeral)

lemma open_log_quiet:
  assumes d: "stores v d" and q: "quiet env" and m: "log_owner v m"
  shows "\<exists>s k. openLogLocked env m d =
           (Inr (), m \<lparr> m_logLineage := s, m_logSize := k \<rparr>, d \<lparr> d_log := Some (opened_log env v) \<rparr>)"
proof (cases "v_log v")
  case None
  have "m_format m \<noteq> FormatV1" using m by (simp add: log_owner_def FormatV1_def FormatV2_def)
  with None d q m show ?thesis
    by (auto simp: openLogLocked_def stores_def quiet_def Let_def log_header_encodes opened_log_def map_log_def log_owner_def)
next
  case (Some l)
  with d q vol_log_ne [of v l] show ?thesis
    by (auto simp: openLogLocked_def stores_def quiet_def Let_def opened_log_def
        intro!: exI [of _ "m_logLineage m"] exI [of _ "m_logSize m"])
qed

lemma stores_append:
  assumes "stores v d"
  shows "stores (append_vol env t v) (d \<lparr> d_log := Some (opened_log env v @ tx_bytes t) \<rparr>)"
  using assms by (auto simp: stores_def append_vol_def opened_log_def vol_log_bytes_def map_log_def vol_file_def split: option.splits)

lemma write_tx_quiet:
  assumes d: "stores v d" and q: "quiet env" and m: "log_owner v m" and t: "tx_wf t"
  shows "\<exists>m' d'. writeLogTxLocked env (tx_code t) (tx_payload t) m d = (Inr (), m', d') \<and>
           stores (append_vol env t v) d' \<and> m_logSize m' = log_size (append_vol env t v) \<and>
           content m' = content m \<and> config m' = config m \<and> based v m' = based v m"
proof -
  from open_log_quiet [OF d q m] obtain s k where o: "openLogLocked env m d =
      (Inr (), m \<lparr> m_logLineage := s, m_logSize := k \<rparr>, d \<lparr> d_log := Some (opened_log env v) \<rparr>)" by blast
  let ?d = "d \<lparr> d_log := Some (opened_log env v @ tx_bytes t) \<rparr>"
  have st: "stores (append_vol env t v) ?d" by (rule stores_append [OF d])
  have e: "encMapLogRec (tx_code t) (tx_payload t) = Inr (tx_bytes t)" using tx_bytes_frame [OF t] by blast
  have "stat_log env StatLogTx ?d = Some (log_size (append_vol env t v))"
    using stat_vol(2) [OF st q, of StatLogTx] q by (simp add: stat_log_def quiet_def)
  then have "writeLogTxLocked env (tx_code t) (tx_payload t) m d =
      (Inr (), m \<lparr> m_logLineage := s, m_logSize := log_size (append_vol env t v) \<rparr>, ?d)"
    using q by (simp add: writeLogTxLocked_def o e quiet_def Let_def)
  then show ?thesis
    using st by (simp add: content_def config_def based_def)
qed

text \<open>A rotation test and the fold it may ask for: the end of both logging operations.\<close>

definition rotate :: "Env \<Rightarrow> Map \<Rightarrow> Disk \<Rightarrow> md_error option \<times> Map \<times> Disk" where
  "rotate env m d = (if shouldRotateLocked env m d then flushLocked env m d else (None, m, d))"

lemma rotate_quiet:
  assumes v: "vol_ok v" "stores v d" and q: "quiet env" and m: "synced v m" "foldable v m"
  shows "\<exists>v' m' d'. rotate env m d = (None, m', d') \<and> (v' = v \<or> v' = fold_vol env v m False) \<and> vol_ok v' \<and> stores v' d' \<and>
           synced v' m' \<and> vol_content v' = vol_content v \<and> config m' = config m"
proof (cases "shouldRotateLocked env m d")
  case True
  from flush_quiet [OF v q m(2)] obtain m' d' where f: "flushLocked env m d = (None, m', d')"
    "stores (fold_vol env v m False) d'" "synced (fold_vol env v m False) m'" "config m' = config m" by blast
  have "vol_content (fold_vol env v m False) = vol_content v" using m(1) by (simp add: fold_vol_content synced_def)
  with f True fold_vol_ok [OF v(1) m(2)] show ?thesis
    by (intro exI [of _ "fold_vol env v m False"]) (simp add: rotate_def)
next
  case False
  with v m show ?thesis by (intro exI [of _ v]) (simp add: rotate_def)
qed


section \<open>What the operations do to the records\<close>

lemma content_ok_dom:
  "content_ok c \<longleftrightarrow> c_next c \<noteq> 0 \<and> store_inv (c_st c) \<and> (\<forall>u \<in> dom (store_map (c_st c)). u < c_next c)"
  unfolding content_ok_def dom_def using store_map_Some [of "c_st c"] by auto

lemma store_count_each: "length (each s) = store_count s"
  by (simp add: each_def)

lemma count_bound:
  assumes "content_ok c"
  shows "store_count (c_st c) < 2 ^ 32"
proof -
  let ?us = "map me_UID (each (c_st c))"
  have "distinct ?us" using assms by (auto simp: content_ok_def store_inv_def strict_sorted_iff)
  then have "distinct (map unat ?us)" unfolding distinct_map [of unat] by (simp add: inj_on_def unsigned_word_eqI)
  then have "store_count (c_st c) = card (set (map unat ?us))" by (metis distinct_card length_map store_count_each)
  also have "\<dots> \<le> card {..<unat (c_next c)}"
    using assms by (intro card_mono) (auto simp: content_ok_def word_less_nat_alt)
  also have "\<dots> < 2 ^ 32" using unsigned_less [of "c_next c"] by simp
  finally show ?thesis .
qed

text \<open>Appending: fresh \<^verbatim>\<open>map_uid\<close>s in order, and exactly what a replay of the entries makes of the records.\<close>

definition layout_entry :: "uint32 \<Rightarrow> Layout \<Rightarrow> MapEntry" where
  "layout_entry uid l =
     \<lparr> me_UID = uid, me_FileID = rl_FileID l, me_Offset = rl_Offset l, me_Size = rl_Size l, me_RefCount = 1,
       me_GUID = rl_GUID l \<rparr>"

fun layout_entries :: "uint32 \<Rightarrow> Layout list \<Rightarrow> MapEntry list" where
  "layout_entries uid [] = []"
| "layout_entries uid (l # ls) = layout_entry uid l # layout_entries (uid + 1) ls"

lemma new_step_fresh:
  assumes "content_ok c" and "me_UID e = c_next c" and "entry_ok e" and "c_next c + 1 \<noteq> 0"
  shows "new_step e c = c \<lparr> c_st := store_insert (c_st c) e, c_next := c_next c + 1,
             c_high := (if me_FileID e > c_high c then me_FileID e else c_high c) \<rparr>"
    and "content_ok (new_step e c)"
    and "store_map (c_st (new_step e c)) = (store_map (c_st c))(c_next c \<mapsto> e)"
proof -
  have inv: "store_inv (c_st c)" using assms(1) by (simp add: content_ok_def)
  have "c_next c \<notin> dom (store_map (c_st c))" using assms(1) by (auto simp: content_ok_dom)
  then have "\<not> snd (store_find (c_st c) (me_UID e))"
    using find_each(1) [OF inv] assms(2) by (metis prod.collapse)
  then show eq: "new_step e c = c \<lparr> c_st := store_insert (c_st c) e, c_next := c_next c + 1,
      c_high := (if me_FileID e > c_high c then me_FileID e else c_high c) \<rparr>"
    using assms(2) by (simp add: new_step_def)
  show "store_map (c_st (new_step e c)) = (store_map (c_st c))(c_next c \<mapsto> e)"
    using mdbox.ins_entries [OF inv assms(3)] assms(2) by (simp add: eq)
  have lt: "c_next c < c_next c + 1" by (rule succ_greater [OF assms(4)])
  have "\<forall>u \<in> dom (store_map (store_insert (c_st c) e)). u < c_next c + 1"
  proof
    fix u assume "u \<in> dom (store_map (store_insert (c_st c) e))"
    then have "u = c_next c \<or> u \<in> dom (store_map (c_st c))"
      using mdbox.ins_entries [OF inv assms(3)] assms(2) by (auto split: if_splits)
    then show "u < c_next c + 1"
    proof
      assume "u \<in> dom (store_map (c_st c))"
      then have "u < c_next c" using assms(1) by (simp add: content_ok_dom)
      then show ?thesis using lt by (rule order_less_trans)
    qed (simp add: lt)
  qed
  then show "content_ok (new_step e c)"
    using assms(4) mdbox.ins_inv [OF inv assms(3)] by (simp add: content_ok_dom eq)
qed

lemma word_room: "unat (w :: uint32) + Suc n < 2 ^ 32 \<Longrightarrow> w + 1 \<noteq> 0 \<and> unat (w + 1) = Suc (unat w)"
proof -
  assume "unat w + Suc n < 2 ^ 32"
  then have "unat (w + 1) = Suc (unat w)" by (simp add: unat_word_ariths)
  then show ?thesis by auto
qed

lemma append_loop_content:
  assumes "content_ok (content m)" and "unat (m_nextMapUID m) + length ls < 2 ^ 32" and "list_all (\<lambda>l. length (rl_GUID l) = 16) ls"
  shows "append_loop ls m = (layout_entries (m_nextMapUID m) ls,
           put_content (fold new_step (layout_entries (m_nextMapUID m) ls) (content m)) m)"
    and "content_ok (fold new_step (layout_entries (m_nextMapUID m) ls) (content m))"
    and "list_all entry_ok (layout_entries (m_nextMapUID m) ls)"
proof -
  have "append_loop ls m = (layout_entries (m_nextMapUID m) ls,
           put_content (fold new_step (layout_entries (m_nextMapUID m) ls) (content m)) m) \<and>
      content_ok (fold new_step (layout_entries (m_nextMapUID m) ls) (content m)) \<and>
      list_all entry_ok (layout_entries (m_nextMapUID m) ls)"
    using assms
  proof (induction ls arbitrary: m)
    case (Cons l ls)
    let ?e = "layout_entry (m_nextMapUID m) l"
    have w: "m_nextMapUID m + 1 \<noteq> 0" "unat (m_nextMapUID m + 1) = Suc (unat (m_nextMapUID m))"
      using word_room [of "m_nextMapUID m" "length ls"] Cons.prems(2) by auto
    have ok: "entry_ok ?e" using Cons.prems(3) by (simp add: layout_entry_def)
    have n: "me_UID ?e = c_next (content m)" "c_next (content m) + 1 \<noteq> 0"
      using w by (simp_all add: layout_entry_def content_def)
    note st = new_step_fresh [OF Cons.prems(1) n(1) ok n(2)]
    let ?m1 = "put_content (new_step ?e (content m)) m"
    have nx: "m_nextMapUID ?m1 = m_nextMapUID m + 1" by (simp add: st(1)) (simp add: content_def)
    have m1: "m \<lparr> m_st := store_insert (m_st m) ?e, m_nextMapUID := m_nextMapUID m + 1,
        m_highestFileID := (if rl_FileID l > m_highestFileID m then rl_FileID l else m_highestFileID m) \<rparr> = ?m1"
      unfolding st(1) by (simp add: put_content_def content_def layout_entry_def)
    have ok1: "content_ok (content ?m1)" using st(2) by simp
    from Cons.IH [OF ok1] Cons.prems(2,3) w(2) nx ok show ?case
      by (simp add: Let_def layout_entry_def [symmetric] m1)
  qed simp
  then show "append_loop ls m = (layout_entries (m_nextMapUID m) ls,
           put_content (fold new_step (layout_entries (m_nextMapUID m) ls) (content m)) m)"
    "content_ok (fold new_step (layout_entries (m_nextMapUID m) ls) (content m))"
    "list_all entry_ok (layout_entries (m_nextMapUID m) ls)" by auto
qed

text \<open>Reference counts.\<close>

lemma add_ref_keeps: "entry_ok e \<Longrightarrow> entry_ok (add_ref x e) \<and> me_UID (add_ref x e) = me_UID e"
  by (simp add: add_ref_def)

lemma apply_delta_adjust: "apply_delta x st = mdbox.adjust (add_ref (ai_Diff x)) (ai_UID x) st"
  by (simp add: apply_delta_def mdbox.adjust_def)

lemma apply_delta_refines:
  assumes "store_inv st"
  shows "store_inv (apply_delta x st)"
    and "store_map (apply_delta x st) =
      (store_map st)(ai_UID x := map_option (add_ref (ai_Diff x)) (store_map st (ai_UID x)))"
  unfolding apply_delta_adjust using mdbox.adjust_refines [OF assms, of "add_ref (ai_Diff x)" "ai_UID x"] add_ref_keeps
  by blast+

lemma dom_adjust: "dom (m(u := map_option f (m u))) = dom m"
  by (auto simp: dom_def)

lemma dom_apply_delta: "store_inv st \<Longrightarrow> dom (store_map (apply_delta x st)) = dom (store_map st)"
  unfolding apply_delta_refines(2) by (rule dom_adjust)

lemma deltas_refine:
  assumes "store_inv st"
  shows "store_inv (fold apply_delta ds st) \<and> dom (store_map (fold apply_delta ds st)) = dom (store_map st)"
  using assms
proof (induction ds arbitrary: st)
  case (Cons x ds)
  from Cons.IH [OF apply_delta_refines(1) [OF Cons.prems, of x]] show ?case
    by (simp add: dom_apply_delta [OF Cons.prems])
qed simp

lemma deltas_content_ok: "content_ok c \<Longrightarrow> content_ok (tx_step (RefcountTx ds) c)"
  using deltas_refine [of "c_st c" ds] by (simp add: content_ok_dom)

abbreviation deltas :: "uint32 \<Rightarrow> uint32 list \<Rightarrow> TxExtAtomicInc list" where
  "deltas x uids \<equiv> map (\<lambda>u. \<lparr> ai_UID = u, ai_Diff = x \<rparr>) uids"

lemma refcount_loop_content:
  assumes "content_ok (content m)" and "m_loaded m" and "set uids \<subseteq> dom (store_map (m_st m))"
  shows "refcount_loop x uids m = (Inr (deltas x uids), put_content (tx_step (RefcountTx (deltas x uids)) (content m)) m)"
  using assms
proof (induction uids arbitrary: m)
  case (Cons u uids)
  let ?d = "\<lparr> ai_UID = u, ai_Diff = x \<rparr>"
  have inv: "store_inv (m_st m)" using Cons.prems(1) by (simp add: content_ok_def content_def)
  obtain i b where fd: "store_find (m_st m) u = (i, b)" by fastforce
  moreover from this find_each(1) [OF inv fd] Cons.prems(3) have b by simp
  ultimately have fd: "store_find (m_st m) u = (i, True)" by simp
  let ?m1 = "m \<lparr> m_st := setAt (m_st m) i (add_ref x (store_at (m_st m) i)) \<rparr>"
  have st: "m_st ?m1 = apply_delta ?d (m_st m)" by (simp add: apply_delta_def fd)
  have "content ?m1 = tx_step (RefcountTx [?d]) (content m)" using st by (simp add: content_def)
  then have ok: "content_ok (content ?m1)" using deltas_content_ok [OF Cons.prems(1)] by metis
  have "set uids \<subseteq> dom (store_map (m_st ?m1))"
    using Cons.prems(3) dom_apply_delta [OF inv, of ?d] unfolding st by simp
  from Cons.IH [OF ok _ this] Cons.prems(2) show ?case
    using fd st by (simp add: findLocked_def content_def put_content_def)
qed simp


lemma content_fields [simp]:
  "c_st (content m) = m_st m" "c_next (content m) = m_nextMapUID m" "c_high (content m) = m_highestFileID m"
  "c_rebuild (content m) = m_rebuildCount m" "c_createFile (content m) = m_createFileID m"
  "c_createTime (content m) = m_createTime m"
  by (simp_all add: content_def)

text \<open>A pass over all records.\<close>

abbreviation keeps_uid :: "(MapEntry \<Rightarrow> MapEntry) \<Rightarrow> bool" where
  "keeps_uid f \<equiv> \<forall>e. entry_ok e \<longrightarrow> entry_ok (f e) \<and> me_UID (f e) = me_UID e"

lemma nth_each: "i < store_count s \<Longrightarrow> each s ! i = store_at s i"
  by (simp add: each_def)

lemma rewrite_prefix:
  assumes "store_inv s" and "keeps_uid f" and "k \<le> store_count s"
  shows "store_inv (fold (\<lambda>i st. setAt st i (f (store_at st i))) [0..<k] s) \<and>
    each (fold (\<lambda>i st. setAt st i (f (store_at st i))) [0..<k] s) = map f (take k (each s)) @ drop k (each s)"
  using assms(3)
proof (induction k)
  case 0
  then show ?case using assms(1) by simp
next
  case (Suc k)
  let ?s = "fold (\<lambda>i st. setAt st i (f (store_at st i))) [0..<k] s"
  have IH: "store_inv ?s" "each ?s = map f (take k (each s)) @ drop k (each s)" using Suc by auto
  have kl: "k < length (each s)" using Suc.prems by (simp add: store_count_each)
  have cnt: "store_count ?s = store_count s" using arg_cong [OF IH(2), of length] kl by (simp add: store_count_each)
  have k: "k < store_count ?s" using Suc.prems cnt by simp
  have at: "store_at ?s k = each s ! k"
    using nth_each [OF k] kl unfolding IH(2) by (simp add: nth_append)
  have ok: "entry_ok (each s ! k)" using each_ok [OF assms(1)] kl by simp
  with assms(2) have fe: "entry_ok (f (each s ! k))" "me_UID (f (each s ! k)) = me_UID (store_at ?s k)" unfolding at by blast+
  note st = each_setAt [OF IH(1) k fe]
  have "drop k (each s) = each s ! k # drop (Suc k) (each s)" using kl by (simp add: Cons_nth_drop_Suc)
  then have "each (setAt ?s k (f (each s ! k))) = map f (take (Suc k) (each s)) @ drop (Suc k) (each s)"
    unfolding st(1) IH(2) using kl by (simp add: list_update_append take_Suc_conv_app_nth)
  then show ?case using st(2) at by simp
qed

lemma each_rewrite_all:
  assumes "store_inv s" and "keeps_uid f"
  shows "store_inv (rewrite_all f s)" and "each (rewrite_all f s) = map f (each s)"
  using rewrite_prefix [OF assms order_refl] by (simp_all add: rewrite_all_def store_count_each)

lemma rewrite_all_map:
  assumes "store_inv s" and "keeps_uid f"
  shows "store_map (rewrite_all f s) = (\<lambda>u. map_option f (store_map s u))"
proof (rule store_map_eqI [OF each_rewrite_all(1) [OF assms]])
  fix u e
  have "map_option f (store_map s u) = Some e \<longleftrightarrow> (\<exists>x \<in> set (each s). me_UID x = u \<and> f x = e)"
    using store_map_Some [OF assms(1), of u] by auto
  moreover have "me_UID (f x) = me_UID x" if "x \<in> set (each s)" for x
    using assms(2) each_ok [OF assms(1) that] by blast
  ultimately show "map_option f (store_map s u) = Some e \<longleftrightarrow> e \<in> set (each (rewrite_all f s)) \<and> me_UID e = u"
    unfolding each_rewrite_all(2) [OF assms] by auto
qed

text \<open>Records moved by a purge.\<close>

definition moved_entry :: "MovedRecord \<Rightarrow> MapEntry \<Rightarrow> MapEntry" where
  "moved_entry mv e =
    (let e = e \<lparr> me_FileID := mv_FileID mv, me_Offset := mv_Offset mv, me_Size := mv_Size mv \<rparr>
     in if mv_GUID mv \<noteq> zeros 16 then e \<lparr> me_GUID := mv_GUID mv \<rparr> else e)"

definition move_step :: "MovedRecord \<Rightarrow> Content \<Rightarrow> Content" where
  "move_step mv c =
     c \<lparr> c_st := mdbox.adjust (moved_entry mv) (mv_UID mv) (c_st c),
         c_high := (if mv_FileID mv > c_high c then mv_FileID mv else c_high c) \<rparr>"

lemma moved_entry_keeps: "length (mv_GUID mv) = 16 \<Longrightarrow> keeps_uid (moved_entry mv)"
  by (simp add: moved_entry_def Let_def)

lemma move_step_refines:
  assumes "content_ok c" and "length (mv_GUID mv) = 16"
  shows "content_ok (move_step mv c)"
    and "store_map (c_st (move_step mv c)) =
      (store_map (c_st c))(mv_UID mv := map_option (moved_entry mv) (store_map (c_st c) (mv_UID mv)))"
proof -
  have inv: "store_inv (c_st c)" using assms(1) by (simp add: content_ok_def)
  have k: "entry_ok e \<Longrightarrow> entry_ok (moved_entry mv e) \<and> me_UID (moved_entry mv e) = me_UID e" for e
    using moved_entry_keeps [OF assms(2)] by blast
  note a = mdbox.adjust_refines [OF inv k, where u = "mv_UID mv"]
  show "store_map (c_st (move_step mv c)) =
      (store_map (c_st c))(mv_UID mv := map_option (moved_entry mv) (store_map (c_st c) (mv_UID mv)))"
    using a(2) by (simp add: move_step_def)
  have "dom (store_map (c_st (move_step mv c))) = dom (store_map (c_st c))"
    using a(2) dom_adjust [of "store_map (c_st c)" "mv_UID mv"] by (simp add: move_step_def)
  then show "content_ok (move_step mv c)"
    using assms(1) a(1) by (simp add: content_ok_dom) (simp add: move_step_def)
qed

lemma move_loop_content:
  assumes "content_ok (content m)" and "m_loaded m" and "list_all (\<lambda>mv. length (mv_GUID mv) = 16) mvs"
    and "mv_UID ` set mvs \<subseteq> dom (store_map (m_st m))"
  shows "move_loop mvs m = (None, put_content (fold move_step mvs (content m)) m) \<and>
    content_ok (fold move_step mvs (content m)) \<and>
    dom (store_map (c_st (fold move_step mvs (content m)))) = dom (store_map (m_st m))"
  using assms
proof (induction mvs arbitrary: m)
  case Nil
  then show ?case by simp
next
  case (Cons mv mvs)
  have inv: "store_inv (m_st m)" using Cons.prems(1) by (simp add: content_ok_def content_def)
  obtain i b where fd: "store_find (m_st m) (mv_UID mv) = (i, b)" by fastforce
  have "mv_UID mv \<in> dom (store_map (m_st m))" using Cons.prems(4) by (simp add: subset_iff)
  with find_each(1) [OF inv fd] have b by blast
  with fd have fd: "store_find (m_st m) (mv_UID mv) = (i, True)" by simp
  have g: "length (mv_GUID mv) = 16" using Cons.prems(3) by simp
  let ?m1 = "put_content (move_step mv (content m)) m"
  note ms = move_step_refines [OF Cons.prems(1) g]
  have "dom (store_map (c_st (move_step mv (content m)))) = dom (store_map (c_st (content m)))"
    unfolding ms(2) by (rule dom_adjust)
  then have d: "dom (store_map (m_st ?m1)) = dom (store_map (m_st m))" by simp
  have st: "move_loop (mv # mvs) m = move_loop mvs ?m1"
    using fd Cons.prems(2)
    by (simp add: findLocked_def Let_def put_content_def move_step_def content_def mdbox.adjust_def moved_entry_def)
  have h: "content_ok (content ?m1)" "m_loaded ?m1" "list_all (\<lambda>mv. length (mv_GUID mv) = 16) mvs"
    "mv_UID ` set mvs \<subseteq> dom (store_map (m_st ?m1))"
    unfolding d using ms(1) Cons.prems(2-4) by (simp_all add: subset_iff)
  show ?case
    unfolding st using Cons.IH [OF h] unfolding d content_put put_put fold_simps(2) .
qed

text \<open>Records removed.\<close>

lemma remove_content:
  assumes "content_ok c"
  shows "content_ok (c \<lparr> c_st := snd (removeFunc (c_st c) drp) \<rparr>)"
  using assms mdbox.remove_inv [of "c_st c" drp] mdbox.remove_entries [of "c_st c" drp]
  by (auto simp: content_ok_dom)

lemma find_missing_None:
  assumes "store_inv (m_st m)" and "m_loaded m" and "set us \<subseteq> dom (store_map (m_st m))"
  shows "find (\<lambda>u. \<not> snd (findLocked m u)) us = None"
proof -
  have "snd (store_find (m_st m) u)" if "u \<in> set us" for u
    using find_each(1) [OF assms(1)] that assms(3) by (metis prod.collapse subsetD)
  then show ?thesis using assms(2) by (auto simp: find_None_iff findLocked_def)
qed

end
