(* ===== verification/Mdbox_Ops.thy ===== *)
theory Mdbox_Ops
  imports Mdbox_Sync
begin

text \<open>
  The operations of the map index, collected in one type and given an abstract meaning on a finite map with its two
  counters, its rebuild count and the file last recorded as created.  Every operation of the handle that changes the
  index is here, except \<^verbatim>\<open>AppendRecord\<close>, which is \<^verbatim>\<open>AppendRecords\<close> with one layout.  Every operation is brought to one of three shapes: after the reload it writes nothing, or it logs one
  transaction and may then fold the log, or it folds at once; and what it writes is what its meaning says.  The
  theories on sharing and on crashes argue about the shapes.
\<close>

section \<open>Operations and their abstract meaning\<close>

datatype map_op =
    OpAppend "Layout list"
  | OpImport "Layout list"
  | OpRefs "uint32 list" int
  | OpSetRefs "(uint32, int) gomap"
  | OpMove "MovedRecord list" "uint32 list"
  | OpExpunge "(uint32, bool) gomap"
  | OpFinish "Layout list"
  | OpGUIDs "(uint32, string) gomap"
  | OpAlloc
  | OpCreated uint32 int
  | OpBump
  | OpCompact

datatype op_result = Done | UIDs "uint32 list" | Number nat | FileNumber uint32 | Failed md_error

fun outcome_of :: "('a \<Rightarrow> op_result) \<Rightarrow> 'a outcome \<Rightarrow> op_result \<times> Map \<times> Disk" where
  "outcome_of f (Inl x, m, d) = (Failed x, m, d)"
| "outcome_of f (Inr r, m, d) = (f r, m, d)"

fun run_op :: "Env \<Rightarrow> map_op \<Rightarrow> Map \<Rightarrow> Disk \<Rightarrow> op_result \<times> Map \<times> Disk" where
  "run_op env (OpAppend ls) m d = outcome_of UIDs (AppendRecords env ls m d)"
| "run_op env (OpImport ls) m d = outcome_of Number (ImportOnce env (Inr ls) m d)"
| "run_op env (OpRefs uids delta) m d = outcome_of (\<lambda>_. Done) (UpdateRefcounts env uids delta m d)"
| "run_op env (OpSetRefs refs) m d = outcome_of Number (SetRefcountsFromReferences env refs m d)"
| "run_op env (OpMove moved expunged) m d = outcome_of (\<lambda>_. Done) (AppendMove env moved expunged m d)"
| "run_op env (OpExpunge present) m d = outcome_of Number (ExpungeVanished env present m d)"
| "run_op env (OpFinish ls) m d = outcome_of UIDs (snd (batch_Finish env \<lparr> b_pending = ls, b_finished = False \<rparr> m d))"
| "run_op env (OpGUIDs guids) m d = outcome_of Number (SetGUIDs env guids m d)"
| "run_op env (OpCreated fileID ts) m d = outcome_of (\<lambda>_. Done) (RecordFileCreated env fileID ts m d)"
| "run_op env OpBump m d = outcome_of (\<lambda>_. Done) (BumpRebuildCount env m d)"
| "run_op env OpAlloc m d = outcome_of FileNumber (AllocFileID env m d)"
| "run_op env OpCompact m d = outcome_of (\<lambda>_. Done) (Compact env m d)"

record View =
  a_map :: "uint32 \<rightharpoonup> MapEntry"
  a_next :: uint32
  a_high :: uint32
  a_rebuild :: uint32
  a_createFile :: uint32
  a_createTime :: uint64

definition view :: "Content \<Rightarrow> View" where
  "view c = \<lparr> a_map = store_map (c_st c), a_next = c_next c, a_high = c_high c, a_rebuild = c_rebuild c,
     a_createFile = c_createFile c, a_createTime = c_createTime c \<rparr>"

definition spec_add :: "MapEntry \<Rightarrow> View \<Rightarrow> View" where
  "spec_add e a =
    a \<lparr> a_map := (a_map a)(me_UID e \<mapsto> e), a_next := me_UID e + 1, a_high := max (a_high a) (me_FileID e) \<rparr>"

definition spec_move :: "MovedRecord \<Rightarrow> View \<Rightarrow> View" where
  "spec_move mv a =
     a \<lparr> a_map := (a_map a)(mv_UID mv := map_option (moved_entry mv) (a_map a (mv_UID mv))),
         a_high := max (a_high a) (mv_FileID mv) \<rparr>"

text \<open>A batch is laid out from a guess of the highest file; when it is finished its files are moved so that the first
  of them is the highest file there is.\<close>

definition rebased :: "uint32 \<Rightarrow> Layout list \<Rightarrow> Layout list" where
  "rebased h ls =
    (let first = rl_FileID (hd ls);
         delta = (if first > 0 then (if h = 0 then 1 - uint first else uint h - uint first) else 0)
     in map (\<lambda>p. p \<lparr> rl_FileID := (let n = word_of_int (uint (rl_FileID p) + delta) in if n = 0 then 1 else n) \<rparr>) ls)"

definition put_guid :: "(uint32, string) gomap \<Rightarrow> MapEntry \<Rightarrow> MapEntry" where
  "put_guid guids e = (if wants_guid guids e then e \<lparr> me_GUID := the (map_of guids (me_UID e)) \<rparr> else e)"

fun spec :: "map_op \<Rightarrow> View \<Rightarrow> op_result \<times> View" where
  "spec (OpAppend ls) a =
    (UIDs (map (\<lambda>i. a_next a + of_nat i) [0..<length ls]), fold spec_add (layout_entries (a_next a) ls) a)"
| "spec (OpImport ls) a =
    (if a_map a = (\<lambda>_. None) then (Number (length ls), fold spec_add (layout_entries (a_next a) ls) a) else (Number 0, a))"
| "spec (OpRefs uids delta) a =
    (Done, a \<lparr> a_map := fold (\<lambda>u f. f(u := map_option (add_ref (word_of_int delta)) (f u))) uids (a_map a) \<rparr>)"
| "spec (OpSetRefs refs) a =
    (Number (card {u \<in> dom (a_map a). refs_of refs u = 0}),
     a \<lparr> a_map := \<lambda>u. map_option (\<lambda>e. e \<lparr> me_RefCount := word_of_int (refs_of refs u) \<rparr>) (a_map a u) \<rparr>)"
| "spec (OpMove moved expunged) a =
    (Done, (fold spec_move moved a) \<lparr> a_map := a_map (fold spec_move moved a) |` (- set expunged) \<rparr>)"
| "spec (OpExpunge present) a =
    (Number (card {u \<in> dom (a_map a). map_of present u \<noteq> Some True}),
     a \<lparr> a_map := a_map a |` {u. map_of present u = Some True} \<rparr>)"
| "spec (OpFinish ls) a =
    (UIDs (map (\<lambda>i. a_next a + of_nat i) [0..<length ls]),
     fold spec_add (layout_entries (a_next a) (rebased (a_high a) ls)) a)"
| "spec (OpGUIDs guids) a =
    (Number (card {u. \<exists>e. a_map a u = Some e \<and> wants_guid guids e}),
     a \<lparr> a_map := \<lambda>u. map_option (put_guid guids) (a_map a u) \<rparr>)"
| "spec (OpCreated fileID ts) a =
    (Done, if a_createFile a = fileID then a else a \<lparr> a_createFile := fileID, a_createTime := word_of_int ts \<rparr>)"
| "spec OpBump a = (Done, a \<lparr> a_rebuild := a_rebuild a + 1 \<rparr>)"
| "spec OpAlloc a =
    (let n = (if a_high a + 1 = 0 then 1 else a_high a + 1) in (FileNumber n, a \<lparr> a_high := n \<rparr>))"
| "spec OpCompact a = (Done, a)"

text \<open>What the code asks of its callers, and room: \<^verbatim>\<open>map_uid\<close>s that exist, GUIDs of sixteen bytes, transactions a
  replay accepts, \<^verbatim>\<open>map_uid\<close>s below \<^verbatim>\<open>2^32\<close>.\<close>

definition layouts_fit :: "Layout list \<Rightarrow> View \<Rightarrow> bool" where
  "layouts_fit ls a \<longleftrightarrow>
     list_all (\<lambda>l. length (rl_GUID l) = 16) ls \<and> unat (a_next a) + length ls < 2 ^ 32 \<and> stride * length ls + 4 \<le> 2 ^ 24"

fun op_fits :: "map_op \<Rightarrow> View \<Rightarrow> bool" where
  "op_fits (OpAppend ls) a \<longleftrightarrow> layouts_fit ls a"
| "op_fits (OpImport ls) a \<longleftrightarrow> layouts_fit ls a"
| "op_fits (OpRefs uids delta) a \<longleftrightarrow> set uids \<subseteq> dom (a_map a) \<and> 8 * length uids + 4 \<le> 2 ^ 24"
| "op_fits (OpMove moved expunged) a \<longleftrightarrow>
     list_all (\<lambda>mv. length (mv_GUID mv) = 16) moved \<and> mv_UID ` set moved \<subseteq> dom (a_map a) \<and> set expunged \<subseteq> dom (a_map a)"
| "op_fits (OpFinish ls) a \<longleftrightarrow> layouts_fit ls a"
| "op_fits (OpGUIDs guids) a \<longleftrightarrow> list_all (\<lambda>(u, g). length g = 16) guids"
| "op_fits op a \<longleftrightarrow> True"

section \<open>The records against the abstract map\<close>

lemma view_fields [simp]: "a_map (view c) = store_map (c_st c)" "a_next (view c) = c_next c" "a_high (view c) = c_high c"
  "a_rebuild (view c) = c_rebuild c" "a_createFile (view c) = c_createFile c" "a_createTime (view c) = c_createTime c"
  by (simp_all add: view_def)

lemma length_layout_entries [simp]: "length (layout_entries n ls) = length ls"
  by (induction ls arbitrary: n) simp_all

lemma uids_layout: "map me_UID (layout_entries n ls) = map (\<lambda>i. n + of_nat i) [0..<length ls]"
proof (induction ls arbitrary: n)
  case (Cons l ls)
  have "map (\<lambda>i. n + of_nat i) [0..<length (l # ls)] = n # map (\<lambda>i. (n + 1) + of_nat i) [0..<length ls]"
    by (simp add: upt_conv_Cons map_Suc_upt [symmetric] comp_def add.assoc del: upt_Suc)
  with Cons.IH [of "n + 1"] show ?case by (simp add: layout_entry_def del: upt_Suc)
qed simp

lemma if_max: "(if (h :: uint32) < f then f else h) = max h f"
proof (cases "h < f")
  case True
  then show ?thesis using max.absorb2 [OF less_imp_le [OF True]] by simp
next
  case False
  then have "f \<le> h" unfolding not_less .
  then show ?thesis using max.absorb1 [OF \<open>f \<le> h\<close>] False by simp
qed

lemma view_new_step:
  assumes "content_ok c" and "me_UID e = c_next c" and "entry_ok e" and "c_next c + 1 \<noteq> 0"
  shows "view (new_step e c) = spec_add e (view c)"
  using new_step_fresh(3) [OF assms] assms(2)
  unfolding view_def spec_add_def new_step_fresh(1) [OF assms] if_max by simp

lemma view_append:
  assumes "content_ok c" and "unat (c_next c) + length ls < 2 ^ 32" and "list_all (\<lambda>l. length (rl_GUID l) = 16) ls"
  shows "view (fold new_step (layout_entries (c_next c) ls) c) = fold spec_add (layout_entries (c_next c) ls) (view c)"
  using assms
proof (induction ls arbitrary: c)
  case (Cons l ls)
  let ?e = "layout_entry (c_next c) l"
  have w: "c_next c + 1 \<noteq> 0" "unat (c_next c + 1) = Suc (unat (c_next c))"
    using word_room [of "c_next c" "length ls"] Cons.prems(2) by auto
  have e: "me_UID ?e = c_next c" "entry_ok ?e" using Cons.prems(3) by (simp_all add: layout_entry_def)
  note st = new_step_fresh [OF Cons.prems(1) e w(1)]
  have n: "c_next (new_step ?e c) = c_next c + 1" by (simp add: st(1))
  from Cons.IH [OF st(2)] Cons.prems(2,3) w(2) show ?case
    unfolding n by (simp add: view_new_step [OF Cons.prems(1) e w(1)])
qed simp

lemma view_deltas:
  assumes "store_inv st"
  shows "store_map (fold apply_delta (deltas x uids) st) =
    fold (\<lambda>u f. f(u := map_option (add_ref x) (f u))) uids (store_map st)"
  using assms
proof (induction uids arbitrary: st)
  case (Cons u uids)
  note a = apply_delta_refines [OF Cons.prems, of "\<lparr> ai_UID = u, ai_Diff = x \<rparr>"]
  from Cons.IH [OF a(1)] a(2) show ?case by simp
qed simp

lemma view_moves:
  assumes "content_ok c" and "list_all (\<lambda>mv. length (mv_GUID mv) = 16) mvs"
  shows "view (fold move_step mvs c) = fold spec_move mvs (view c)"
  using assms
proof (induction mvs arbitrary: c)
  case (Cons mv mvs)
  then have g: "length (mv_GUID mv) = 16" by simp
  note ms = move_step_refines [OF Cons.prems(1) g]
  have "view (move_step mv c) = spec_move mv (view c)"
    using ms(2) unfolding view_def spec_move_def move_step_def if_max by simp
  with Cons.IH [OF ms(1)] Cons.prems(2) show ?case by simp
qed simp

lemma put_st: "m \<lparr> m_st := s \<rparr> = put_content ((content m) \<lparr> c_st := s \<rparr>) m"
  by (simp add: put_content_def)

lemma put_high: "m \<lparr> m_highestFileID := h \<rparr> = put_content ((content m) \<lparr> c_high := h \<rparr>) m"
  by (simp add: put_content_def)

lemma remove_none:
  assumes "store_inv s" and "fst (removeFunc s drp) = 0"
  shows "snd (removeFunc s drp) = s"
proof -
  from assms(1) obtain cs where cs: "s = store_of cs" "rec_blocks cs" by (auto simp: store_inv_blocks)
  have "filter (\<lambda>c. drp (recordUID c)) cs = []" using assms(2) unfolding cs(1) removeFunc_blocks [OF cs(2)] by simp
  then have "filter (\<lambda>c. \<not> drp (recordUID c)) cs = cs" by (simp add: filter_empty_conv filter_id_conv)
  then show ?thesis unfolding cs(1) removeFunc_blocks [OF cs(2)] by simp
qed

lemma view_remove:
  "content_ok c \<Longrightarrow> view (c \<lparr> c_st := snd (removeFunc (c_st c) drp) \<rparr>) = (view c) \<lparr> a_map := store_map (c_st c) |` {u. \<not> drp u} \<rparr>"
  using mdbox.remove_entries [of "c_st c" drp] by (simp add: view_def content_ok_def)

lemma restrict_UNIV: "f |` UNIV = f"
  by (rule ext) simp

lemma view_empty:
  assumes "content_ok c"
  shows "store_map (c_st c) = (\<lambda>_. None) \<longleftrightarrow> store_count (c_st c) = 0"
proof -
  have m: "store_map (c_st c) u = Some e \<longleftrightarrow> e \<in> set (each (c_st c)) \<and> me_UID e = u" for u e
    using assms by (intro store_map_Some) (simp add: content_ok_def)
  have "store_map (c_st c) = (\<lambda>_. None) \<longleftrightarrow> (\<forall>u e. store_map (c_st c) u \<noteq> Some e)"
    unfolding fun_eq_iff not_Some_eq ..
  also have "\<dots> \<longleftrightarrow> each (c_st c) = []" unfolding m by (metis last_in_set list.set(1) empty_iff)
  finally have "store_map (c_st c) = (\<lambda>_. None) \<longleftrightarrow> each (c_st c) = []" .
  then show ?thesis using store_count_each [of "c_st c"] by auto
qed

section \<open>The shapes of an operation\<close>

text \<open>The reload every operation starts with, and the two ways it may end.\<close>

definition reloaded :: "Env \<Rightarrow> (Map \<Rightarrow> Disk \<Rightarrow> op_result \<times> Map \<times> Disk) \<Rightarrow> Map \<Rightarrow> Disk \<Rightarrow> op_result \<times> Map \<times> Disk" where
  "reloaded env body m d =
    (if e_lock env = Refused then (Failed LockError, m, d)
     else (case reloadLocked env m d of (Some x, m1, d1) \<Rightarrow> (Failed x, m1, d1) | (None, m1, d1) \<Rightarrow> body m1 d1))"

definition log_commit :: "Env \<Rightarrow> tx \<Rightarrow> Map \<Rightarrow> Disk \<Rightarrow> md_error option \<times> Map \<times> Disk" where
  "log_commit env t m d =
    (case writeLogTxLocked env (tx_code t) (tx_payload t) m d of
       (Inl x, m1, d1) \<Rightarrow> (Some x, m1, d1)
     | (Inr _, m1, d1) \<Rightarrow> rotate env m1 d1)"

fun ending :: "op_result \<Rightarrow> (Map \<Rightarrow> Map) \<Rightarrow> md_error option \<times> Map \<times> Disk \<Rightarrow> op_result \<times> Map \<times> Disk" where
  "ending r g (Some x, m, d) = (Failed x, g m, d)"
| "ending r g (None, m, d) = (r, m, d)"

definition shape :: "Env \<Rightarrow> map_op \<Rightarrow> Map \<Rightarrow> Disk \<Rightarrow> op_result \<times> Map \<times> Disk \<Rightarrow> bool" where
  "shape env op m d res \<longleftrightarrow>
    (\<exists>r c. spec op (view (content m)) = (r, view c) \<and> content_ok c \<and>
      (c = content m \<and> res = (r, m, d) \<or>
       (\<exists>t g. tx_wf t \<and> c = tx_step t (content m) \<and> res = ending r g (log_commit env t (put_content c m) d)) \<or>
       res = ending r (\<lambda>m. m) (flushLocked env (put_content c m) d)))"

definition acts :: "Env \<Rightarrow> map_op \<Rightarrow> bool" where
  "acts env op \<longleftrightarrow>
    (\<exists>r. (\<forall>a. spec op a = (r, a)) \<and> (\<forall>m d. run_op env op m d = (r, m, d))) \<or>
    (\<exists>body. (\<forall>m d. run_op env op m d = reloaded env body m d) \<and>
       (\<forall>m d. content_ok (content m) \<longrightarrow> m_loaded m \<longrightarrow> op_fits op (view (content m)) \<longrightarrow> shape env op m d (body m d)))"

lemma acts_skip: "(\<And>a. spec op a = (r, a)) \<Longrightarrow> (\<And>m d. run_op env op m d = (r, m, d)) \<Longrightarrow> acts env op"
  by (auto simp: acts_def)

lemma acts_body:
  assumes run: "\<And>m d. run_op env op m d = outcome_of F (withMapLock env (reload_then env body) m d)"
    and sh: "\<And>m d. content_ok (content m) \<Longrightarrow> m_loaded m \<Longrightarrow> op_fits op (view (content m)) \<Longrightarrow> shape env op m d (outcome_of F (body m d))"
  shows "acts env op"
proof -
  have "run_op env op m d = reloaded env (\<lambda>m d. outcome_of F (body m d)) m d" for m d
    unfolding run by (auto simp: reloaded_def withMapLock_def reload_then_def split: lock_answer.splits option.splits prod.splits)
  then show ?thesis using sh unfolding acts_def by blast
qed

lemma shape_keep: "content_ok (content m) \<Longrightarrow> spec op (view (content m)) = (r, view (content m)) \<Longrightarrow> shape env op m d (r, m, d)"
  by (auto simp: shape_def)

lemma shape_fold:
  assumes "content_ok c" and "spec op (view (content m)) = (F x, view c)"
  shows "shape env op m d (outcome_of F (flush_return env x (put_content c m) d))"
proof -
  have "outcome_of F (flush_return env x (put_content c m) d) = ending (F x) (\<lambda>m. m) (flushLocked env (put_content c m) d)"
    by (simp add: flush_return_def split: prod.split option.split)
  with assms show ?thesis unfolding shape_def by blast
qed

lemma shape_log:
  assumes "content_ok (tx_step t (content m))" and "tx_wf t" and "spec op (view (content m)) = (r, view (tx_step t (content m)))"
    and "res = ending r g (log_commit env t (put_content (tx_step t (content m)) m) d)"
  shows "shape env op m d res"
  using assms unfolding shape_def by blast

text \<open>An append puts its entries in the records and logs them as one transaction.\<close>

lemma append_commits:
  assumes srt: "ext_sorts (e_ext_sort env)" and c: "content_ok (content m)" and f: "layouts_fit ls (view (content m))" and ne: "ls \<noteq> []"
  shows "append_commit env res (append_loop ls m) d =
    (case log_commit env (AppendTx (layout_entries (m_nextMapUID m) ls))
            (put_content (tx_step (AppendTx (layout_entries (m_nextMapUID m) ls)) (content m)) m) d of
       (Some x, m1, d1) \<Rightarrow> (Inl x, m1, d1)
     | (None, m1, d1) \<Rightarrow> (Inr (res (layout_entries (m_nextMapUID m) ls)), m1, d1))"
    and "tx_wf (AppendTx (layout_entries (m_nextMapUID m) ls))"
    and "content_ok (tx_step (AppendTx (layout_entries (m_nextMapUID m) ls)) (content m))"
proof -
  let ?es = "layout_entries (m_nextMapUID m) ls" and ?m = "put_content (fold new_step (layout_entries (m_nextMapUID m) ls) (content m)) m"
  have h: "unat (m_nextMapUID m) + length ls < 2 ^ 32" "list_all (\<lambda>l. length (rl_GUID l) = 16) ls"
    using f by (simp_all add: layouts_fit_def)
  note al = append_loop_content [OF c h]
  show "tx_wf (AppendTx ?es)" using al(3) f by (simp add: layouts_fit_def)
  show "content_ok (tx_step (AppendTx ?es) (content m))" using al(2) by simp
  obtain p where p: "EncodeTxAppendPayload log_layout (map entryToLogRecord ?es) = Inr p"
    using append_payload [OF al(3)] by auto
  have ne': "?es \<noteq> []" using ne by (cases ls) simp_all
  have "commitAppendLocked env ?es ?m d = log_commit env (AppendTx ?es) ?m d"
    using ne' p by (simp add: commitAppendLocked_def appendLogLocked_def logLayout_eq [OF srt] rotate_def log_commit_def
        split: prod.splits sum.splits)
  then show "append_commit env res (append_loop ls m) d =
    (case log_commit env (AppendTx ?es) (put_content (tx_step (AppendTx ?es) (content m)) m) d of
       (Some x, m1, d1) \<Rightarrow> (Inl x, m1, d1) | (None, m1, d1) \<Rightarrow> (Inr (res ?es), m1, d1))"
    unfolding al(1) append_commit_def by simp
qed

lemma shape_append:
  assumes srt: "ext_sorts (e_ext_sort env)" and c: "content_ok (content m)" and f: "layouts_fit ls (view (content m))" and ne: "ls \<noteq> []"
    and sp: "spec op (view (content m)) =
      (F (res (layout_entries (m_nextMapUID m) ls)), fold spec_add (layout_entries (m_nextMapUID m) ls) (view (content m)))"
  shows "shape env op m d (outcome_of F (append_commit env res (append_loop ls m) d))"
proof -
  let ?es = "layout_entries (m_nextMapUID m) ls" and ?c = "tx_step (AppendTx (layout_entries (m_nextMapUID m) ls)) (content m)"
  note ac = append_commits [OF srt c f ne]
  have "outcome_of F (append_commit env res (append_loop ls m) d) =
      ending (F (res ?es)) (\<lambda>m. m) (log_commit env (AppendTx ?es) (put_content ?c m) d)"
    unfolding ac(1) by (simp split: prod.split option.split)
  moreover have "spec op (view (content m)) = (F (res ?es), view ?c)"
    using sp view_append [OF c, of ls] f by (simp add: layouts_fit_def)
  ultimately show ?thesis using shape_log [OF ac(3,2)] by blast
qed

lemma append_acts: "ext_sorts (e_ext_sort env) \<Longrightarrow> acts env (OpAppend ls)"
proof (cases "ls = []")
  case True
  then show ?thesis by (intro acts_skip [where r = "UIDs []"]) (simp_all add: AppendRecords_def)
next
  case False
  assume srt: "ext_sorts (e_ext_sort env)"
  show ?thesis
  proof (rule acts_body)
    show "run_op env (OpAppend ls) m d = outcome_of UIDs (withMapLock env
        (reload_then env (\<lambda>m d. append_commit env (map me_UID) (append_loop ls m) d)) m d)" for m d
      using False by (simp add: AppendRecords_def)
    show "shape env (OpAppend ls) m d (outcome_of UIDs (append_commit env (map me_UID) (append_loop ls m) d))"
      if "content_ok (content m)" "op_fits (OpAppend ls) (view (content m))" for m d
      using that False by (intro shape_append [OF srt]) (simp_all add: uids_layout)
  qed
qed

lemma import_acts: "ext_sorts (e_ext_sort env) \<Longrightarrow> acts env (OpImport ls)"
proof (rule acts_body [where F = Number])
  assume srt: "ext_sorts (e_ext_sort env)"
  let ?body = "\<lambda>m d. if store_count (m_st m) > 0 then (Inr 0, m, d)
       else if ls = [] then (Inr 0, m, d) else append_commit env length (append_loop ls m) d"
  show "run_op env (OpImport ls) m d = outcome_of Number (withMapLock env (reload_then env ?body) m d)" for m d
    unfolding run_op.simps ImportOnce_def sum.case ..
  show "shape env (OpImport ls) m d (outcome_of Number (?body m d))"
    if c: "content_ok (content m)" and f: "op_fits (OpImport ls) (view (content m))" for m d
  proof (cases "store_count (m_st m) = 0 \<and> ls \<noteq> []")
    case True
    then show ?thesis using view_empty [OF c] f by (simp, intro shape_append [OF srt c]) simp_all
  next
    case False
    then have "outcome_of Number (?body m d) = (Number 0, m, d)" by auto
    then show ?thesis using False view_empty [OF c] by (auto intro!: shape_keep [OF c])
  qed
qed

lemma refs_acts: "acts env (OpRefs uids delta)"
proof (cases "uids = []")
  case True
  then show ?thesis by (intro acts_skip [where r = Done]) (simp_all add: UpdateRefcounts_def)
next
  case False
  let ?w = "word_of_int delta"
  let ?body = "\<lambda>m d. case refcount_loop ?w uids m of
         (Inl x, m1) \<Rightarrow> (Inl x, m1, d)
       | (Inr ds, m1) \<Rightarrow>
           (case appendRefcountLogLocked env ds m1 d of
              (Some x, m2, d2) \<Rightarrow> (Inl x, invalidateLocked m2, d2)
            | (None, m2, d2) \<Rightarrow> (Inr (), m2, d2))"
  show ?thesis
  proof (rule acts_body)
    show "run_op env (OpRefs uids delta) m d = outcome_of (\<lambda>_. Done) (withMapLock env (reload_then env ?body) m d)" for m d
      using False by (simp add: UpdateRefcounts_def)
    fix m d assume c: "content_ok (content m)" "m_loaded m" and f: "op_fits (OpRefs uids delta) (view (content m))"
    let ?t = "RefcountTx (deltas ?w uids)" and ?c = "tx_step (RefcountTx (deltas ?w uids)) (content m)"
    have inv: "store_inv (m_st m)" using c(1) by (simp add: content_ok_def)
    have rl: "refcount_loop ?w uids m = (Inr (deltas ?w uids), put_content ?c m)"
      using f by (intro refcount_loop_content [OF c]) simp
    have "appendRefcountLogLocked env (deltas ?w uids) (put_content ?c m) d = log_commit env ?t (put_content ?c m) d"
      using False by (simp add: appendRefcountLogLocked_def log_commit_def rotate_def split: prod.split sum.split)
    then have b: "outcome_of (\<lambda>_. Done) (?body m d) = ending Done invalidateLocked (log_commit env ?t (put_content ?c m) d)"
      unfolding rl prod.case sum.case by (simp split: prod.split option.split)
    show "shape env (OpRefs uids delta) m d (outcome_of (\<lambda>_. Done) (?body m d))"
      using f view_deltas [OF inv, of ?w uids]
      by (intro shape_log [OF deltas_content_ok [OF c(1)] _ _ b]) (simp_all add: view_def)
  qed
qed

lemma set_refs_keeps: "keeps_uid (\<lambda>e. e \<lparr> me_RefCount := g (me_UID e) \<rparr>)"
  by simp

lemma set_refs_acts: "acts env (OpSetRefs refs)"
proof (rule acts_body)
  let ?f = "\<lambda>e. e \<lparr> me_RefCount := word_of_int (refs_of refs (me_UID e)) \<rparr>"
  show "run_op env (OpSetRefs refs) m d = outcome_of Number (withMapLock env (reload_then env (\<lambda>m d.
       flush_return env (length (filter (\<lambda>e. refs_of refs (me_UID e) = 0) (each (m_st m))))
         (m \<lparr> m_st := rewrite_all ?f (m_st m) \<rparr>) d)) m d)" for m d
    by (simp add: SetRefcountsFromReferences_def)
  fix m d assume c: "content_ok (content m)"
  then have inv: "store_inv (m_st m)" by (simp add: content_ok_def)
  let ?c = "(content m) \<lparr> c_st := rewrite_all ?f (m_st m) \<rparr>"
  note ra = rewrite_all_map [OF inv set_refs_keeps, of "\<lambda>u. word_of_int (refs_of refs u)"]
  have at: "map_option ?f (store_map (m_st m) u) =
      map_option (\<lambda>e. e \<lparr> me_RefCount := word_of_int (refs_of refs u) \<rparr>) (store_map (m_st m) u)" for u
    using mdbox.entries_ok [OF inv, of u] by (cases "store_map (m_st m) u") auto
  have "dom (\<lambda>u. map_option ?f (store_map (m_st m) u)) = dom (store_map (m_st m))" by (auto simp: dom_def)
  then have ok: "content_ok ?c"
    using c each_rewrite_all(1) [OF inv set_refs_keeps, of "\<lambda>u. word_of_int (refs_of refs u)"]
    unfolding content_ok_dom by (simp add: ra)
  show "shape env (OpSetRefs refs) m d (outcome_of Number
      (flush_return env (length (filter (\<lambda>e. refs_of refs (me_UID e) = 0) (each (m_st m))))
        (m \<lparr> m_st := rewrite_all ?f (m_st m) \<rparr>) d))"
    unfolding put_st
    by (rule shape_fold [OF ok]) (use remove_card [OF inv, of "\<lambda>u. refs_of refs u = 0"] in \<open>simp add: view_def ra at\<close>)
qed

lemma alloc_acts: "acts env OpAlloc"
proof (rule acts_body)
  let ?n = "\<lambda>m. if m_highestFileID m + 1 = 0 then 1 else m_highestFileID m + 1"
  show "run_op env OpAlloc m d = outcome_of FileNumber (withMapLock env (reload_then env (\<lambda>m d.
      flush_return env (?n m) (m \<lparr> m_highestFileID := ?n m \<rparr>) d)) m d)" for m d
    by (simp add: AllocFileID_def Let_def)
  show "shape env OpAlloc m d (outcome_of FileNumber (flush_return env (?n m) (m \<lparr> m_highestFileID := ?n m \<rparr>) d))"
    if "content_ok (content m)" for m d
    unfolding put_high by (rule shape_fold) (use that in \<open>simp_all add: content_ok_def view_def Let_def\<close>)
qed

lemma compact_acts: "acts env OpCompact"
proof (rule acts_body)
  show "run_op env OpCompact m d = outcome_of (\<lambda>_. Done) (withMapLock env (reload_then env (flush_return env ())) m d)" for m d
    by (simp add: Compact_def)
  show "shape env OpCompact m d (outcome_of (\<lambda>_. Done) (flush_return env () m d))" if "content_ok (content m)" for m d
    using shape_fold [OF that, of OpCompact m "\<lambda>_. Done" "()" env d] by simp
qed

lemma expunge_acts: "acts env (OpExpunge present)"
proof (rule acts_body)
  let ?drp = "\<lambda>uid. map_of present uid \<noteq> Some True"
  let ?body = "\<lambda>m d. case removeFunc (m_st m) ?drp of
         (dropped, st) \<Rightarrow>
           let m1 = m \<lparr> m_st := st \<rparr>
           in if dropped = 0 then (Inr 0, m1, d) else flush_return env dropped m1 d"
  show "run_op env (OpExpunge present) m d = outcome_of Number (withMapLock env (reload_then env ?body) m d)" for m d
    by (simp add: ExpungeVanished_def)
  fix m d assume c: "content_ok (content m)"
  then have inv: "store_inv (m_st m)" by (simp add: content_ok_def)
  obtain n st where rm: "removeFunc (m_st m) ?drp = (n, st)" by fastforce
  have n: "n = card {u \<in> dom (store_map (m_st m)). ?drp u}"
    using each_remove(2) [OF inv, of ?drp] remove_card [OF inv, of ?drp] rm by simp
  let ?c = "(content m) \<lparr> c_st := st \<rparr>"
  have ok: "content_ok ?c" using remove_content [OF c, of ?drp] rm by simp
  have sp: "spec (OpExpunge present) (view (content m)) = (Number n, view ?c)"
    using view_remove [OF c, of ?drp] rm n by simp
  show "shape env (OpExpunge present) m d (outcome_of Number (?body m d))"
  proof (cases "n = 0")
    case True
    then have "?c = content m" using remove_none [OF inv, of ?drp] rm by simp
    then have "put_content ?c m = m" "spec (OpExpunge present) (view (content m)) = (Number 0, view (content m))"
      using sp True by simp_all
    then show ?thesis using True shape_keep [OF c] unfolding rm prod.case Let_def put_st by simp
  next
    case False
    then show ?thesis using shape_fold [OF ok, where F = Number and x = n, OF sp, of env d] unfolding rm prod.case Let_def put_st by simp
  qed
qed

lemma move_acts: "acts env (OpMove moved expunged)"
proof (cases "moved = [] \<and> expunged = []")
  case True
  then show ?thesis by (intro acts_skip [where r = Done]) (simp_all add: AppendMove_def restrict_UNIV)
next
  case False
  let ?body = "\<lambda>m d.
       case move_loop moved m of
         (Some x, m1) \<Rightarrow> (Inl x, m1, d)
       | (None, m1) \<Rightarrow>
           (case find (\<lambda>uid. \<not> snd (findLocked m1 uid)) expunged of
              Some uid \<Rightarrow> (Inl (UIDNotFound uid), m1, d)
            | None \<Rightarrow>
                flush_return env ()
                  (if expunged = [] then m1
                   else m1 \<lparr> m_st := snd (removeFunc (m_st m1) (\<lambda>uid. uid \<in> set expunged)) \<rparr>) d)"
  show ?thesis
  proof (rule acts_body)
    show "run_op env (OpMove moved expunged) m d = outcome_of (\<lambda>_. Done) (withMapLock env (reload_then env ?body) m d)" for m d
      by (simp only: run_op.simps AppendMove_def if_not_P [OF False])
    fix m d assume c: "content_ok (content m)" and l: "m_loaded m" and f: "op_fits (OpMove moved expunged) (view (content m))"
    have g: "list_all (\<lambda>mv. length (mv_GUID mv) = 16) moved" "mv_UID ` set moved \<subseteq> dom (store_map (m_st m))"
      "set expunged \<subseteq> dom (store_map (m_st m))" using f by simp_all
    note ml = move_loop_content [OF c l g(1,2)]
    let ?c1 = "fold move_step moved (content m)" and ?drp = "\<lambda>uid. uid \<in> set expunged"
    have fd: "find (\<lambda>uid. \<not> snd (findLocked (put_content ?c1 m) uid)) expunged = None"
      using ml g(3) l by (intro find_missing_None) (simp_all add: content_ok_def put_content_def)
    let ?c = "if expunged = [] then ?c1 else ?c1 \<lparr> c_st := snd (removeFunc (c_st ?c1) ?drp) \<rparr>"
    have pc: "(if expunged = [] then put_content ?c1 m else (put_content ?c1 m)
        \<lparr> m_st := snd (removeFunc (m_st (put_content ?c1 m)) ?drp) \<rparr>) = put_content ?c m"
      by (simp add: put_content_def)
    have ok: "content_ok ?c" using ml remove_content [of ?c1 ?drp] by simp
    have "spec (OpMove moved expunged) (view (content m)) = (Done, (view ?c1) \<lparr> a_map := store_map (c_st ?c1) |` (- set expunged) \<rparr>)"
      by (simp flip: view_moves [OF c g(1)])
    also have "\<dots> = (Done, view ?c)"
      using view_remove [of ?c1 ?drp] ml by (cases "expunged = []") (simp_all add: restrict_UNIV view_def Compl_eq)
    finally show "shape env (OpMove moved expunged) m d (outcome_of (\<lambda>_. Done) (?body m d))"
      unfolding conjunct1 [OF ml] prod.case option.case fd pc by (rule shape_fold [OF ok])
  qed
qed

lemma created_acts: "acts env (OpCreated fileID ts)"
proof (rule acts_body)
  let ?body = "\<lambda>m d. if m_createFileID m = fileID then (Inr (), m, d)
      else flush_return env () (m \<lparr> m_createFileID := fileID, m_createTime := word_of_int ts \<rparr>) d"
  show "run_op env (OpCreated fileID ts) m d = outcome_of (\<lambda>_. Done) (withMapLock env (reload_then env ?body) m d)" for m d
    by (simp add: RecordFileCreated_def)
  show "shape env (OpCreated fileID ts) m d (outcome_of (\<lambda>_. Done) (?body m d))" if c: "content_ok (content m)" for m d
  proof (cases "m_createFileID m = fileID")
    case True
    then show ?thesis by (auto intro!: shape_keep [OF c])
  next
    case False
    let ?c = "(content m) \<lparr> c_createFile := fileID, c_createTime := word_of_int ts \<rparr>"
    have p: "m \<lparr> m_createFileID := fileID, m_createTime := word_of_int ts \<rparr> = put_content ?c m"
      by (simp add: put_content_def)
    have ok: "content_ok ?c" using c by (simp add: content_ok_def)
    have "spec (OpCreated fileID ts) (view (content m)) = (Done, view ?c)" using False by (simp add: view_def)
    from shape_fold [OF ok, where F = "\<lambda>_. Done" and x = "()", OF this, of env d] False show ?thesis by (simp add: p)
  qed
qed

lemma bump_acts: "acts env OpBump"
proof (rule acts_body)
  show "run_op env OpBump m d = outcome_of (\<lambda>_. Done) (withMapLock env (reload_then env (\<lambda>m d.
      flush_return env () (m \<lparr> m_rebuildCount := m_rebuildCount m + 1 \<rparr>) d)) m d)" for m d
    by (simp add: BumpRebuildCount_def)
  show "shape env OpBump m d (outcome_of (\<lambda>_. Done) (flush_return env () (m \<lparr> m_rebuildCount := m_rebuildCount m + 1 \<rparr>) d))"
    if c: "content_ok (content m)" for m d
  proof -
    let ?c = "(content m) \<lparr> c_rebuild := m_rebuildCount m + 1 \<rparr>"
    have p: "m \<lparr> m_rebuildCount := m_rebuildCount m + 1 \<rparr> = put_content ?c m" by (simp add: put_content_def)
    have ok: "content_ok ?c" using c by (simp add: content_ok_def)
    show ?thesis unfolding p by (rule shape_fold [OF ok]) (simp add: view_def)
  qed
qed

lemma count_entries:
  assumes "store_inv s"
  shows "length (filter P (each s)) = card {u. \<exists>e. store_map s u = Some e \<and> P e}"
proof -
  have "distinct (map me_UID (each s))" using assms by (simp add: store_inv_def strict_sorted_iff)
  then have d: "distinct (map me_UID (filter P (each s)))" by (rule distinct_map_filter)
  have "{u. \<exists>e. store_map s u = Some e \<and> P e} = set (map me_UID (filter P (each s)))"
    unfolding store_map_Some [OF assms] by auto
  then show ?thesis using distinct_card [OF d] by simp
qed

lemma guids_acts: "acts env (OpGUIDs guids)"
proof (cases "guids = []")
  case True
  have "put_guid [] e = e" for e by (simp add: put_guid_def wants_guid_def)
  then have "map_option (put_guid []) x = x" for x by (cases x) simp_all
  then show ?thesis using True
    by (intro acts_skip [where r = "Number 0"]) (simp_all add: SetGUIDs_def wants_guid_def)
next
  case False
  have pg: "put_guid guids = (\<lambda>e. if wants_guid guids e then e \<lparr> me_GUID := the (map_of guids (me_UID e)) \<rparr> else e)"
    by (rule ext) (rule put_guid_def)
  let ?n = "\<lambda>m. length (filter (wants_guid guids) (each (m_st m)))"
  let ?body = "\<lambda>m d. let written = ?n m in if written = 0 then (Inr 0, m, d)
      else flush_return env written (m \<lparr> m_st := rewrite_all (put_guid guids) (m_st m) \<rparr>) d"
  show ?thesis
  proof (rule acts_body)
    show "run_op env (OpGUIDs guids) m d = outcome_of Number (withMapLock env (reload_then env ?body) m d)" for m d
      using False unfolding pg by (simp add: SetGUIDs_def)
    fix m d assume c: "content_ok (content m)" and f: "op_fits (OpGUIDs guids) (view (content m))"
    have inv: "store_inv (m_st m)" using c by (simp add: content_ok_def)
    have k: "keeps_uid (put_guid guids)"
      using f by (auto simp: put_guid_def wants_guid_def list_all_iff split: option.splits dest!: map_of_SomeD)
    let ?c = "(content m) \<lparr> c_st := rewrite_all (put_guid guids) (m_st m) \<rparr>"
    note ra = rewrite_all_map [OF inv k] each_rewrite_all [OF inv k]
    have "dom (\<lambda>u. map_option (put_guid guids) (store_map (m_st m) u)) = dom (store_map (m_st m))" by (auto simp: dom_def)
    then have ok: "content_ok ?c" using c ra(2) unfolding content_ok_dom by (simp add: ra(1))
    have sp: "spec (OpGUIDs guids) (view (content m)) = (Number (?n m), view ?c)"
      using count_entries [OF inv, of "wants_guid guids"] by (simp add: view_def ra(1))
    show "shape env (OpGUIDs guids) m d (outcome_of Number (?body m d))"
    proof (cases "?n m = 0")
      case True
      then have "\<forall>e \<in> set (each (m_st m)). put_guid guids e = e" by (simp add: filter_empty_conv put_guid_def)
      then have "map_option (put_guid guids) (store_map (m_st m) u) = store_map (m_st m) u" for u
        using store_map_Some [OF inv, of u] by (cases "store_map (m_st m) u") auto
      then have "view ?c = view (content m)" by (simp add: view_def ra(1))
      then show ?thesis using True sp by (auto intro!: shape_keep [OF c])
    next
      case False
      then show ?thesis using shape_fold [OF ok, where F = Number and x = "?n m", OF sp, of env d]
        unfolding Let_def put_st by simp
    qed
  qed
qed

lemma finish_loop_entries:
  "finish_loop delta h ls m =
    (let ls' = map (\<lambda>p. p \<lparr> rl_FileID := (let n = word_of_int (uint (rl_FileID p) + delta) in if n = 0 then 1 else n) \<rparr>) ls;
         (added, m1) = append_loop ls' (m \<lparr> m_highestFileID := h \<rparr>)
     in (added, m_highestFileID m1, m1 \<lparr> m_highestFileID := m_highestFileID m \<rparr>))"
proof (induction ls arbitrary: h m)
  case (Cons p ps)
  then show ?case by (simp add: Let_def split: prod.split)
qed simp

lemma append_loop_high:
  "ls \<noteq> [] \<Longrightarrow> rl_FileID (hd ls) = 1 \<Longrightarrow> append_loop ls (m \<lparr> m_highestFileID := 1 \<rparr>) = append_loop ls (m \<lparr> m_highestFileID := 0 \<rparr>)"
  by (cases ls) (simp_all add: Let_def)

lemma finish_high:
  assumes "ls \<noteq> []" and "h = 0"
  shows "rl_FileID (hd (rebased h ls)) = 1"
  using assms by (cases ls) (auto simp: rebased_def Let_def word_gt_0)

lemma rebased_ne: "rebased h ls = [] \<longleftrightarrow> ls = []"
  by (simp add: rebased_def Let_def)

lemma finish_acts: "ext_sorts (e_ext_sort env) \<Longrightarrow> acts env (OpFinish ls)"
proof (cases "ls = []")
  case True
  then show ?thesis by (intro acts_skip [where r = "UIDs []"]) (simp_all add: batch_Finish_def rebased_def)
next
  case False
  assume srt: "ext_sorts (e_ext_sort env)"
  let ?body = "\<lambda>m d. append_commit env (map me_UID) (append_loop (rebased (m_highestFileID m) ls) m) d"
  show ?thesis
  proof (rule acts_body)
    have "(let (added, mx, m1) = finish_loop (if rl_FileID (hd ls) > 0 then (if m_highestFileID m = 0 then 1 - uint (rl_FileID (hd ls))
              else uint (m_highestFileID m) - uint (rl_FileID (hd ls))) else 0)
              (if m_highestFileID m = 0 then 1 else m_highestFileID m) ls m
           in append_commit env (map me_UID) (added, m1 \<lparr> m_highestFileID := mx \<rparr>) d) = ?body m d" for m d
    proof -
      let ?ls = "rebased (m_highestFileID m) ls"
      have "append_loop ?ls (m \<lparr> m_highestFileID := (if m_highestFileID m = 0 then 1 else m_highestFileID m) \<rparr>) =
          append_loop ?ls m"
      proof (cases "m_highestFileID m = 0")
        case True
        then have z: "m \<lparr> m_highestFileID := 0 \<rparr> = m" by (cases m) simp
        have "?ls \<noteq> []" using False by (simp add: rebased_ne)
        from append_loop_high [OF this finish_high [OF False True], of m] show ?thesis unfolding z if_P [OF True] .
      qed simp
      then show ?thesis
        unfolding finish_loop_entries rebased_def [unfolded Let_def, symmetric] Let_def by (simp split: prod.split)
    qed
    then show "run_op env (OpFinish ls) m d = outcome_of UIDs (withMapLock env (reload_then env ?body) m d)" for m d
      using False by (simp add: batch_Finish_def Let_def)
    show "shape env (OpFinish ls) m d (outcome_of UIDs (?body m d))"
      if "content_ok (content m)" "op_fits (OpFinish ls) (view (content m))" for m d
      using that False
      by (intro shape_append [OF srt]) (simp_all add: uids_layout layouts_fit_def rebased_def Let_def list_all_iff)
  qed
qed

lemma op_acts: "ext_sorts (e_ext_sort env) \<Longrightarrow> acts env op"
  using append_acts import_acts refs_acts set_refs_acts move_acts expunge_acts finish_acts guids_acts alloc_acts
    created_acts bump_acts compact_acts by (cases op) auto

end
