(* ===== verification/Mdbox_Shared.thy ===== *)
theory Mdbox_Shared
  imports Mdbox_Ops
begin

text \<open>
  Several handles on one map index.  In a world where no call fails, one operation of any handle, stale or not, is shown
  to act on the map the disk holds and to return what its abstract meaning returns; and so is every interleaving of
  operations of any number of handles.
\<close>

section \<open>One operation\<close>

text \<open>Room for one more operation: a lineage that does not wrap, a log below \<^verbatim>\<open>2^63\<close> bytes.\<close>

definition room :: "Vol \<Rightarrow> bool" where
  "room v \<longleftrightarrow> bh_Lineage (v_hdr v) + 1 \<noteq> 0 \<and> log_size v + 2 ^ 25 < 2 ^ 63"

text \<open>How an operation may change the volume: not at all, by one transaction, or by a new base and no log.\<close>

definition succ_vol :: "Env \<Rightarrow> Vol \<Rightarrow> Vol \<Rightarrow> bool" where
  "succ_vol env v v' \<longleftrightarrow>
     v' = v \<or> (\<exists>t. tx_wf t \<and> v' = append_vol env t v) \<or>
     v_ino v' = e_ino env \<and> v_log v' = None \<and> bh_Lineage (v_hdr v') = bh_Lineage (v_hdr v) + 1"

definition good :: "Env \<Rightarrow> Vol \<Rightarrow> Vol \<Rightarrow> Map \<Rightarrow> Map \<Rightarrow> Disk \<Rightarrow> bool" where
  "good env v v' m m' d' \<longleftrightarrow> vol_ok v' \<and> stores v' d' \<and> synced v' m' \<and> config m' = config m \<and> succ_vol env v v'"

lemma config_put [simp]: "config (put_content c m) = config m"
  by (simp add: config_def put_content_def)

lemma config_format: "config m = config m' \<Longrightarrow> m_format m = m_format m'"
  by (simp add: config_def)

lemma foldable_put:
  assumes "synced v m" and "m_format m = FormatV2" and "room v" and "content_ok c"
  shows "foldable v (put_content c m)"
  using assms count_bound [OF assms(4)] log_size_nonneg [of v]
  by (simp add: foldable_def synced_def based_def room_def) (simp add: content_ok_def)

lemma fold_vol_succ:
  "m_lineage m = bh_Lineage (v_hdr v) \<Longrightarrow> v_hdr v = v_hdr v0 \<Longrightarrow> succ_vol env v0 (fold_vol env v m False)"
  by (simp add: succ_vol_def fold_vol_def headerLocked_def fold_map_def)

lemma flush_good:
  assumes v: "vol_ok v" "stores v d" and q: "quiet env" and m: "synced v m" "m_format m = FormatV2" "room v"
    and c: "content_ok c"
  shows "\<exists>v' m' d'. flushLocked env (put_content c m) d = (None, m', d') \<and> good env v v' m m' d' \<and> vol_content v' = c"
proof -
  note f = foldable_put [OF m c]
  from flush_quiet [OF v q f] obtain m' d' where fl: "flushLocked env (put_content c m) d = (None, m', d')"
    "stores (fold_vol env v (put_content c m) False) d'" "synced (fold_vol env v (put_content c m) False) m'"
    "config m' = config m" by auto
  then show ?thesis
    using fold_vol_ok [OF v(1) f, of env False] fold_vol_content(1) [of env v "put_content c m" False]
    by (intro exI [of _ "fold_vol env v (put_content c m) False"])
      (use f in \<open>simp add: good_def fold_vol_succ foldable_def\<close>)
qed

lemma append_size:
  assumes "tx_wf t"
  shows "log_size (append_vol env t v) \<le> log_size v + 2 ^ 25"
proof -
  from tx_bytes_frame [OF assms] obtain h where h: "tx_bytes t = h @ padded (tx_payload t)" "length h = 8"
    "length (padded (tx_payload t)) \<le> 2 ^ 24" by blast
  have "log_size (append_vol env t v) \<le> log_size v + int LogHeaderSize + int (length (tx_bytes t))"
    by (auto simp: log_size_def append_vol_def vol_log_bytes_def split: option.splits)
  also have "\<dots> \<le> log_size v + 2 ^ 25" using h by (simp add: LogHeaderSize_def)
  finally show ?thesis .
qed

lemma append_room: "room v \<Longrightarrow> tx_wf t \<Longrightarrow> log_size (append_vol env t v) < 2 ^ 63"
  using append_size [of t env v] by (simp add: room_def)

lemma log_commit_quiet:
  assumes v: "vol_ok v" "stores v d" and q: "quiet env" and m: "synced v m" "m_format m = FormatV2" "room v"
    and t: "tx_wf t" and c: "content_ok (tx_step t (content m))"
  shows "\<exists>v' m' d'. log_commit env t (put_content (tx_step t (content m)) m) d = (None, m', d') \<and> good env v v' m m' d' \<and>
           vol_content v' = tx_step t (content m)"
proof -
  let ?m = "put_content (tx_step t (content m)) m" and ?v = "append_vol env t v"
  have vc: "vol_content v = content m" using m(1) by (simp add: synced_def)
  have ow: "log_owner v ?m" using m by (simp add: log_owner_def synced_def based_def)
  from write_tx_quiet [OF v(2) q ow t] obtain m1 d1 where w:
    "writeLogTxLocked env (tx_code t) (tx_payload t) ?m d = (Inr (), m1, d1)" "stores ?v d1"
    "m_logSize m1 = log_size ?v" "content m1 = tx_step t (content m)" "config m1 = config m" "based v m1 = based v ?m" by auto
  have b: "based v m1" using w(6) m(1) by (simp add: synced_def based_def)
  then have sy: "synced ?v m1" using w(3,4) vc by (simp add: synced_def)
  have ok: "vol_ok ?v" using append_vol_ok [OF v(1) t] c vc by simp
  have fd: "foldable ?v m1"
  proof -
    have "m_format m1 = FormatV2" using config_format [OF w(5)] m(2) by simp
    then show ?thesis
      using b c w(4) m(3) count_bound [OF c] append_room [OF m(3) t, of env]
      by (simp add: foldable_def based_def room_def) (metis content_fields content_ok_def)
  qed
  from rotate_quiet [OF ok w(2) q sy fd] obtain v' m' d' where r: "rotate env m1 d1 = (None, m', d')"
    "v' = ?v \<or> v' = fold_vol env ?v m1 False" "vol_ok v'" "stores v' d'" "synced v' m'" "vol_content v' = vol_content ?v"
    "config m' = config m1" by blast
  have "succ_vol env v ?v" using t by (auto simp: succ_vol_def)
  moreover have "succ_vol env v (fold_vol env ?v m1 False)" using fd by (intro fold_vol_succ) (simp_all add: foldable_def)
  ultimately have "good env v v' m m' d'" using r w(5) by (auto simp: good_def)
  then show ?thesis using w(1) r(1,6) vc by (auto simp: log_commit_def)
qed

text \<open>What is shown of every operation: it succeeds, returns what the specification returns, leaves a well-formed
  volume that holds the specified map, and a handle that has seen it.\<close>

definition refines :: "Env \<Rightarrow> map_op \<Rightarrow> Vol \<Rightarrow> Map \<Rightarrow> Disk \<Rightarrow> bool" where
  "refines env op v m d \<longleftrightarrow>
    (\<exists>r v' m' d'. run_op env op m d = (r, m', d') \<and> (r, view (vol_content v')) = spec op (view (vol_content v)) \<and>
       vol_ok v' \<and> stores v' d' \<and> stale v' m' \<and> config m' = config m \<and> succ_vol env v v')"

lemma synced_stale: "synced v m \<Longrightarrow> m_format m = FormatV2 \<Longrightarrow> stale v m"
  using synced_behind [of v m] by (auto simp: stale_def synced_def based_def)

lemma refinesI:
  assumes "run_op env op m d = (r, m', d')" and "good env v v' m m' d'" and "m_format m = FormatV2"
    and "(r, view (vol_content v')) = spec op (view (vol_content v))"
  shows "refines env op v m d"
proof -
  have "m_format m' = FormatV2" using config_format [of m' m] assms(2,3) by (simp add: good_def)
  then have "stale v' m'" using assms(2) by (intro synced_stale) (simp_all add: good_def)
  then show ?thesis unfolding refines_def using assms(1,2,4) by (auto simp: good_def)
qed

lemma refines_skip:
  assumes "run_op env op m d = (r, m, d)" and "vol_ok v" and "stores v d" and "stale v m"
    and "spec op (view (vol_content v)) = (r, view (vol_content v))"
  shows "refines env op v m d"
  unfolding refines_def using assms by (intro exI [of _ r] exI [of _ v] exI [of _ m] exI [of _ d]) (simp add: succ_vol_def)

lemma good_trans: "config m1 = config m \<Longrightarrow> good env v v' m1 m' d' \<Longrightarrow> good env v v' m m' d'"
  by (simp add: good_def)

lemma synced_content_ok: "vol_ok v \<Longrightarrow> synced v m \<Longrightarrow> content_ok (content m) \<and> content m = vol_content v \<and> m_loaded m"
  by (simp add: vol_ok_def synced_def based_def)

lemma op_refines:
  assumes v: "vol_ok v" "stores v d" and q: "quiet env" and m: "stale v m" and r: "room v" and f: "op_fits op (view (vol_content v))"
  shows "refines env op v m d"
proof -
  have fm: "m_format m = FormatV2" using m by (simp add: stale_def)
  have "ext_sorts (e_ext_sort env)" using q by (simp add: quiet_def)
  from op_acts [OF this, of op] show ?thesis unfolding acts_def
  proof (elim disjE exE conjE)
    fix x assume "\<forall>a. spec op a = (x, a)" "\<forall>m d. run_op env op m d = (x, m, d)"
    then show ?thesis by (intro refines_skip [OF _ v m]) simp_all
  next
    fix body assume run: "\<forall>m d. run_op env op m d = reloaded env body m d"
      and sh: "\<forall>m d. content_ok (content m) \<longrightarrow> m_loaded m \<longrightarrow> op_fits op (view (content m)) \<longrightarrow> shape env op m d (body m d)"
    from reload_vol [OF v q m] obtain m1 where l: "reloadLocked env m d = (None, m1, d)" "synced v m1" "config m1 = config m" by blast
    have f1: "m_format m1 = FormatV2" using config_format [OF l(3)] fm by simp
    from synced_content_ok [OF v(1) l(2)] have c: "content_ok (content m1)" "content m1 = vol_content v" "m_loaded m1" by auto
    have rb: "run_op env op m d = body m1 d" using run l(1) q by (simp add: reloaded_def quiet_def)
    have "shape env op m1 d (body m1 d)" using sh c f by simp
    then obtain x c1 where sp: "spec op (view (content m1)) = (x, view c1)" "content_ok c1" and
      b: "c1 = content m1 \<and> body m1 d = (x, m1, d) \<or>
          (\<exists>t g. tx_wf t \<and> c1 = tx_step t (content m1) \<and> body m1 d = ending x g (log_commit env t (put_content c1 m1) d)) \<or>
          body m1 d = ending x (\<lambda>m. m) (flushLocked env (put_content c1 m1) d)"
      unfolding shape_def by blast
    have "\<exists>v' m' d'. body m1 d = (x, m', d') \<and> good env v v' m1 m' d' \<and> vol_content v' = c1"
      using b
    proof (elim disjE exE conjE)
      assume "c1 = content m1" "body m1 d = (x, m1, d)"
      then show ?thesis using v l(2) c(2) by (auto simp: good_def succ_vol_def)
    next
      fix t g assume t: "tx_wf t" "c1 = tx_step t (content m1)" "body m1 d = ending x g (log_commit env t (put_content c1 m1) d)"
      from log_commit_quiet [OF v q l(2) f1 r t(1)] sp(2) t(2) obtain v' m' d' where
        "log_commit env t (put_content c1 m1) d = (None, m', d')" "good env v v' m1 m' d'" "vol_content v' = c1" by auto
      with t(3) show ?thesis by auto
    next
      assume fl: "body m1 d = ending x (\<lambda>m. m) (flushLocked env (put_content c1 m1) d)"
      from flush_good [OF v q l(2) f1 r sp(2)] fl show ?thesis by auto
    qed
    then obtain v' m' d' where g: "body m1 d = (x, m', d')" "good env v v' m1 m' d'" "vol_content v' = c1" by blast
    show ?thesis by (rule refinesI [OF _ good_trans [OF l(3) g(2)] fm]) (use rb g sp c(2) in simp_all)
  qed
qed

section \<open>The other handles\<close>

lemma behind_append:
  assumes "behind v m"
  shows "behind (append_vol env t v) m"
proof (cases "v_log v")
  case None
  then have "v_log (append_vol env t v) =
      Some \<lparr> l_seq = bh_Lineage (v_hdr v), l_stamp = word_of_int (e_now env div 10 ^ 9), l_old = [], l_new = [t] \<rparr>"
    by (simp add: append_vol_def)
  with None assms show ?thesis unfolding behind_def by (auto intro: exI [of _ "[]"])
next
  case (Some l)
  with assms obtain pre post where p: "l_new l = pre @ post" "content m = fold tx_step pre (base_content v)"
    "m_logSize m = int (length (map_log (bh_IndexID (v_hdr v)) (l_seq l) (l_stamp l) (l_old l @ pre))) \<or>
     m_logSize m = 0 \<and> l_old l = [] \<and> pre = []" "based v m"
    unfolding behind_def by auto
  have "v_log (append_vol env t v) = Some (l \<lparr> l_new := l_new l @ [t] \<rparr>)" using Some by (simp add: append_vol_def)
  with p show ?thesis unfolding behind_def by (intro conjI) (simp_all, intro exI [of _ pre], simp)
qed

lemma stale_append: "stale v m \<Longrightarrow> stale (append_vol env t v) m"
  using behind_append [of v m env t] by (auto simp: stale_def)

text \<open>What the file system owes the handles when a base is replaced: an inode no handle remembers, and record images
  that differ in their digest when they differ.\<close>

definition tells_apart :: "Env \<Rightarrow> Map list \<Rightarrow> Disk \<Rightarrow> Disk \<Rightarrow> bool" where
  "tells_apart env hs d d' \<longleftrightarrow>
     list_all (\<lambda>m. map_option fi_ino (m_baseInfo m) \<noteq> Some (e_ino env)) hs \<and>
     map_option bf_ino (d_base d) \<noteq> Some (e_ino env) \<and>
     (d_base d' = d_base d \<or>
      list_all (\<lambda>m. \<forall>f \<in> set_option (d_base d').
        digestRecords (drop baseHeaderLen (bf_bytes f)) = digestRecords (st_recs (m_st m)) \<longrightarrow>
        drop baseHeaderLen (bf_bytes f) = st_recs (m_st m)) hs)"

definition map_world :: "Env \<Rightarrow> Map list \<Rightarrow> Disk \<Rightarrow> Disk \<Rightarrow> bool" where
  "map_world env hs d d' \<longleftrightarrow> quiet env \<and> tells_apart env hs d d'"

lemma stale_succ:
  assumes v: "succ_vol env v v'" "stores v d" "stores v' d'" and w: "tells_apart env hs d d'" and m: "stale v m" "m \<in> set hs"
  shows "stale v' m"
  using v(1) unfolding succ_vol_def
proof (elim disjE exE conjE)
  assume i: "v_ino v' = e_ino env"
  have "m_baseInfo m \<noteq> Some (base_info (vol_file v'))"
    using w m(2) i by (auto simp: tells_apart_def list_all_iff base_info_def vol_file_def)
  moreover have "d_base d' \<noteq> d_base d"
    using w v(2,3) i by (auto simp: tells_apart_def stores_def vol_file_def)
  ultimately show ?thesis
    using w v(3) m by (auto simp: tells_apart_def list_all_iff stores_def stale_def vol_file_def)
qed (use m(1) stale_append in \<open>simp_all\<close>)

text \<open>Room for so many operations more.\<close>

definition capacity :: "nat \<Rightarrow> Vol \<Rightarrow> bool" where
  "capacity n v \<longleftrightarrow> unat (bh_Lineage (v_hdr v)) + n < 2 ^ 32 \<and> log_size v + (int n + 1) * 2 ^ 25 < 2 ^ 63"

lemma capacity_room: "capacity (Suc n) v \<Longrightarrow> room v"
  using word_room [of "bh_Lineage (v_hdr v)" n] by (auto simp: capacity_def room_def algebra_simps)

lemma capacity_succ:
  assumes "capacity (Suc n) v" and "succ_vol env v v'"
  shows "capacity n v'"
  using assms(2) unfolding succ_vol_def
proof (elim disjE exE conjE)
  fix t assume "tx_wf t" "v' = append_vol env t v"
  with append_size [of t env v] assms(1) show ?thesis by (auto simp: capacity_def algebra_simps)
next
  assume "v_log v' = None" "bh_Lineage (v_hdr v') = bh_Lineage (v_hdr v) + 1"
  moreover from this assms(1) word_room [of "bh_Lineage (v_hdr v)" n] log_size_nonneg [of v]
  have "unat (bh_Lineage (v_hdr v')) + n < 2 ^ 32" "log_size v' = 0" by (auto simp: capacity_def log_size_def)
  ultimately show ?thesis using assms(1) log_size_nonneg [of v] by (auto simp: capacity_def algebra_simps)
qed (use assms(1) in \<open>auto simp: capacity_def algebra_simps\<close>)

section \<open>Interleavings\<close>

text \<open>A run takes a list of steps, each an environment, the number of a handle and an operation of it.\<close>

fun interleave :: "('e \<Rightarrow> 'o \<Rightarrow> 'h \<Rightarrow> 'd \<Rightarrow> 'r \<times> 'h \<times> 'd) \<Rightarrow> ('e \<times> nat \<times> 'o) list \<Rightarrow> 'h list \<Rightarrow> 'd \<Rightarrow>
    'r list \<times> 'h list \<times> 'd" where
  "interleave run [] hs d = ([], hs, d)"
| "interleave run ((env, i, op) # steps) hs d =
    (case run env op (hs ! i) d of (r, m', d') \<Rightarrow>
       (case interleave run steps (hs[i := m']) d' of (rs, hs', d'') \<Rightarrow> (r # rs, hs', d'')))"

fun orderly :: "('e \<Rightarrow> 'h list \<Rightarrow> 'd \<Rightarrow> 'd \<Rightarrow> bool) \<Rightarrow> ('e \<Rightarrow> 'o \<Rightarrow> 'h \<Rightarrow> 'd \<Rightarrow> 'r \<times> 'h \<times> 'd) \<Rightarrow> ('e \<times> nat \<times> 'o) list \<Rightarrow>
    'h list \<Rightarrow> 'd \<Rightarrow> bool" where
  "orderly world run [] hs d \<longleftrightarrow> True"
| "orderly world run ((env, i, op) # steps) hs d \<longleftrightarrow>
     i < length hs \<and>
     (case run env op (hs ! i) d of (r, m', d') \<Rightarrow> world env hs d d' \<and> orderly world run steps (hs[i := m']) d')"

fun perform :: "('o \<Rightarrow> 'a \<Rightarrow> 'r \<times> 'a) \<Rightarrow> 'o list \<Rightarrow> 'a \<Rightarrow> 'r list \<times> 'a" where
  "perform spc [] a = ([], a)"
| "perform spc (op # ops) a = (case spc op a of (r, a') \<Rightarrow> (case perform spc ops a' of (rs, a'') \<Rightarrow> (r # rs, a'')))"

fun fits_all :: "('o \<Rightarrow> 'a \<Rightarrow> bool) \<Rightarrow> ('o \<Rightarrow> 'a \<Rightarrow> 'r \<times> 'a) \<Rightarrow> 'o list \<Rightarrow> 'a \<Rightarrow> bool" where
  "fits_all fits spc [] a \<longleftrightarrow> True"
| "fits_all fits spc (op # ops) a \<longleftrightarrow> fits op a \<and> fits_all fits spc ops (snd (spc op a))"

locale shared_object =
  fixes run :: "'e \<Rightarrow> 'o \<Rightarrow> 'h \<Rightarrow> 'd \<Rightarrow> 'r \<times> 'h \<times> 'd"
    and spc :: "'o \<Rightarrow> 'a \<Rightarrow> 'r \<times> 'a"
    and fits :: "'o \<Rightarrow> 'a \<Rightarrow> bool"
    and world :: "'e \<Rightarrow> 'h list \<Rightarrow> 'd \<Rightarrow> 'd \<Rightarrow> bool"
    and holds :: "nat \<Rightarrow> 'v \<Rightarrow> 'd \<Rightarrow> bool"
    and meaning :: "'v \<Rightarrow> 'a"
    and knows :: "'v \<Rightarrow> 'h \<Rightarrow> bool"
  assumes one: "holds (Suc n) v d \<Longrightarrow> list_all (knows v) hs \<Longrightarrow> m \<in> set hs \<Longrightarrow> fits op (meaning v) \<Longrightarrow>
      run env op m d = (r, m', d') \<Longrightarrow> world env hs d d' \<Longrightarrow>
      \<exists>v'. spc op (meaning v) = (r, meaning v') \<and> holds n v' d' \<and> knows v' m' \<and> list_all (knows v') hs"
begin

lemma interleaving_refines:
  assumes "holds (length steps) v d" and "list_all (knows v) hs" and "orderly world run steps hs d"
    and "fits_all fits spc (map (snd \<circ> snd) steps) (meaning v)"
  shows "\<exists>rs v' hs' d'. interleave run steps hs d = (rs, hs', d') \<and>
    perform spc (map (snd \<circ> snd) steps) (meaning v) = (rs, meaning v') \<and> holds 0 v' d' \<and> list_all (knows v') hs' \<and>
    length hs' = length hs"
  using assms
proof (induction steps arbitrary: v d hs)
  case (Cons s steps)
  obtain env i op where s: "s = (env, i, op)" by (cases s)
  obtain r m' d' where r: "run env op (hs ! i) d = (r, m', d')" by (metis prod.collapse)
  have o: "i < length hs" "world env hs d d'" "orderly world run steps (hs[i := m']) d'"
    using Cons.prems(3) s r by auto
  from one [OF _ Cons.prems(2) nth_mem [OF o(1)] _ r o(2)] Cons.prems(1,4) s obtain v' where
    v': "spc op (meaning v) = (r, meaning v')" "holds (length steps) v' d'" "knows v' m'" "list_all (knows v') hs" by auto
  have "list_all (knows v') (hs[i := m'])"
    using v'(3,4) set_update_subset_insert [of hs i m'] by (auto simp: list_all_iff)
  from Cons.IH [OF v'(2) this o(3)] Cons.prems(4) s v'(1) r show ?case by auto
qed auto

end

definition map_holds :: "nat \<Rightarrow> Vol \<Rightarrow> Disk \<Rightarrow> bool" where
  "map_holds n v d \<longleftrightarrow> vol_ok v \<and> stores v d \<and> capacity n v"

interpretation shared_map: shared_object run_op spec op_fits map_world map_holds "\<lambda>v. view (vol_content v)" stale
proof
  fix n v d hs m op env r m' d'
  assume h: "map_holds (Suc n) v d" and k: "list_all (stale v) hs" "m \<in> set hs" and f: "op_fits op (view (vol_content v))"
    and r: "run_op env op m d = (r, m', d')" and w: "map_world env hs d d'"
  have v: "vol_ok v" "stores v d" "capacity (Suc n) v" using h by (simp_all add: map_holds_def)
  have q: "quiet env" "tells_apart env hs d d'" using w by (simp_all add: map_world_def)
  have m: "stale v m" using k by (simp add: list_all_iff)
  from op_refines [OF v(1,2) q(1) m capacity_room [OF v(3)] f] r obtain v' where
    v': "(r, view (vol_content v')) = spec op (view (vol_content v))" "vol_ok v'" "stores v' d'" "stale v' m'" "succ_vol env v v'"
    by (auto simp: refines_def)
  moreover have "list_all (stale v') hs"
    using stale_succ [OF v'(5) v(2) v'(3) q(2)] k(1) by (simp add: list_all_iff)
  ultimately show "\<exists>v'. spec op (view (vol_content v)) = (r, view (vol_content v')) \<and> map_holds n v' d' \<and> stale v' m' \<and> list_all (stale v') hs"
    using capacity_succ [OF v(3) v'(5)] by (intro exI [of _ v']) (simp add: map_holds_def)
qed


section \<open>Handles on one disk\<close>

lemma orderly_quiet:
  assumes "list_all (\<lambda>(env, _). quiet env) steps" and "orderly tells_apart run_op steps hs d"
  shows "orderly map_world run_op steps hs d"
  using assms by (induction steps arbitrary: hs d) (auto simp: map_world_def split: prod.splits)


definition calm :: "nat \<Rightarrow> Env" where
  "calm ino = \<lparr> e_now = 10 ^ 9 * int ino, e_ino = ino, e_fails = (\<lambda>_. False), e_written = 0, e_lock = NoLocker,
     e_ext_sort = isort_by, e_entry_sort = (\<lambda>xs. xs) \<rparr>"

definition first_handle :: Map where
  "first_handle = \<lparr> m_st = \<lparr> st_recs = [] \<rparr>, m_loaded = True, m_format = FormatV2, m_onDisk = FormatV2, m_nextMapUID = 1,
     m_highestFileID = 0, m_rebuildCount = 0, m_createFileID = 0, m_createTime = 0, m_indexID = 7, m_lineage = 1,
     m_foldedLineage = 0, m_foldedOffset = 0, m_logLineage = 0, m_rotateSize = 0, m_logRotateSet = False,
     m_logRotateMinSize = 0, m_logRotateMaxSize = 0, m_logRotateMinAge = 0,
     m_baseInfo = Some \<lparr> fi_ino = 1, fi_size = int baseHeaderLen, fi_mtime = 0 \<rparr>, m_logSize = 0 \<rparr>"

definition first_vol :: Vol where
  "first_vol = \<lparr> v_ino = 1, v_mtime = 0, v_hdr = headerLocked first_handle, v_recs = [], v_log = None \<rparr>"

definition first_disk :: Disk where
  "first_disk = \<lparr> d_base = Some (vol_file first_vol), d_log = None \<rparr>"

definition one_record :: "Layout list" where
  "one_record = [\<lparr> rl_FileID = 3, rl_Offset = 0, rl_Size = 9, rl_GUID = zeros 16 \<rparr>]"

lemma calm_quiet: "quiet (calm i)"
  using isort_by_ext_sorts by (simp add: quiet_def calm_def)

lemma first_vol_ok: "vol_ok first_vol"
proof -
  have c: "content_ok (base_content first_vol)" "base_content first_vol = vol_content first_vol" by code_simp+
  then show ?thesis by (simp add: vol_ok_def) (simp add: first_vol_def headerLocked_def first_handle_def store_count_def)
qed

lemma first_stores: "stores first_vol first_disk"
  by (simp add: stores_def first_disk_def first_vol_def)

lemma first_synced: "synced first_vol first_handle"
  by code_simp

lemma first_stale: "stale first_vol first_handle"
  by (rule synced_stale [OF first_synced]) code_simp

lemma first_capacity: "capacity 4 first_vol"
  by (simp add: capacity_def log_size_def first_vol_def headerLocked_def first_handle_def)

definition four_steps :: "(Env \<times> nat \<times> map_op) list" where
  "four_steps = [(calm 2, 0, OpAppend one_record), (calm 3, 1, OpRefs [1] 1), (calm 4, 0, OpCompact),
     (calm 5, 1, OpAppend one_record)]"

lemma first_view: "view (vol_content first_vol) = \<lparr> a_map = (\<lambda>_. None), a_next = 1, a_high = 0, a_rebuild = 0, a_createFile = 0, a_createTime = 0 \<rparr>"
  by (simp add: view_def vol_content_def base_content_def first_vol_def headerLocked_def first_handle_def store_map_def
      each_def store_count_def)

lemma four_fits: "fits_all op_fits spec (map (snd \<circ> snd) four_steps) (view (vol_content first_vol))"
  by (simp add: first_view four_steps_def one_record_def spec_add_def layout_entry_def layouts_fit_def)

lemma four_performed:
  "fst (perform spec (map (snd \<circ> snd) four_steps) (view (vol_content first_vol))) = [UIDs [1], Done, Done, UIDs [2]]"
  by (simp add: first_view four_steps_def one_record_def spec_add_def layout_entry_def layouts_fit_def)

lemma four_orderly: "orderly tells_apart run_op four_steps [first_handle, first_handle] first_disk"
  by code_simp


end
