(* ===== verification/Mdbox_Crash.thy ===== *)
theory Mdbox_Crash
  imports Mdbox_Shared
begin

text \<open>
  Crashes and failed writes.  A log that ends in a part of a transaction, or in a part of its header, opens as if the
  part were not there.  Every operation, whatever calls of its writing part fail and wherever a write is cut off,
  leaves a disk that opens with the map from before the operation or from after it.  The last section shows two ways
  in which the code goes wrong later: after a torn tail, and after an update that failed half-way.
\<close>

section \<open>Torn tails\<close>

lemma torn_tx_ends:
  assumes t: "tx_wf t" and k: "k < length (tx_bytes t)"
  shows "ends_replay (take k (tx_bytes t))"
proof -
  from tx_bytes_frame [OF t] obtain h where h: "tx_bytes t = h @ padded (tx_payload t)" "length h = 8"
    "DecodeTxHeader h = Inr \<lparr> tx_Size = of_nat (8 + length (padded (tx_payload t))), tx_Type = tx_code t \<rparr>"
    "length (padded (tx_payload t)) \<le> 2 ^ 24" by blast
  let ?P = "padded (tx_payload t)"
  have n: "unat (of_nat (8 + length ?P) :: uint32) = 8 + length ?P" using h(4) by (intro unat_small) simp
  have "replay_loop log_layout (take k (tx_bytes t)) pos m = (pos, m)" for pos m
  proof (cases "k < 8")
    case False
    then have tk: "take k (tx_bytes t) = h @ take (k - 8) ?P" "k - 8 < length ?P" using h(1,2) k by simp_all
    then have r: "ReadFull 8 (take k (tx_bytes t)) = Inr (h, take (k - 8) ?P)"
      "\<exists>x. ReadFull (length ?P) (take (k - 8) ?P) = Inl x" using h(2) by (simp_all add: ReadFull_def)
    then show ?thesis
      by (subst replay_loop.simps) (use h(3) n in \<open>auto simp: Let_def nat_add_distrib split: sum.splits\<close>)
  qed (simp add: replay_end)
  then show ?thesis by (simp add: ends_replay_def)
qed

lemma torn_header:
  assumes "lh_MajorVersion h = LogMajorVersion" and "lh_HdrSize h = 40" and k: "k < LogHeaderSize"
  shows "\<exists>x. DecodeLogHeader (take k (LogHeader_EncodeBytes h)) = Inl x"
proof (cases "k < 4")
  case True
  then show ?thesis by (auto simp: DecodeLogHeader_def ReadFull_def)
next
  case False
  let ?b = "LogHeader_EncodeBytes h"
  have l: "length ?b = 40" by (simp add: LogHeaderSize_def)
  have k': "k < 40" using k by (simp add: LogHeaderSize_def)
  have p: "dec8 (take 4 ?b) 0 = LogMajorVersion" "dec16 (take 4 ?b) 2 = 40"
    using assms log_header_fields(1,3) [of h] dec_take(1) [of 0 4 ?b] dec_take(2) [of 2 4 ?b] by simp_all
  have r: "ReadFull 4 (take k ?b) = Inr (take 4 ?b, drop 4 (take k ?b))" "\<exists>x. ReadFull 36 (drop 4 (take k ?b)) = Inl x"
    using False l k' by (auto simp: ReadFull_def min_def)
  then show ?thesis
    unfolding DecodeLogHeader_def r(1) sum.case prod.case Let_def using p by (auto simp: LogHeaderMinSize_def)
qed

text \<open>A disk on which the last write of the log was cut off: of its header, or of a transaction.\<close>

definition torn :: "Vol \<Rightarrow> Disk \<Rightarrow> bool" where
  "torn v d \<longleftrightarrow> d_base d = Some (vol_file v) \<and>
    (case v_log v of
       None \<Rightarrow> \<exists>s t k. k < LogHeaderSize \<and> d_log d = Some (take k (LogHeader_EncodeBytes (NewLogHeader (bh_IndexID (v_hdr v)) s t)))
     | Some l \<Rightarrow> \<exists>t k. tx_wf t \<and> k < length (tx_bytes t) \<and> d_log d = Some (vol_log_bytes v l @ take k (tx_bytes t)))"

lemma load_base:
  assumes v: "vol_ok v" "d_base d = Some (vol_file v)" and q: "quiet env" and f: "m_format m = FormatV2"
  shows "\<exists>m1. load_existing env m d = applyLogTailLocked env m1 d \<and> based v m1 \<and> content m1 = base_content v \<and> config m1 = config m"
proof -
  let ?d = "d \<lparr> d_log := map_option (vol_log_bytes v) (v_log v) \<rparr>"
  have rd: "readBaseLocked env m ?d = readBaseLocked env m d"
    by (simp add: readBaseLocked_def stat_base_def Let_def split: option.split sum.split)
  have "stores v ?d" using v(2) by (simp add: stores_def)
  from read_vol [OF v(1) this q, of m] obtain m1 where m1: "readBaseLocked env m d = (None, m1)" "based v m1"
    "content m1 = base_content v" "config m1 = config m" unfolding rd by blast
  have "convertToConfiguredLocked env m1 d = (None, m1, d)"
    using m1(2) f config_format [OF m1(4)] by (simp add: convertToConfiguredLocked_def based_def)
  then have "load_existing env m d = applyLogTailLocked env m1 d"
    by (simp add: load_existing_def m1(1) isForeignBase_def)
  with m1(2-4) show ?thesis by blast
qed

lemma load_vol:
  assumes v: "vol_ok v" "stores v d \<or> torn v d" and q: "quiet env" and f: "m_format m = FormatV2"
  shows "\<exists>m'. load_existing env m d = (None, m', d) \<and> content m' = vol_content v \<and> based v m'"
proof -
  have db: "d_base d = Some (vol_file v)" using v(2) by (auto simp: stores_def torn_def)
  from load_base [OF v(1) db q f] obtain m1 where
    m1: "load_existing env m d = applyLogTailLocked env m1 d" "based v m1" "content m1 = base_content v" by blast
  show ?thesis
  proof (cases "torn v d \<and> v_log v = None")
    case True
    then obtain s t k where k: "k < LogHeaderSize"
      "d_log d = Some (take k (LogHeader_EncodeBytes (NewLogHeader (bh_IndexID (v_hdr v)) s t)))" by (auto simp: torn_def)
    from torn_header [OF _ _ k(1), of "NewLogHeader (bh_IndexID (v_hdr v)) s t"]
    have "\<exists>n. logIdentityLocked env d = Inr (0, n)"
      using k(2) q by (auto simp: logIdentityLocked_def quiet_def NewLogHeader_def LogHeaderSize_def)
    then have "applyLogTailLocked env m1 d = (None, m1 \<lparr> m_logSize := 0 \<rparr>, d)"
      by (auto simp: applyLogTailLocked_def replayFromPersistedLocked_def)
    then show ?thesis using m1 True by (auto simp: vol_content_def content_def based_def)
  next
    case False
    from v(2) have "\<exists>z. ends_replay z \<and> d_log d = map_option (\<lambda>l. vol_log_bytes v l @ z) (v_log v)"
    proof
      assume "stores v d" then show ?thesis using ends_replay_Nil by (auto simp: stores_def intro: exI [of _ "[]"])
    next
      assume "torn v d" with False show ?thesis by (auto simp: torn_def torn_tx_ends)
    qed
    then obtain z where "ends_replay z" "d_log d = map_option (\<lambda>l. vol_log_bytes v l @ z) (v_log v)" by blast
    from apply_tail [OF v(1) this(2,1) q m1(2,3)] m1(1) show ?thesis by (auto simp: synced_def)
  qed
qed

section \<open>Operations whose writes fail\<close>

text \<open>Which calls may fail: opening and writing the log, writing and renaming the base, removing the log, and the
  \<^verbatim>\<open>stat\<close> calls whose failure the code ignores.  A write may leave any prefix of what it was to write.\<close>

definition write_faults :: "Env \<Rightarrow> bool" where
  "write_faults env \<longleftrightarrow> ext_sorts (e_ext_sort env) \<and>
     (\<forall>c. e_fails env c \<longrightarrow> c \<in> {OpenLogAppend, WriteLogHeader, WriteLogTx, StatLogTx, WriteBaseTmp, RenameBase,
        RemoveFoldedLog, StatBaseFlush, StatBaseAge})"

definition soothed :: "Env \<Rightarrow> Env" where
  "soothed env = env \<lparr> e_fails := (\<lambda>_. False), e_lock := NoLocker \<rparr>"

lemma soothed_quiet: "write_faults env \<Longrightarrow> quiet (soothed env)"
  by (simp add: soothed_def quiet_def write_faults_def)

lemma write_faults_reads:
  assumes "write_faults env"
  shows "\<not> e_fails env ReadBase" "\<not> e_fails env StatBaseRead" "\<not> e_fails env PeekBase" "\<not> e_fails env StatBaseReload"
    "\<not> e_fails env StatLogReload" "\<not> e_fails env OpenLogIdentity" "\<not> e_fails env StatLogIdentity"
    "\<not> e_fails env OpenLogReplay" "\<not> e_fails env SeekLogReplay" "\<not> e_fails env RemoveStaleLog" "\<not> e_fails env StatLogAppend"
  using assms by (auto simp: write_faults_def)

lemma soothed_reads:
  assumes "write_faults env"
  shows "readBaseLocked env m d = readBaseLocked (soothed env) m d" and "peekHeaderLocked env d = peekHeaderLocked (soothed env) d"
    and "logIdentityLocked env d = logIdentityLocked (soothed env) d"
    and "replayLogInnerLocked env k m d = replayLogInnerLocked (soothed env) k m d"
    and "stat_base env StatBaseReload d = stat_base (soothed env) StatBaseReload d"
    and "stat_log env StatLogReload d = stat_log (soothed env) StatLogReload d"
  using write_faults_reads [OF assms]
  by (simp_all add: readBaseLocked_def peekHeaderLocked_def logIdentityLocked_def replayLogInnerLocked_def stat_base_def
      stat_log_def soothed_def Let_def split: option.split sum.split)

lemma soothed_tail:
  assumes "write_faults env"
  shows "applyLogTailLocked env m d = applyLogTailLocked (soothed env) m d"
proof -
  have "replayFromPersistedLocked env m d = replayFromPersistedLocked (soothed env) m d"
    unfolding replayFromPersistedLocked_def soothed_reads [OF assms] ..
  moreover have "e_fails env RemoveStaleLog = e_fails (soothed env) RemoveStaleLog"
    using write_faults_reads(10) [OF assms] by (simp add: soothed_def)
  ultimately show ?thesis unfolding applyLogTailLocked_def by simp
qed

lemma reload_soothed:
  assumes "write_faults env"
  shows "reloadLocked env m d = reloadLocked (soothed env) m d"
  unfolding reloadLocked_def soothed_reads [OF assms] soothed_tail [OF assms] ..

text \<open>A disk from which a map with given records can be opened.\<close>

definition recovers :: "Content \<Rightarrow> Disk \<Rightarrow> bool" where
  "recovers c d \<longleftrightarrow> (\<exists>v. vol_ok v \<and> (stores v d \<or> torn v d) \<and> vol_content v = c)"

lemma load_recovers:
  "recovers c d \<Longrightarrow> quiet env \<Longrightarrow> m_format m = FormatV2 \<Longrightarrow> \<exists>m'. load_existing env m d = (None, m', d) \<and> content m' = c"
  using load_vol unfolding recovers_def by blast

lemma stores_recovers: "vol_ok v \<Longrightarrow> stores v d \<Longrightarrow> recovers (vol_content v) d"
  by (auto simp: recovers_def)

text \<open>The volume once its log has a header.\<close>

definition opened_vol :: "Env \<Rightarrow> Vol \<Rightarrow> Vol" where
  "opened_vol env v =
     v \<lparr> v_log := Some (case v_log v of
           None \<Rightarrow> \<lparr> l_seq = bh_Lineage (v_hdr v), l_stamp = word_of_int (e_now env div 10 ^ 9), l_old = [], l_new = [] \<rparr>
         | Some l \<Rightarrow> l) \<rparr>"

lemma opened_vol_fields:
  "vol_content (opened_vol env v) = vol_content v" "vol_file (opened_vol env v) = vol_file v"
  "\<exists>l. v_log (opened_vol env v) = Some l \<and> vol_log_bytes (opened_vol env v) l = opened_log env v"
  by (auto simp: opened_vol_def vol_content_def base_content_def vol_file_def opened_log_def vol_log_bytes_def split: option.splits)

lemma opened_vol_ok: "vol_ok v \<Longrightarrow> vol_ok (opened_vol env v)"
proof -
  assume v: "vol_ok v"
  have "log_ok (opened_vol env v) l" if "v_log (opened_vol env v) = Some l" for l
    using that v by (cases "v_log v") (auto simp: opened_vol_def log_ok_def vol_ok_def)
  moreover have "base_content (opened_vol env v) = base_content v" "v_hdr (opened_vol env v) = v_hdr v"
    "v_recs (opened_vol env v) = v_recs v" by (simp_all add: opened_vol_def base_content_def)
  ultimately show ?thesis using v by (simp add: vol_ok_def opened_vol_fields)
qed

lemma opened_stores:
  assumes "d_base d = Some (vol_file v)" and "d_log d = Some (opened_log env v)"
  shows "stores (opened_vol env v) d"
  using opened_vol_fields(3) [of env v] assms by (auto simp: stores_def opened_vol_fields(2))

lemma open_log_faults:
  assumes v: "vol_ok v" "stores v d" and w: "write_faults env" and m: "log_owner v m" and o: "openLogLocked env m d = (r, m', d')"
  shows "(\<exists>x. r = Inl x) \<and> recovers (vol_content v) d' \<or>
    r = Inr () \<and> d_base d' = Some (vol_file v) \<and> d_log d' = Some (opened_log env v) \<and>
    (\<exists>s k. m' = m \<lparr> m_logLineage := s, m_logSize := k \<rparr>)"
proof (cases "v_log v")
  case (Some l)
  with o v m vol_log_ne [of v l] stores_recovers [OF v] show ?thesis
    by (auto simp: openLogLocked_def stores_def Let_def opened_log_def split: if_splits
        intro!: exI [of _ "m_logLineage m"] exI [of _ "m_logSize m"])
next
  case None
  let ?h = "NewLogHeader (bh_IndexID (v_hdr v)) (bh_Lineage (v_hdr v)) (word_of_int (e_now env div 10 ^ 9))"
  have lg: "opened_log env v = LogHeader_EncodeBytes ?h" using None by (simp add: opened_log_def map_log_def)
  have f: "m_format m \<noteq> FormatV1" using m by (simp add: log_owner_def FormatV1_def FormatV2_def)
  have d: "d_log d = None" "d_base d = Some (vol_file v)" using v(2) None by (simp_all add: stores_def)
  have rc: "recovers (vol_content v) (d \<lparr> d_log := Some (take k (LogHeader_EncodeBytes ?h)) \<rparr>)" (is "recovers _ ?d") for k
  proof (cases "k < LogHeaderSize")
    case True
    then have "torn v ?d" using None d unfolding torn_def by auto
    then show ?thesis using v(1) by (auto simp: recovers_def)
  next
    case False
    then have "stores (opened_vol env v) ?d" using d by (intro opened_stores) (simp_all add: lg)
    then show ?thesis using stores_recovers [OF opened_vol_ok [OF v(1)]] by (auto simp: opened_vol_fields)
  qed
  show ?thesis
    using o d f m rc write_faults_reads(11) [OF w] stores_recovers [OF v]
    by (auto simp: openLogLocked_def Let_def log_header_encodes lg log_owner_def split: if_splits)
qed

lemma write_tx_faults:
  assumes v: "vol_ok v" "stores v d" and w: "write_faults env" and m: "log_owner v m" and t: "tx_wf t"
    and c: "content_ok (tx_step t (vol_content v))"
    and o: "writeLogTxLocked env (tx_code t) (tx_payload t) m d = (r, m', d')"
  shows "(\<exists>x. r = Inl x) \<and> (recovers (vol_content v) d' \<or> recovers (tx_step t (vol_content v)) d') \<or>
    r = Inr () \<and> stores (append_vol env t v) d' \<and> (\<exists>s k. m' = m \<lparr> m_logLineage := s, m_logSize := k \<rparr>)"
proof -
  obtain r1 m1 d1 where op: "openLogLocked env m d = (r1, m1, d1)" by (metis prod.collapse)
  from open_log_faults [OF v w m op] show ?thesis
  proof (elim disjE conjE exE)
    fix x assume "r1 = Inl x" "recovers (vol_content v) d1"
    with o op show ?thesis by (auto simp: writeLogTxLocked_def)
  next
    fix s k assume r1: "r1 = Inr ()" "m1 = m \<lparr> m_logLineage := s, m_logSize := k \<rparr>"
      and d1: "d_base d1 = Some (vol_file v)" "d_log d1 = Some (opened_log env v)"
    have e: "encMapLogRec (tx_code t) (tx_payload t) = Inr (tx_bytes t)" using tx_bytes_frame [OF t] by blast
    have dd: "d1 \<lparr> d_log := b \<rparr> = d \<lparr> d_log := b \<rparr>" for b using d1(1) v(2) by (cases d1; cases d) (simp add: stores_def)
    have st: "stores (append_vol env t v) (d1 \<lparr> d_log := Some (opened_log env v @ tx_bytes t) \<rparr>)"
      unfolding dd by (rule stores_append [OF v(2)])
    have tn: "recovers (vol_content v) (d1 \<lparr> d_log := Some (opened_log env v @ take n (tx_bytes t)) \<rparr>) \<or>
        recovers (tx_step t (vol_content v)) (d1 \<lparr> d_log := Some (opened_log env v @ take n (tx_bytes t)) \<rparr>)" for n
    proof (cases "n < length (tx_bytes t)")
      case True
      then have "torn (opened_vol env v) (d1 \<lparr> d_log := Some (opened_log env v @ take n (tx_bytes t)) \<rparr>)"
        using opened_vol_fields(2,3) [of env v] d1(1) t by (auto simp: torn_def intro!: exI [of _ t])
      then show ?thesis using opened_vol_ok [OF v(1)] opened_vol_fields(1) unfolding recovers_def by blast
    next
      case False
      then show ?thesis using stores_recovers [OF append_vol_ok [OF v(1) t c, of env] st] by simp
    qed
    have "d_log d1 = Some (opened_log env v)" by (rule d1(2))
    then show ?thesis
      using o tn st by (auto simp: writeLogTxLocked_def op r1 e Let_def split: if_splits option.splits)
  qed
qed

lemma flush_faults:
  assumes v: "vol_ok v" "stores v d" and m: "foldable v m" and fl: "flushLocked env m d = (r, m', d')"
  shows "recovers (content m) d' \<or> r \<noteq> None \<and> recovers (vol_content v) d'"
proof -
  have "recovers (content m) d'" if "stores (fold_vol env v m k) d'" for k
    using stores_recovers [OF fold_vol_ok [OF v(1) m] that] by (simp add: fold_vol_content)
  with flush_outcomes [OF v(2) m fl] stores_recovers [OF v] show ?thesis by blast
qed

lemma room_append: "room v \<Longrightarrow> tx_wf t \<Longrightarrow> log_size (append_vol env t v) < 2 ^ 63 \<and> bh_Lineage (v_hdr v) + 1 \<noteq> 0"
  using append_room [of v t env] by (simp add: room_def)

lemma log_commit_faults:
  assumes v: "vol_ok v" "stores v d" and w: "write_faults env" and m: "synced v m" "m_format m = FormatV2" "room v"
    and t: "tx_wf t" and c: "content_ok (tx_step t (content m))"
    and l: "log_commit env t (put_content (tx_step t (content m)) m) d = (r, m', d')"
  shows "recovers (tx_step t (content m)) d' \<or> r \<noteq> None \<and> recovers (content m) d'"
proof -
  let ?m = "put_content (tx_step t (content m)) m" and ?v = "append_vol env t v"
  have vc: "vol_content v = content m" using m(1) by (simp add: synced_def)
  have ow: "log_owner v ?m" using m by (simp add: log_owner_def synced_def based_def put_content_def)
  have c': "content_ok (tx_step t (vol_content v))" using c vc by simp
  note ok = append_vol_ok [OF v(1) t c', of env]
  obtain r1 m1 d1 where wr: "writeLogTxLocked env (tx_code t) (tx_payload t) ?m d = (r1, m1, d1)" by (metis prod.collapse)
  from write_tx_faults [OF v w ow t c' wr] show ?thesis
  proof (elim disjE conjE exE)
    fix s k assume a: "r1 = Inr ()" "stores ?v d1" "m1 = ?m \<lparr> m_logLineage := s, m_logSize := k \<rparr>"
    have f: "foldable ?v m1"
      using m(1,2) room_append [OF m(3) t, of env] count_bound [OF c] c
      by (simp add: foldable_def a(3) put_content_def synced_def based_def content_def)
         (simp add: content_ok_def)
    have cm: "content m1 = tx_step t (content m)" by (simp add: a(3) content_def put_content_def)
    have rt: "rotate env m1 d1 = (r, m', d')" using l wr a(1) by (simp add: log_commit_def)
    show ?thesis
    proof (cases "shouldRotateLocked env m1 d1")
      case True
      with rt have "flushLocked env m1 d1 = (r, m', d')" by (simp add: rotate_def)
      from flush_faults [OF ok a(2) f this] show ?thesis by (auto simp: cm vc)
    next
      case False
      with rt stores_recovers [OF ok a(2)] show ?thesis by (simp add: rotate_def vc)
    qed
  qed (use l wr vc in \<open>auto simp: log_commit_def\<close>)
qed

lemma shape_survives:
  assumes v: "vol_ok v" "stores v d" and w: "write_faults env" and m: "synced v m" "m_format m = FormatV2" "room v"
    and sh: "shape env op m d (r, m', d')"
  shows "\<exists>c. recovers c d' \<and> (view c = snd (spec op (view (content m))) \<or> (\<exists>x. r = Failed x) \<and> c = content m)"
proof -
  from sh obtain x c where sp: "spec op (view (content m)) = (x, view c)" "content_ok c" and
    b: "c = content m \<and> (r, m', d') = (x, m, d) \<or>
        (\<exists>t g. tx_wf t \<and> c = tx_step t (content m) \<and> (r, m', d') = ending x g (log_commit env t (put_content c m) d)) \<or>
        (r, m', d') = ending x (\<lambda>m. m) (flushLocked env (put_content c m) d)"
    unfolding shape_def by blast
  have vc: "vol_content v = content m" using m(1) by (simp add: synced_def)
  have en: "\<exists>e mm. y = (e, mm, d') \<and> (e \<noteq> None \<longrightarrow> (\<exists>x. r = Failed x))" if "(r, m', d') = ending x g y" for g y
    using that by (cases y; cases "fst y") auto
  from b show ?thesis
  proof (elim disjE exE conjE)
    assume "c = content m" "(r, m', d') = (x, m, d)"
    then show ?thesis using stores_recovers [OF v] sp(1) vc by auto
  next
    fix t g assume t: "tx_wf t" "c = tx_step t (content m)" "(r, m', d') = ending x g (log_commit env t (put_content c m) d)"
    from en [OF t(3)] obtain e mm where e: "log_commit env t (put_content c m) d = (e, mm, d')" "e \<noteq> None \<longrightarrow> (\<exists>x. r = Failed x)" by blast
    have "content_ok (tx_step t (content m))" using sp(2) t(2) by simp
    from log_commit_faults [OF v w m t(1) this e(1) [unfolded t(2)]] e(2) t(2) sp(1) show ?thesis by auto
  next
    assume fl: "(r, m', d') = ending x (\<lambda>m. m) (flushLocked env (put_content c m) d)"
    from en [OF this] obtain e mm where e: "flushLocked env (put_content c m) d = (e, mm, d')" "e \<noteq> None \<longrightarrow> (\<exists>x. r = Failed x)" by blast
    from flush_faults [OF v foldable_put [OF m sp(2)] e(1)] e(2) sp(1) vc show ?thesis by auto
  qed
qed


definition cut_off :: "nat \<Rightarrow> Env" where
  "cut_off n = (calm 2) \<lparr> e_fails := (\<lambda>c. c = WriteLogTx), e_written := n \<rparr>"

definition new_handle :: Map where
  "new_handle = \<lparr> m_st = \<lparr> st_recs = [] \<rparr>, m_loaded = False, m_format = FormatV2, m_onDisk = [], m_nextMapUID = 0,
     m_highestFileID = 0, m_rebuildCount = 0, m_createFileID = 0, m_createTime = 0, m_indexID = 0, m_lineage = 0,
     m_foldedLineage = 0, m_foldedOffset = 0, m_logLineage = 0, m_rotateSize = 0, m_logRotateSet = False,
     m_logRotateMinSize = 0, m_logRotateMaxSize = 0, m_logRotateMinAge = 0, m_baseInfo = None, m_logSize = 0 \<rparr>"

lemma cut_off_faults: "write_faults (cut_off n)"
  using isort_by_ext_sorts by (simp add: write_faults_def cut_off_def calm_def)

lemma first_room: "room first_vol"
  by (simp add: room_def log_size_def first_vol_def headerLocked_def first_handle_def)

lemma one_fits: "op_fits (OpAppend one_record) (view (vol_content first_vol))"
  by (simp add: first_view one_record_def layouts_fit_def)

lemma cut_off_append: "fst (run_op (cut_off 20) (OpAppend one_record) first_handle first_disk) = Failed (IOError WriteLogTx)"
  by code_simp


section \<open>What the code loses\<close>

text \<open>Bytes after a torn transaction belong to it as far as its size field reaches.\<close>

lemma torn_swallows:
  assumes t: "tx_wf t" and k: "4 \<le> k" "k + length r < length (tx_bytes t)"
  shows "ends_replay (take k (tx_bytes t) @ r)" 
proof -
  from tx_bytes_frame [OF t] obtain h where h: "tx_bytes t = h @ padded (tx_payload t)" "length h = 8"
    "DecodeTxHeader h = Inr \<lparr> tx_Size = of_nat (8 + length (padded (tx_payload t))), tx_Type = tx_code t \<rparr>"
    "length (padded (tx_payload t)) \<le> 2 ^ 24" by blast
  let ?P = "padded (tx_payload t)"
  have n: "unat (of_nat (8 + length ?P) :: uint32) = 8 + length ?P" using h(4) by (intro unat_small) simp
  define z where "z = take k (tx_bytes t) @ r"
  have "replay_loop log_layout z pos m = (pos, m)" for pos m
  proof (cases "length z < 8")
    case False
    have lz: "length z < 8 + length ?P" using k h(1,2) by (simp add: z_def)
    have "take 4 (take 8 z) = take 4 h" using k(1) h(1,2) by (simp add: min_def z_def)
    then have "dec32 (take 8 z) 0 = dec32 h 0" unfolding dec32_def sub_bytes_def by simp
    then have "DecodeTxHeader (take 8 z) = Inr \<lparr> tx_Size = of_nat (8 + length ?P), tx_Type = dec32 (take 8 z) 4 \<rparr>"
      using h(2,3) False by (auto simp: DecodeTxHeader_def Let_def split: if_splits)
    moreover have "ReadFull 8 z = Inr (take 8 z, drop 8 z)" "\<exists>x. ReadFull (length ?P) (drop 8 z) = Inl x"
      using False lz by (auto simp: ReadFull_def)
    ultimately show ?thesis
      by (subst replay_loop.simps) (use n in \<open>auto simp: Let_def nat_add_distrib split: sum.splits\<close>)
  qed (simp add: replay_end)
  then show ?thesis by (simp add: ends_replay_def z_def)
qed

lemma load_tail:
  assumes v: "vol_ok v" "d_base d = Some (vol_file v)" and l: "v_log v = Some l" "d_log d = Some (vol_log_bytes v l @ z)"
    and z: "ends_replay z" and q: "quiet env" and f: "m_format m = FormatV2"
  shows "\<exists>m'. load_existing env m d = (None, m', d) \<and> synced v m' \<and> config m' = config m"
proof -
  from load_base [OF v q f] obtain m1 where m1: "load_existing env m d = applyLogTailLocked env m1 d" "based v m1"
    "content m1 = base_content v" "config m1 = config m" by blast
  from apply_tail [OF v(1) _ z q m1(2,3)] l m1(1,4) show ?thesis by auto
qed

text \<open>A log too short to be folded, for a handle of this configuration.\<close>

definition no_fold :: "Map \<Rightarrow> nat \<Rightarrow> bool" where
  "no_fold m n \<longleftrightarrow> logRotateMinSizeOrDefault m = 0 \<or>
     int n < logRotateMinSizeOrDefault m \<and> int n \<le> logRotateMaxSizeOrDefault m"

lemma no_fold_cong: "config m' = config m \<Longrightarrow> no_fold m' n = no_fold m n"
  by (simp add: no_fold_def config_def logRotateMinSizeOrDefault_def logRotateMaxSizeOrDefault_def)

lemma no_fold_config: "config m' = config m \<Longrightarrow> no_fold m n \<Longrightarrow> m_logSize m' = int n \<Longrightarrow> \<not> shouldRotateLocked env m' d"
  by (auto simp: no_fold_def config_def shouldRotateLocked_def Let_def logRotateMinSizeOrDefault_def logRotateMaxSizeOrDefault_def)

lemma reload_torn:
  assumes v: "vol_ok v" "d_base d = Some (vol_file v)" and l: "v_log v = Some l" "d_log d = Some (vol_log_bytes v l @ z)"
    and z: "ends_replay z" and q: "quiet env" and m: "synced v m"
  shows "reloadLocked env m d = (None, m, d)"
proof -
  let ?L = "\<lambda>ts. map_log (bh_IndexID (v_hdr v)) (l_seq l) (l_stamp l) ts"
  have sz: "m_logSize m = int (length (?L (l_old l @ l_new l)))"
    using m l(1) by (simp add: synced_def log_size_def vol_log_bytes_def)
  have log: "d_log d = Some (?L ((l_old l @ l_new l) @ []) @ z)" using l(2) by (simp add: vol_log_bytes_def)
  have i: "m_indexID m = bh_IndexID (v_hdr v)" using m by (simp add: synced_def based_def)
  have "replayLogInnerLocked env (m_logSize m) m d = ((None, m_logSize m), m)"
    using replay_inner [OF q log z i, of "m_logSize m"] sz by simp
  moreover have "sameBaseLocked m (stat_base env StatBaseReload d)" "m_loaded m"
    using m q v(2) by (simp_all add: sameBase_iff stat_base_def quiet_def synced_def based_def)
  moreover have "stat_log env StatLogReload d = Some (m_logSize m + int (length z))"
    using q l(2) sz by (simp add: stat_log_def quiet_def vol_log_bytes_def)
  ultimately show ?thesis by (simp add: reloadLocked_def Let_def)
qed

lemma append_torn:
  assumes v: "vol_ok v" "d_base d = Some (vol_file v)" and l: "v_log v = Some l" "d_log d = Some (vol_log_bytes v l @ z)"
    and z: "ends_replay z" and q: "quiet env" and m: "synced v m" and ls: "ls \<noteq> []" "layouts_fit ls (view (vol_content v))"
    and r: "no_fold m (length (vol_log_bytes v l @ z @ tx_bytes (AppendTx (layout_entries (c_next (vol_content v)) ls))))"
  shows "\<exists>m'. AppendRecords env ls m d = (Inr (map (\<lambda>i. c_next (vol_content v) + of_nat i) [0..<length ls]), m',
    d \<lparr> d_log := Some (vol_log_bytes v l @ z @ tx_bytes (AppendTx (layout_entries (c_next (vol_content v)) ls))) \<rparr>)"
proof -
  from synced_content_ok [OF v(1) m] have c: "content_ok (content m)" "content m = vol_content v" by auto
  have nx: "m_nextMapUID m = c_next (vol_content v)" using arg_cong [OF c(2), of c_next] by simp
  let ?t = "AppendTx (layout_entries (c_next (vol_content v)) ls)"
  let ?m = "put_content (tx_step ?t (content m)) m"
  define b where "b = vol_log_bytes v l @ z @ tx_bytes ?t"
  have srt: "ext_sorts (e_ext_sort env)" using q by (simp add: quiet_def)
  note ac = append_commits [OF srt c(1) _ ls(1), unfolded c(2) [symmetric] nx, OF ls(2) [unfolded c(2) [symmetric]]]
  have e: "encMapLogRec (tx_code ?t) (tx_payload ?t) = Inr (tx_bytes ?t)" using tx_bytes_frame ac(2) unfolding nx c(2) by blast
  have "openLogLocked env ?m d = (Inr (), ?m, d)"
    using q l(2) vol_log_ne [of v l] by (cases d) (simp add: openLogLocked_def quiet_def Let_def)
  then have w: "writeLogTxLocked env (tx_code ?t) (tx_payload ?t) ?m d =
      (Inr (), ?m \<lparr> m_logSize := int (length b) \<rparr>, d \<lparr> d_log := Some b \<rparr>)"
    using q l(2) e by (simp add: writeLogTxLocked_def quiet_def Let_def stat_log_def b_def)
  have nr: "\<not> shouldRotateLocked env (?m \<lparr> m_logSize := int (length b) \<rparr>) (d \<lparr> d_log := Some b \<rparr>)"
    by (rule no_fold_config [OF _ r [folded b_def]]) simp_all
  have "log_commit env ?t ?m d = (None, ?m \<lparr> m_logSize := int (length b) \<rparr>, d \<lparr> d_log := Some b \<rparr>)"
    unfolding log_commit_def w prod.case sum.case rotate_def if_not_P [OF nr] ..
  then have "append_commit env (map me_UID) (append_loop ls m) d =
      (Inr (map me_UID (layout_entries (c_next (vol_content v)) ls)), ?m \<lparr> m_logSize := int (length b) \<rparr>, d \<lparr> d_log := Some b \<rparr>)"
    using ac(1) [of "map me_UID" d] unfolding nx c(2) by simp
  then show ?thesis
    unfolding b_def [symmetric] using reload_torn [OF v l z q m] q ls(1)
    by (auto simp: AppendRecords_def withMapLock_def reload_then_def quiet_def uids_layout split: lock_answer.splits)
qed


lemma refcount_loop_missing:
  assumes "content_ok (content m)" and "m_loaded m" and "set us \<subseteq> dom (store_map (m_st m))" and "u \<notin> dom (store_map (m_st m))"
  shows "refcount_loop x (us @ u # rest) m = (Inl (UIDNotFound u), put_content (tx_step (RefcountTx (deltas x us)) (content m)) m)"
  using assms
proof (induction us arbitrary: m)
  case Nil
  have inv: "store_inv (m_st m)" using Nil.prems(1) by (simp add: content_ok_def)
  obtain i b where fd: "store_find (m_st m) u = (i, b)" by fastforce
  with find_each(1) [OF inv fd] Nil.prems(4) have "\<not> b" by simp
  then show ?case using fd Nil.prems(2) by (simp add: findLocked_def put_content_def content_def)
next
  case (Cons w us)
  let ?d = "\<lparr> ai_UID = w, ai_Diff = x \<rparr>"
  have inv: "store_inv (m_st m)" using Cons.prems(1) by (simp add: content_ok_def)
  obtain i b where fd: "store_find (m_st m) w = (i, b)" by fastforce
  moreover from find_each(1) [OF inv fd] Cons.prems(3) have b by simp
  ultimately have fd: "store_find (m_st m) w = (i, True)" by simp
  let ?m1 = "m \<lparr> m_st := setAt (m_st m) i (add_ref x (store_at (m_st m) i)) \<rparr>"
  have st: "m_st ?m1 = apply_delta ?d (m_st m)" by (simp add: apply_delta_def fd)
  have c1: "content ?m1 = tx_step (RefcountTx [?d]) (content m)" using st by (simp add: content_def)
  have "content_ok (content ?m1)" unfolding c1 by (rule deltas_content_ok [OF Cons.prems(1)])
  moreover have "dom (store_map (m_st ?m1)) = dom (store_map (m_st m))" unfolding st by (rule dom_apply_delta [OF inv])
  ultimately have "refcount_loop x (us @ u # rest) ?m1 =
      (Inl (UIDNotFound u), put_content (tx_step (RefcountTx (deltas x us)) (content ?m1)) ?m1)"
    using Cons.prems by (intro Cons.IH) simp_all
  then show ?case using fd Cons.prems(2) c1 by (simp add: findLocked_def put_content_def content_def)
qed

text \<open>C29. \<^verbatim>\<open>UpdateRefcounts\<close> returns an error when it meets a \<^verbatim>\<open>map_uid\<close> that is not there, but the counts it has already
  changed stay changed in the handle, whose stamps still say that it agrees with the disk: the next operation that
  folds, here \<^verbatim>\<open>Compact\<close>, writes the counts of the failed update into the base.\<close>

theorem failed_update_reaches_disk:
  assumes "vol_ok v" and "stores v d" and "stale v m" and "room v" and "quiet env" and "quiet env'"
    and "set us \<subseteq> dom (store_map (c_st (vol_content v)))" and "u \<notin> dom (store_map (c_st (vol_content v)))"
  shows "\<exists>m1 m2 d2 v2. UpdateRefcounts env (us @ u # rest) delta m d = (Inl (UIDNotFound u), m1, d) \<and>
    Compact env' m1 d = (Inr (), m2, d2) \<and> stores v2 d2 \<and>
    view (vol_content v2) = snd (spec (OpRefs us delta) (view (vol_content v)))"
proof -
  let ?x = "word_of_int delta"
  from reload_vol [OF assms(1,2,5,3)] obtain m0 where
    l: "reloadLocked env m d = (None, m0, d)" "synced v m0" "config m0 = config m" by blast
  have f0: "m_format m0 = FormatV2" using config_format [OF l(3)] assms(3) by (simp add: stale_def)
  from synced_content_ok [OF assms(1) l(2)] have c: "content_ok (content m0)" "content m0 = vol_content v" "m_loaded m0" by auto
  let ?c = "tx_step (RefcountTx (deltas ?x us)) (content m0)"
  have s: "set us \<subseteq> dom (store_map (m_st m0))" "u \<notin> dom (store_map (m_st m0))"
    using assms(7,8) unfolding c(2) [symmetric] by simp_all
  have up: "UpdateRefcounts env (us @ u # rest) delta m d = (Inl (UIDNotFound u), put_content ?c m0, d)"
    using l(1) assms(5) refcount_loop_missing [OF c(1,3) s, of ?x rest]
    by (auto simp: UpdateRefcounts_def withMapLock_def reload_then_def quiet_def split: lock_answer.splits)
  have "reloadLocked env' (put_content ?c m0) d = (None, put_content ?c m0, d)"
    using l(2) by (simp add: reloadLocked_def Let_def stat_vol [OF assms(2,6)] sameBase_iff synced_def based_def put_content_def)
  moreover from flush_good [OF assms(1,2,6) l(2) f0 assms(4) deltas_content_ok [OF c(1)]] obtain v2 m2 d2 where
    fl: "flushLocked env' (put_content ?c m0) d = (None, m2, d2)" "good env' v v2 m0 m2 d2" "vol_content v2 = ?c" by blast
  ultimately have cp: "Compact env' (put_content ?c m0) d = (Inr (), m2, d2)"
    using assms(6) by (auto simp: Compact_def withMapLock_def reload_then_def flush_return_def quiet_def split: lock_answer.splits)
  have "store_inv (m_st m0)" using c(1) by (simp add: content_ok_def)
  then have "view (vol_content v2) = snd (spec (OpRefs us delta) (view (vol_content v)))"
    unfolding fl(3) c(2) [symmetric] by (simp add: view_def view_deltas)
  with up cp fl(2) show ?thesis unfolding good_def by blast
qed

definition one_tx :: tx where
  "one_tx = AppendTx (layout_entries 1 one_record)"

definition second_vol :: Vol where
  "second_vol = append_vol (calm 2) one_tx first_vol"

definition second_disk :: Disk where
  "second_disk = first_disk \<lparr> d_log := Some (opened_log (calm 2) first_vol @ tx_bytes one_tx) \<rparr>"

lemma one_tx_wf: "tx_wf one_tx"
  by (simp add: one_tx_def one_record_def layout_entry_def)

lemma second_content:
  "content_ok (tx_step one_tx (vol_content first_vol))" "store_map (c_st (tx_step one_tx (vol_content first_vol))) 1 \<noteq> None"
  "store_map (c_st (tx_step one_tx (vol_content first_vol))) 9 = None"
  by code_simp+

lemma second_ok: "vol_ok second_vol" "stores second_vol second_disk" "stale second_vol first_handle" "room second_vol"
proof -
  show "vol_ok second_vol" unfolding second_vol_def by (rule append_vol_ok [OF first_vol_ok one_tx_wf second_content(1)])
  show "stores second_vol second_disk" unfolding second_vol_def second_disk_def by (rule stores_append [OF first_stores])
  show "stale second_vol first_handle" unfolding second_vol_def by (rule stale_append [OF first_stale])
  have "log_size first_vol = 0" by (simp add: log_size_def first_vol_def)
  then show "room second_vol"
    using append_size [OF one_tx_wf, of "calm 2" first_vol] first_room by (simp add: room_def second_vol_def)
qed

definition long_tx :: tx where
  "long_tx = RefcountTx (deltas 1 (replicate 20 1))"

definition torn_disk :: Disk where
  "torn_disk = second_disk \<lparr> d_log := map_option (\<lambda>b. b @ take 20 (tx_bytes long_tx)) (d_log second_disk) \<rparr>"

lemma torn_disk_sizes:
  "20 + length (tx_bytes (AppendTx (layout_entries (c_next (vol_content second_vol)) one_record))) < length (tx_bytes long_tx)"
  "no_fold new_handle (length (the (d_log second_disk)) + 20 +
     length (tx_bytes (AppendTx (layout_entries (c_next (vol_content second_vol)) one_record))))"
  "c_next (vol_content second_vol) = 2"
  by code_simp+


theorem failed_update_reaches_disk_witness:
  "\<exists>m1 m2 d2. UpdateRefcounts (calm 3) [1, 9] 1 first_handle second_disk = (Inl (UIDNotFound 9), m1, second_disk) \<and>
    Compact (calm 4) m1 second_disk = (Inr (), m2, d2)"
proof -
  have "set [1] \<subseteq> dom (store_map (c_st (vol_content second_vol)))" "9 \<notin> dom (store_map (c_st (vol_content second_vol)))"
    using second_content(2,3) by (simp_all add: second_vol_def domIff)
  from failed_update_reaches_disk [OF second_ok calm_quiet [of 3] calm_quiet [of 4] this, of "[]" 1]
  show ?thesis by auto
qed

end
