(* ===== verification/Spec2Isabelle.thy ===== *)
theory Spec2Isabelle
  imports Mailbox_ACL Lock_Server Hash_Ring Index_Recreate Mdbox_Crash
begin

text \<open>
  A verification of the core of yarilo, a mail server made of several processes: login proxies and directors in
  front, backends that own the mailboxes, and a lock service that serialises the writers.

  \<^bold>\<open>The parts and how they interact.\<close>  A director routes every user to one backend with a consistent hash ring.  A
  backend opens the user's mailboxes, whose access control lists decide what a session may do, and keeps the state
  of a folder or of a user's message store in index files.  Writers of one mailbox exclude each other through the
  lock service, a server with a line protocol over a table of locks with expiry times.  An index is a base file that
  is replaced as a whole and a log that grows by transactions; a message store of the \<^verbatim>\<open>mdbox\<close> kind has a map index
  of this shape that several processes share.

  \<^bold>\<open>Conventions.\<close>  \<open>Yarilo_Prelude\<close> fixes them: Go strings and byte slices are lists of bytes, Go maps are
  association lists whose order stands for the unspecified iteration order, functions that return an \<^verbatim>\<open>error\<close> return
  a sum or an option, panics are error values, times are numbers of nanoseconds.  Fixed-width integers are words
  wherever they can wrap.  \<open>Go_Runtime\<close> holds the parts of the Go library in use (UTF-8, decimal numbers, string
  functions, \<^verbatim>\<open>sort.Search\<close>), \<open>Go_Binary\<close> little-endian encoding and buffers, \<open>Go_MD5\<close> the digest.  Where the
  library leaves a choice (the order of equal elements in \<^verbatim>\<open>sort.Slice\<close>, Unicode case above ASCII) the choice is
  an argument of the definitions, with the documented contract as a hypothesis.

  \<^bold>\<open>Access control lists\<close> (\<open>Mailbox_ACL\<close>; \<^verbatim>\<open>pkg/mailbox/acl.go\<close>, \<^verbatim>\<open>aclmodify.go\<close>).  Rights, identifiers, entries, the
  file format, the tiered evaluator, the global layer, collapsing and SETACL.  The evaluator is shown equal to an
  order-free specification; the file format round-trips; SETACL refines an update of one entry of a map; and a
  global list that only revokes is shown to widen a user's rights.

  \<^bold>\<open>Lock service\<close> (\<open>Lock_Service\<close>, \<open>Lock_Server\<close>; \<^verbatim>\<open>pkg/locks/memory.go\<close>, \<^verbatim>\<open>server.go\<close>, \<^verbatim>\<open>proto.go\<close>, \<^verbatim>\<open>owner.go\<close>,
  \<^verbatim>\<open>locks.go\<close>, \<^verbatim>\<open>resources.go\<close>).  The state is the table of locks with its indexes, the counters and the subscribers;
  each operation of the backend and each command handler of the server is a function on it, and a run is a sequence of
  commands, sweeper ticks, deliveries to subscribers and ends of subscriptions, one at a time.  Exclusion until expiry,
  release, and, after every such run, the consistency of the indexes and an answer to every command are shown; so are
  the send on a closed channel that an overlap of a publication and a cancellation allows (\<open>bus_step\<close>), what becomes of
  lines that are too long, and the effect of a TTL that overflows.

  \<^bold>\<open>Hash ring\<close> (\<open>Hash_Ring\<close>; \<^verbatim>\<open>internal/cluster/ring\<close>).  The username template, the ring with its tags, every update
  and lookup.  A lookup returns the owner of the successor of the user's hash; directors with the same backends
  agree when no hashes collide, and can disagree when two do.  As long as none collide, removing a backend or
  marking it down moves only its users, and one that joins or comes back takes users only to itself.

  \<^bold>\<open>Index base file\<close> (\<open>Mail_Index\<close>, \<open>Index_Recreate\<close>; \<^verbatim>\<open>internal/storage/mailindex\<close>: \<^verbatim>\<open>header.go\<close>, \<^verbatim>\<open>ext.go\<close>, \<^verbatim>\<open>record.go\<close>,
  \<^verbatim>\<open>index.go\<close>, \<^verbatim>\<open>sync.go\<close>).  Bytes of the header, the extension table and the records; the layout of a record; reading
  and rewriting whole files, the rewrite as a sequence of file-system calls that may fail or be cut off anywhere.
  What a rewrite produced reads back; the rewrite is atomic as far as the process dies and not the machine; adding an
  extension keeps a file writable with its records; the loop over an extension table ends on every input of at most
  \<open>2 ^ 32 - 8\<close> bytes, and panics on a header size that wraps.

  \<^bold>\<open>Index transaction log\<close> (\<open>Mail_Log\<close>; \<^verbatim>\<open>log.go\<close>, \<^verbatim>\<open>log_tx.go\<close>).  The log header, the framing of transactions and the
  payload of every kind.  A torn transaction header is never taken for one; payloads decode to what was encoded.

  \<^bold>\<open>Map index\<close> (\<open>Mdbox_Store\<close>, \<open>Mdbox_Map\<close>, \<open>Mdbox_Replay\<close>, \<open>Mdbox_Sync\<close>, \<open>Mdbox_Ops\<close>, \<open>Mdbox_Shared\<close>,
  \<open>Mdbox_Crash\<close>; \<^verbatim>\<open>internal/storage/mailbox/mdbox/mdboxmap\<close>).  \<open>Mdbox_Store\<close> is the byte store with its codecs, shown to
  refine a finite map through the interface \<open>entry_store\<close>.  \<open>Mdbox_Map\<close> is the handle with every operation over an
  explicit disk and an environment that says which system calls fail.  \<open>Mdbox_Replay\<close> shows that replaying the bytes of
  a log applies its transactions in order; \<open>Mdbox_Sync\<close> that a handle which has seen an earlier state catches up, and
  what a fold leaves on the disk.  \<open>Mdbox_Ops\<close> gives the twelve operations by which an open handle changes the index an
  abstract meaning on one finite map with its counters, its rebuild count and its created file.
  \<open>Mdbox_Shared\<close> shows, through the interface \<open>shared_object\<close>, that any interleaving of operations of several handles
  acts on that one map; \<open>Mdbox_Crash\<close> that an operation whose writes fail or are cut off leaves the map from before or
  from after it when it starts from a log with no torn end, and two ways in which the code loses or invents data later:
  an append behind a torn transaction, and an update that failed half-way.

  \<^bold>\<open>Interfaces.\<close>  The locales state what one part relies on of another and are interpreted on the model's own
  definitions in the theory that provides them.

  \<^bold>\<open>Bounds and termination.\<close>  Loops are recursive functions with a termination proof.  The one loop that may run
  forever, over an extension table whose positions wrap, is a partial function whose result is shown to exist for
  every table of at most \<open>2 ^ 32 - 8\<close> bytes.  No definition uses fuel.

  \<^bold>\<open>Not modelled.\<close>  Sockets, TLS, loss of power (what \<^verbatim>\<open>fsync\<close> is for), goroutine scheduling beyond the interleavings named above, metrics and logging;
  the protocol servers (IMAP, POP3, LMTP, JMAP, submission, ManageSieve) and the login proxies, which are sessions
  over third-party protocol libraries; authentication, which rests on third-party cryptography and databases;
  full-text search, which rests on Xapian; the dictionaries over Redis and SQL; the folder index and the mailbox
  drivers above the modelled file formats; configuration, wiring and the command-line programs.
\<close>

end
